(* ===== verification/Stric_Prelude.thy ===== *)
theory Stric_Prelude
  imports Main "HOL-Library.Word" "HOL-Library.AList"
begin

text \<open>
  What the component theories share: the machine integers of the Rust sources, the outcome of
  an expression that may panic, Rust's overflowing arithmetic, and the hash maps
  (\<^verbatim>\<open>std::collections::HashMap\<close> and \<^verbatim>\<open>dashmap::DashMap\<close>) with the interface their clients
  rely on.
\<close>

text \<open>The equations that evaluate the model on concrete inputs.\<close>

named_theorems evals

section \<open>Machine integers\<close>

type_synonym u8 = "8 word"
type_synonym u16 = "16 word"
type_synonym u32 = "32 word"
type_synonym u64 = "64 word"

lemma unat_less_2p: "unat (x :: 'a::len word) < 2 ^ LENGTH('a)"
  by (rule unsigned_less)

text \<open>Rust's \<^verbatim>\<open>u32::MAX\<close>.\<close>

definition u32_MAX :: u32 where
  "u32_MAX = 4294967295"

lemma le_u32_MAX [simp]: "x \<le> u32_MAX"
  using unat_less_2p [of x] by (simp add: u32_MAX_def word_le_nat_alt)

lemma unat_u32_MAX [simp]: "unat u32_MAX = 4294967295"
  by (simp add: u32_MAX_def)

lemma word_succ_less: "x \<noteq> - 1 \<Longrightarrow> x < x + 1" for x :: "'a::len word"
proof -
  assume "x \<noteq> - 1"
  then have "1 + x \<noteq> 0" using max_word_wrap [of x] by (auto simp: add.commute)
  then have "unat (1 + x) = Suc (unat x)" by (rule unatSuc)
  then show ?thesis by (simp add: word_less_nat_alt add.commute)
qed

section \<open>Expressions that may panic\<close>

text \<open>
  \<open>Ret v\<close> is normal evaluation to \<open>v\<close>, \<open>Panic\<close> an unwinding panic. Where a loop may run
  forever, its model returns an \<open>option\<close> of this type and \<open>None\<close> is divergence.
\<close>

datatype 'a exec = Ret 'a | Panic

fun exec_bind :: "'a exec \<Rightarrow> ('a \<Rightarrow> 'b exec) \<Rightarrow> 'b exec" where
  "exec_bind (Ret x) f = f x"
| "exec_bind Panic f = Panic"

lemma exec_bind_eq_Ret: "exec_bind m f = Ret y \<longleftrightarrow> (\<exists>x. m = Ret x \<and> f x = Ret y)"
  by (cases m) auto

lemma exec_bind_eq_Panic: "exec_bind m f = Panic \<longleftrightarrow> m = Panic \<or> (\<exists>x. m = Ret x \<and> f x = Panic)"
  by (cases m) auto

lemma exec_bind_assoc: "exec_bind (exec_bind m f) g = exec_bind m (\<lambda>x. exec_bind (f x) g)"
  by (cases m) auto

text \<open>
  The \<open>+\<close> of an unsigned Rust integer. With overflow checks (the dev and test profiles) an
  overflow panics, without them (the release profile of this workspace, which sets no
  \<^verbatim>\<open>overflow-checks\<close>) it wraps around. The first argument says whether checks are on.
\<close>

definition overflows :: "'a::len word \<Rightarrow> 'a word \<Rightarrow> bool" where
  "overflows a b \<longleftrightarrow> 2 ^ LENGTH('a) \<le> unat a + unat b"

definition rust_add :: "bool \<Rightarrow> 'a::len word \<Rightarrow> 'a word \<Rightarrow> 'a word exec" where
  "rust_add checks a b = (if checks \<and> overflows a b then Panic else Ret (a + b))"

lemma rust_add_exact:
  assumes "unat a + unat b < 2 ^ LENGTH('a)"
  shows "rust_add checks (a :: 'a::len word) b = Ret (a + b)"
    and "unat (a + b) = unat a + unat b"
  using assms by (auto simp: rust_add_def overflows_def unat_word_ariths)

lemma rust_add_unchecked [simp]: "rust_add False a b = Ret (a + b)"
  by (simp add: rust_add_def)

lemma rust_add_Panic_iff: "rust_add checks a b = Panic \<longleftrightarrow> checks \<and> overflows a b"
  by (simp add: rust_add_def)

text \<open>The \<open>*\<close> of an unsigned Rust integer, in the same two profiles.\<close>

definition rust_mul :: "bool \<Rightarrow> 'a::len word \<Rightarrow> 'a word \<Rightarrow> 'a word exec" where
  "rust_mul checks a b =
     (if checks \<and> 2 ^ LENGTH('a) \<le> unat a * unat b then Panic else Ret (a * b))"

lemma rust_mul_unchecked [simp]: "rust_mul False a b = Ret (a * b)"
  by (simp add: rust_mul_def)

section \<open>Results\<close>

text \<open>The \<open>?\<close> operator on a \<^verbatim>\<open>Result\<close>.\<close>

definition res_bind :: "'e + 'a \<Rightarrow> ('a \<Rightarrow> 'e + 'b) \<Rightarrow> 'e + 'b" where
  "res_bind r f = (case r of Inl e \<Rightarrow> Inl e | Inr x \<Rightarrow> f x)"

lemma res_bind_simps [simp]:
  "res_bind (Inl e) f = Inl e"
  "res_bind (Inr x) f = f x"
  by (simp_all add: res_bind_def)

lemma res_bind_eq_Inr: "res_bind r f = Inr y \<longleftrightarrow> (\<exists>x. r = Inr x \<and> f x = Inr y)"
  by (cases r) simp_all

lemma res_bind_eq_Inl: "res_bind r f = Inl e \<longleftrightarrow> r = Inl e \<or> (\<exists>x. r = Inr x \<and> f x = Inl e)"
  by (cases r) simp_all

lemma option_eqI: "(\<And>v. x = Some v \<longleftrightarrow> y = Some v) \<Longrightarrow> x = y"
  by (cases x; cases y) auto

section \<open>Hash maps\<close>

text \<open>
  A hash map is the list of its entries in iteration order, at most one entry per key. The
  order is not fixed by the program; a theorem about a map quantifies over the list, so over
  every iteration order. A \<^verbatim>\<open>DashMap\<close> call locks one shard for its duration and is one
  atomic operation of the same interface. A \<^verbatim>\<open>HashSet\<close> is the list of its members.
\<close>

type_synonym ('k, 'v) hmap = "('k \<times> 'v) list"

definition hm_get :: "('k, 'v) hmap \<Rightarrow> 'k \<Rightarrow> 'v option" where
  "hm_get m k = map_of m k"

definition hm_insert :: "'k \<Rightarrow> 'v \<Rightarrow> ('k, 'v) hmap \<Rightarrow> ('k, 'v) hmap" where
  "hm_insert k v m = AList.update k v m"

definition hm_remove :: "'k \<Rightarrow> ('k, 'v) hmap \<Rightarrow> ('k, 'v) hmap" where
  "hm_remove k m = AList.delete k m"

definition hm_retain :: "('k \<Rightarrow> 'v \<Rightarrow> bool) \<Rightarrow> ('k, 'v) hmap \<Rightarrow> ('k, 'v) hmap" where
  "hm_retain P m = filter (\<lambda>(k, v). P k v) m"

definition hm_contains_key :: "('k, 'v) hmap \<Rightarrow> 'k \<Rightarrow> bool" where
  "hm_contains_key m k \<longleftrightarrow> hm_get m k \<noteq> None"

definition hm_keys :: "('k, 'v) hmap \<Rightarrow> 'k list" where
  "hm_keys m = map fst m"

definition hm_wf :: "('k, 'v) hmap \<Rightarrow> bool" where
  "hm_wf m \<longleftrightarrow> distinct (map fst m)"

definition hs_insert :: "'a \<Rightarrow> 'a list \<Rightarrow> 'a list" where
  "hs_insert x s = (if x \<in> set s then s else s @ [x])"

lemma set_hs_insert [simp]: "set (hs_insert x s) = insert x (set s)"
  by (auto simp: hs_insert_def)

lemma distinct_hs_insert [simp]: "distinct (hs_insert x s) \<longleftrightarrow> distinct s"
  by (auto simp: hs_insert_def)

text \<open>The contract of a hash map, and what clients derive from it alone.\<close>

locale hash_map =
  fixes empty :: 'm
    and ins :: "'k \<Rightarrow> 'v \<Rightarrow> 'm \<Rightarrow> 'm"
    and rem :: "'k \<Rightarrow> 'm \<Rightarrow> 'm"
    and retain :: "('k \<Rightarrow> 'v \<Rightarrow> bool) \<Rightarrow> 'm \<Rightarrow> 'm"
    and get :: "'m \<Rightarrow> 'k \<Rightarrow> 'v option"
    and entries :: "'m \<Rightarrow> ('k \<times> 'v) list"
    and wf :: "'m \<Rightarrow> bool"
  assumes get_empty: "get empty k = None"
    and get_ins: "get (ins k v m) = (get m)(k \<mapsto> v)"
    and get_rem: "get (rem k m) = (get m)(k := None)"
    and get_retain: "wf m \<Longrightarrow> get (retain P m) k = Option.bind (get m k) (\<lambda>v. if P k v then Some v else None)"
    and entries_get: "wf m \<Longrightarrow> (k, v) \<in> set (entries m) \<longleftrightarrow> get m k = Some v"
    and wf_empty: "wf empty"
    and wf_ins: "wf m \<Longrightarrow> wf (ins k v m)"
    and wf_rem: "wf m \<Longrightarrow> wf (rem k m)"
    and wf_retain: "wf m \<Longrightarrow> wf (retain P m)"
begin

lemma get_ins_same: "get (ins k v m) k = Some v"
  by (simp add: get_ins)

lemma get_ins_other: "k \<noteq> k' \<Longrightarrow> get (ins k v m) k' = get m k'"
  by (simp add: get_ins)

lemma dom_get_ins: "dom (get (ins k v m)) = insert k (dom (get m))"
  by (simp add: get_ins)

lemma dom_get_rem: "dom (get (rem k m)) = dom (get m) - {k}"
  by (simp add: get_rem)

lemma entries_dom: "wf m \<Longrightarrow> fst ` set (entries m) = dom (get m)"
  by (auto simp: entries_get image_iff Bex_def)

lemma finite_dom_get: "wf m \<Longrightarrow> finite (dom (get m))"
  by (metis entries_dom finite_imageI List.finite_set)

lemma wf_fold_ins: "wf m \<Longrightarrow> wf (fold (\<lambda>x. ins (f x) (g x)) xs m)"
  by (induction xs arbitrary: m) (simp_all add: wf_ins)

lemma dom_fold_ins: "dom (get (fold (\<lambda>x. ins (f x) (g x)) xs m)) = f ` set xs \<union> dom (get m)"
  by (induction xs arbitrary: m) (auto simp: get_ins)

lemma get_fold_ins_notin:
  "k \<notin> f ` set xs \<Longrightarrow> get (fold (\<lambda>x. ins (f x) (g x)) xs m) k = get m k"
  by (induction xs arbitrary: m) (auto simp: get_ins)

end

interpretation hm: hash_map "[]" hm_insert hm_remove hm_retain hm_get "\<lambda>m. m" hm_wf
proof unfold_locales
  fix m :: "('a, 'b) hmap" and P k
  assume wf: "hm_wf m"
  show "hm_get (hm_retain P m) k = Option.bind (hm_get m k) (\<lambda>v. if P k v then Some v else None)"
    using wf unfolding hm_get_def hm_retain_def hm_wf_def
    by (induction m) (auto split: option.splits simp: map_of_eq_None_iff image_iff)
  show "hm_wf (hm_retain P m)"
    using wf by (auto simp: hm_wf_def hm_retain_def distinct_map_filter)
qed (auto simp: hm_get_def hm_insert_def hm_remove_def hm_wf_def update_conv' delete_conv'
       distinct_update distinct_delete map_of_eq_Some_iff)

lemmas hm_simps [simp] =
  hm.get_empty hm.get_ins hm.get_rem hm.wf_empty hm.wf_ins hm.wf_rem hm.wf_retain

lemma hm_get_in: "hm_get m k = Some v \<Longrightarrow> (k, v) \<in> set m"
  by (simp add: hm_get_def map_of_SomeD)

lemma hm_wf_distinct: "hm_wf m \<Longrightarrow> distinct m"
  by (simp add: hm_wf_def distinct_map)

lemma hm_contains_key_simps [simp]:
  "hm_contains_key (hm_insert k v m) k' \<longleftrightarrow> k' = k \<or> hm_contains_key m k'"
  "hm_contains_key (hm_remove k m) k' \<longleftrightarrow> k' \<noteq> k \<and> hm_contains_key m k'"
  by (auto simp: hm_contains_key_def)

lemma in_hm_keys_iff: "hm_wf m \<Longrightarrow> k \<in> set (hm_keys m) \<longleftrightarrow> hm_contains_key m k"
  using hm.entries_dom [of m] by (auto simp: hm_keys_def hm_contains_key_def)

lemmas prelude_evals [evals] =
  Let_def hm_get_def hm_insert_def hm_remove_def hm_retain_def hm_contains_key_def hm_keys_def
  hs_insert_def rust_add_def overflows_def u32_MAX_def

end
