(* ===== verification/Topics.thy ===== *)
theory Topics
  imports Stric_Prelude
begin

text \<open>
  Hierarchical topics and subscription patterns (\<^verbatim>\<open>match_topic\<close> of
  \<^verbatim>\<open>stric-flow/src/routing.rs\<close>): the index loop as the code runs it, a declarative reading of
  patterns, and their equivalence.
\<close>

section \<open>The matcher\<close>

text \<open>\<^verbatim>\<open>str::split(c)\<close> of the standard library: always at least one part.\<close>

fun split_on :: "char \<Rightarrow> string \<Rightarrow> string list" where
  "split_on c [] = [[]]"
| "split_on c (x # xs) =
     (if x = c then [] # split_on c xs
      else (case split_on c xs of [] \<Rightarrow> [[x]] | p # ps \<Rightarrow> (x # p) # ps))"

text \<open>
  The \<^verbatim>\<open>while\<close> loop over \<^verbatim>\<open>p_idx\<close> and \<^verbatim>\<open>t_idx\<close>. Both indices are checked against the
  lengths before they are used, so no access is out of range.
\<close>

function match_loop :: "string list \<Rightarrow> string list \<Rightarrow> nat \<Rightarrow> nat \<Rightarrow> bool" where
  "match_loop p_parts t_parts p_idx t_idx =
     (if p_idx < length p_parts then
        (let p_part = p_parts ! p_idx in
         if p_part = ''#'' then True
         else if t_idx \<ge> length t_parts then False
         else (let t_part = t_parts ! t_idx in
               if p_part = ''*'' then match_loop p_parts t_parts (p_idx + 1) (t_idx + 1)
               else if p_part \<noteq> t_part then False
               else match_loop p_parts t_parts (p_idx + 1) (t_idx + 1)))
      else t_idx = length t_parts)"
  by pat_completeness auto
termination
  by (relation "measure (\<lambda>(p_parts, t_parts, p_idx, t_idx). length p_parts - p_idx)") auto

declare match_loop.simps [simp del]

definition match_topic :: "string \<Rightarrow> string \<Rightarrow> bool" where
  "match_topic pattern topic =
     match_loop (split_on (CHR ''.'') pattern) (split_on (CHR ''.'') topic) 0 0"

section \<open>What a pattern means\<close>

text \<open>
  One level: \<open>*\<close> stands for any level, any other level for itself. A pattern without \<open>#\<close> is
  compared level by level; from the first \<open>#\<close> on, anything (also nothing) is accepted.
\<close>

definition level_matches :: "string \<Rightarrow> string \<Rightarrow> bool" where
  "level_matches p t \<longleftrightarrow> p = ''*'' \<or> p = t"

definition levels_match :: "string list \<Rightarrow> string list \<Rightarrow> bool" where
  "levels_match ps ts =
     (let pre = takeWhile (\<lambda>p. p \<noteq> ''#'') ps in
      if ''#'' \<in> set ps
      then length pre \<le> length ts \<and> list_all2 level_matches pre (take (length pre) ts)
      else list_all2 level_matches ps ts)"

lemma levels_match_simps:
  "levels_match [] ts \<longleftrightarrow> ts = []"
  "levels_match (''#'' # ps) ts"
  "levels_match (p # ps) [] \<longleftrightarrow> p = ''#''"
  "p \<noteq> ''#'' \<Longrightarrow> levels_match (p # ps) (t # ts) \<longleftrightarrow> level_matches p t \<and> levels_match ps ts"
  by (auto simp: levels_match_def Let_def)

lemma match_loop_drop:
  assumes "p_idx \<le> length ps" and "t_idx \<le> length ts"
  shows "match_loop ps ts p_idx t_idx \<longleftrightarrow> levels_match (drop p_idx ps) (drop t_idx ts)"
  using assms
proof (induction ps ts p_idx t_idx rule: match_loop.induct)
  case (1 ps ts p_idx t_idx)
  show ?case
  proof (cases "p_idx < length ps")
    case False
    with "1.prems" show ?thesis
      by (subst match_loop.simps) (auto simp: levels_match_simps)
  next
    case p: True
    note ps = Cons_nth_drop_Suc [OF p, symmetric]
    show ?thesis
    proof (cases "t_idx < length ts")
      case False
      with p show ?thesis
        by (auto simp: match_loop.simps [of ps ts p_idx t_idx] ps levels_match_simps)
    next
      case t: True
      note ts = Cons_nth_drop_Suc [OF t, symmetric]
      from p t show ?thesis
        using "1.IH"
        by (auto simp: match_loop.simps [of ps ts p_idx t_idx] ps ts levels_match_simps
              level_matches_def Let_def)
    qed
  qed
qed

section \<open>Splitting is injective\<close>

fun join_with :: "char \<Rightarrow> string list \<Rightarrow> string" where
  "join_with c [] = []"
| "join_with c [p] = p"
| "join_with c (p # q # ps) = p @ c # join_with c (q # ps)"

lemma split_on_nonempty [simp]: "split_on c s \<noteq> []"
  by (induction s) (auto split: list.splits)

lemma join_with_Cons: "ps \<noteq> [] \<Longrightarrow> join_with c (p # ps) = p @ c # join_with c ps"
  by (cases ps) auto

lemma join_split_on: "join_with c (split_on c s) = s"
proof (induction s)
  case (Cons x s)
  obtain p ps where s: "split_on c s = p # ps"
    by (cases "split_on c s") auto
  have "join_with c ((x # p) # ps) = x # join_with c (p # ps)"
    by (cases ps) auto
  with Cons s show ?case
    by (simp add: join_with_Cons)
qed simp

lemma split_on_inj: "split_on c s = split_on c t \<longleftrightarrow> s = t"
  by (metis join_split_on)

lemma split_on_no_sep: "p \<in> set (split_on c s) \<Longrightarrow> c \<notin> set p"
  by (induction s arbitrary: p) (auto split: list.splits if_splits)

lemma split_on_join: "ps \<noteq> [] \<Longrightarrow> \<forall>p\<in>set ps. c \<notin> set p \<Longrightarrow> split_on c (join_with c ps) = ps"
proof (induction c ps rule: join_with.induct)
  case (2 c p)
  then show ?case by (induction p) auto
next
  case (3 c p q ps)
  then have "split_on c (join_with c (q # ps)) = q # ps" by simp
  moreover have "split_on c (p @ c # r) = p # split_on c r" if "c \<notin> set p" for r
    using that by (induction p) auto
  ultimately show ?case using "3.prems" by simp
qed simp

section \<open>Properties of the matcher\<close>


lemma list_all2_literal:
  "''*'' \<notin> set ps \<Longrightarrow> list_all2 level_matches ps ts \<longleftrightarrow> ps = ts"
  by (induction ps arbitrary: ts) (auto simp: level_matches_def list_all2_Cons1)

text \<open>
  A pattern without wildcard levels matches exactly the topic it spells.
\<close>

theorem match_topic_literal:
  assumes "''*'' \<notin> set (split_on (CHR ''.'') pattern)"
    and "''#'' \<notin> set (split_on (CHR ''.'') pattern)"
  shows "match_topic pattern topic \<longleftrightarrow> pattern = topic"
  using assms by (simp add: match_topic_def match_loop_drop levels_match_def list_all2_literal split_on_inj)

theorem match_topic_literal_witness:
  "match_topic ''sensor.temp'' ''sensor.temp'' \<and> \<not> match_topic ''sensor.temp'' ''sensor''"
  using match_topic_literal [of "''sensor.temp''" "''sensor.temp''"]
    match_topic_literal [of "''sensor.temp''" "''sensor''"]
  by simp

end
