(* ===== verification/Flow_Proto.thy ===== *)
theory Flow_Proto
  imports Stric_Prelude
begin

text \<open>
  The message types of \<^verbatim>\<open>stric-flow/proto/stric_flow.proto\<close>, as the records and enums that the
  protobuf compiler gives the Rust code: an enum field is an \<^verbatim>\<open>i32\<close>, a message field an
  \<open>option\<close>, a \<^verbatim>\<open>oneof\<close> an \<open>option\<close> of a sum, a \<^verbatim>\<open>map\<close> a hash map, \<^verbatim>\<open>bytes\<close> a byte list.
\<close>

type_synonym bytes = "u8 list"
type_synonym i32 = "32 word"

text \<open>Enum values used by the code.\<close>

abbreviation (input) NODE_ROLE_FLOW :: i32 where "NODE_ROLE_FLOW \<equiv> 0"
abbreviation (input) NODE_ROLE_AGGREGATOR :: i32 where "NODE_ROLE_AGGREGATOR \<equiv> 1"
abbreviation (input) SUBSCRIBE :: i32 where "SUBSCRIBE \<equiv> 0"
abbreviation (input) BP_PAUSE :: i32 where "BP_PAUSE \<equiv> 0"
abbreviation (input) BP_RESUME :: i32 where "BP_RESUME \<equiv> 1"
abbreviation (input) BP_THROTTLE :: i32 where "BP_THROTTLE \<equiv> 2"
abbreviation (input) SYNC_SNAPSHOT :: i32 where "SYNC_SNAPSHOT \<equiv> 0"
abbreviation (input) CODEC_RAW :: i32 where "CODEC_RAW \<equiv> 3"
abbreviation (input) DELIVERY_GUARANTEED :: i32 where "DELIVERY_GUARANTEED \<equiv> 0"
abbreviation (input) IDENTITY_TLS_DERIVED :: i32 where "IDENTITY_TLS_DERIVED \<equiv> 0"

section \<open>Topology\<close>

record NodeDescriptor =
  nd_node_id :: string
  nd_role :: i32
  nd_capabilities :: "(string, string) hmap"
  nd_last_seen :: u64

record LinkDescriptor =
  ld_node_a :: string
  ld_node_b :: string
  ld_hop_cost :: u32
  ld_rtt_micros :: u64

record LinkRemoved =
  lr_node_a :: string
  lr_node_b :: string

record TopologyUpdate =
  tu_origin_node_id :: string
  tu_epoch :: u64
  tu_nodes_added :: "NodeDescriptor list"
  tu_nodes_removed :: "string list"
  tu_links_added :: "LinkDescriptor list"
  tu_links_removed :: "LinkRemoved list"

section \<open>Subscriptions, heartbeats, backpressure\<close>

record SubscriptionEntry =
  se_flow_id :: string
  se_pattern :: string
  se_action :: i32

record SubscriptionUpdate =
  su_node_id :: string
  su_entries :: "SubscriptionEntry list"
  su_epoch :: u64

record Ping = ping_sent_at :: u64

record Pong =
  pong_ping_sent_at :: u64
  pong_sent_at :: u64

record BackpressureSignal =
  bp_flow_id :: string
  bp_topic_id :: string
  bp_action :: i32
  bp_max_rate :: u32

section \<open>Sessions\<close>

record SessionCreate =
  sc_session_id :: string
  sc_creator_node :: string
  sc_flow_ids :: "string list"
  sc_created_at :: u64
  sc_metadata :: "(string, string) hmap"

record SessionJoin =
  sj_session_id :: string
  sj_node_id :: string

record SessionLeave =
  sl_session_id :: string
  sl_node_id :: string

record SessionClose =
  cl_session_id :: string
  cl_closed_by :: string
  cl_reason :: string

record SessionStateSync =
  ss_session_id :: string
  ss_sender :: string
  ss_mode :: i32
  ss_timestamp :: u64
  ss_version :: u64
  ss_data :: bytes
  ss_codec :: i32

datatype session_message =
    SCreate SessionCreate
  | SJoin SessionJoin
  | SLeave SessionLeave
  | SClose SessionClose
  | SStateSync SessionStateSync

section \<open>Handshake and the control message\<close>

record FlowHandshake =
  fh_protocol_version :: u32
  fh_node_id :: string
  fh_role :: i32
  fh_capabilities :: "(string, string) hmap"
  fh_supported_codecs :: "string list"
  fh_subscribed_topics :: "string list"
  fh_identity_mode :: i32

record HandshakeAck =
  ha_accepted :: bool
  ha_reject_reason :: string
  ha_protocol_version :: u32

record IdentityChallenge = ic_challenge_nonce :: bytes

record IdentityProof =
  ip_node_id :: string
  ip_signature :: bytes
  ip_public_key :: bytes

datatype control_payload =
    CHandshake FlowHandshake
  | CHandshakeAck HandshakeAck
  | CIdentityProof IdentityProof
  | CIdentityChallenge IdentityChallenge
  | CTopologyUpdate TopologyUpdate
  | CSubscriptionUpdate SubscriptionUpdate
  | CBackpressure BackpressureSignal
  | CSessionControl "session_message option"
  | CPing Ping
  | CPong Pong

type_synonym ControlMessage = "control_payload option"

section \<open>Data envelopes\<close>

type_synonym ForwardingTargets = "string list"

record RoutingHeader =
  rh_source_node_id :: string
  rh_flow_id :: string
  rh_topic_id :: string
  rh_session_id :: string
  rh_nonce :: string
  rh_timestamp :: u64
  rh_deadline :: u64
  rh_delivery_mode :: i32
  rh_forwarding_table :: "(string, ForwardingTargets) hmap"

record Envelope =
  env_header :: "RoutingHeader option"
  env_message_type :: string
  env_codec :: i32
  env_payload :: bytes

end
