(* ===== verification/Digraph.thy ===== *)
theory Digraph
  imports Stric_Prelude "HOL-Library.Multiset"
begin

text \<open>
  The directed graph library the routing code is written against (\<^verbatim>\<open>petgraph::graph::DiGraph\<close>).
  Its operations are a record of functions, an argument of every definition that uses them; the
  locale \<open>digraph\<close> states what the library documents about them. The second half of the theory
  is a vector-backed graph with the documented index behaviour, which shows that the contract
  can be met and on which the examples of the development are evaluated.
\<close>

section \<open>The operations and their contract\<close>

text \<open>
  Node indices are numbers. \<^verbatim>\<open>graph[i]\<close> and \<^verbatim>\<open>update_edge\<close> panic on an index that is not in
  the graph; \<^verbatim>\<open>edges\<close> lists the outgoing edges of a node with target and weight.
\<close>

record ('g, 'n, 'w) digraph_ops =
  dg_new :: 'g
  dg_add_node :: "'g \<Rightarrow> 'n \<Rightarrow> 'g \<times> nat"
  dg_remove_node :: "'g \<Rightarrow> nat \<Rightarrow> 'g"
  dg_node_indices :: "'g \<Rightarrow> nat list"
  dg_index :: "'g \<Rightarrow> nat \<Rightarrow> 'n exec"
  dg_update_edge :: "'g \<Rightarrow> nat \<Rightarrow> nat \<Rightarrow> 'w \<Rightarrow> 'g exec"
  dg_find_edge :: "'g \<Rightarrow> nat \<Rightarrow> nat \<Rightarrow> nat option"
  dg_remove_edge :: "'g \<Rightarrow> nat \<Rightarrow> 'g"
  dg_edges :: "'g \<Rightarrow> nat \<Rightarrow> (nat \<times> 'w) list"
  dg_edge_references :: "'g \<Rightarrow> (nat \<times> nat \<times> 'w) list"

text \<open>\<^verbatim>\<open>Vec::swap_remove\<close>: the last element takes the place of the removed one.\<close>

definition swap_remove :: "nat \<Rightarrow> 'a list \<Rightarrow> 'a list" where
  "swap_remove i xs =
     (if i < length xs - 1 then (butlast xs)[i := last xs] else butlast xs)"

text \<open>The old index of the node that has index \<open>a\<close> after index \<open>i\<close> was removed.\<close>

definition old_index :: "nat \<Rightarrow> nat \<Rightarrow> nat \<Rightarrow> nat" where
  "old_index i tail a = (if a = i then tail else a)"

text \<open>
  \<open>wts\<close> are the node weights in index order, \<open>edge g a b\<close> the weight of the edge from \<open>a\<close> to
  \<open>b\<close>, \<open>inv\<close> the graphs without parallel edges (the code only adds edges with
  \<^verbatim>\<open>update_edge\<close>). Removing a node invalidates the last index, whose node adopts the removed
  one.
\<close>

locale digraph =
  fixes ops :: "('g, 'n, 'w) digraph_ops"
    and wts :: "'g \<Rightarrow> 'n list"
    and edge :: "'g \<Rightarrow> nat \<Rightarrow> nat \<Rightarrow> 'w option"
    and inv :: "'g \<Rightarrow> bool"
  assumes inv_new: "inv (dg_new ops)"
    and wts_new: "wts (dg_new ops) = []"
    and edge_range: "inv g \<Longrightarrow> edge g a b = Some w \<Longrightarrow> a < length (wts g) \<and> b < length (wts g)"
    and add_node: "inv g \<Longrightarrow> dg_add_node ops g n = (g', i) \<Longrightarrow>
          inv g' \<and> i = length (wts g) \<and> wts g' = wts g @ [n] \<and> edge g' = edge g"
    and index: "inv g \<Longrightarrow> dg_index ops g i = (if i < length (wts g) then Ret (wts g ! i) else Panic)"
    and node_indices: "inv g \<Longrightarrow> dg_node_indices ops g = [0..<length (wts g)]"
    and update_edge: "inv g \<Longrightarrow> a < length (wts g) \<Longrightarrow> b < length (wts g) \<Longrightarrow>
          \<exists>g'. dg_update_edge ops g a b w = Ret g' \<and> inv g' \<and> wts g' = wts g \<and>
               edge g' = (edge g)(a := (edge g a)(b \<mapsto> w))"
    and find_edge: "inv g \<Longrightarrow> dg_find_edge ops g a b = None \<longleftrightarrow> edge g a b = None"
    and remove_edge: "inv g \<Longrightarrow> dg_find_edge ops g a b = Some e \<Longrightarrow>
          inv (dg_remove_edge ops g e) \<and> wts (dg_remove_edge ops g e) = wts g \<and>
          edge (dg_remove_edge ops g e) = (edge g)(a := (edge g a)(b := None))"
    and edges: "inv g \<Longrightarrow> set (dg_edges ops g a) = {(b, w). edge g a b = Some w}"
    and edge_references: "inv g \<Longrightarrow>
          set (dg_edge_references ops g) = {(a, b, w). edge g a b = Some w} \<and>
          distinct (dg_edge_references ops g)"
    and remove_node: "inv g \<Longrightarrow> i < length (wts g) \<Longrightarrow>
          inv (dg_remove_node ops g i) \<and>
          wts (dg_remove_node ops g i) = swap_remove i (wts g) \<and>
          (\<forall>a b. a < length (wts g) - 1 \<longrightarrow> b < length (wts g) - 1 \<longrightarrow>
             edge (dg_remove_node ops g i) a b =
               edge g (old_index i (length (wts g) - 1) a) (old_index i (length (wts g) - 1) b))"
begin

lemma edge_new: "edge (dg_new ops) a b = None"
  using edge_range [OF inv_new, of a b] by (cases "edge (dg_new ops) a b") (auto simp: wts_new)

lemma add_node_obtain:
  assumes "inv g"
  obtains g' where "dg_add_node ops g n = (g', length (wts g))" "inv g'"
    "wts g' = wts g @ [n]" "edge g' = edge g"
proof -
  obtain g' i where g': "dg_add_node ops g n = (g', i)" by (cases "dg_add_node ops g n")
  from add_node [OF assms g'] g' that show thesis by simp
qed

end

section \<open>Swap removal\<close>

lemma length_swap_remove [simp]: "length (swap_remove i xs) = length xs - 1"
  by (simp add: swap_remove_def)

lemma nth_swap_remove:
  "i < length xs \<Longrightarrow> j < length xs - 1 \<Longrightarrow>
     swap_remove i xs ! j = xs ! old_index i (length xs - 1) j"
  by (cases xs rule: rev_cases) (auto simp: swap_remove_def old_index_def nth_append nth_list_update)

lemma mset_swap_remove: "i < length xs \<Longrightarrow> mset xs = add_mset (xs ! i) (mset (swap_remove i xs))"
proof (cases xs rule: rev_cases)
  case (snoc ys y)
  assume "i < length xs"
  with snoc show ?thesis
    by (cases "i = length ys") (auto simp: swap_remove_def mset_update nth_append)
qed simp

lemma set_swap_remove: "distinct xs \<Longrightarrow> i < length xs \<Longrightarrow> set (swap_remove i xs) = set xs - {xs ! i}"
  and distinct_swap_remove: "distinct xs \<Longrightarrow> i < length xs \<Longrightarrow> distinct (swap_remove i xs)"
proof -
  assume d: "distinct xs" and i: "i < length xs"
  have m: "mset xs = mset (xs ! i # swap_remove i xs)"
    using mset_swap_remove [OF i] by simp
  have "distinct (xs ! i # swap_remove i xs)"
    using d mset_eq_imp_distinct_iff [OF m] by blast
  moreover have "set xs = insert (xs ! i) (set (swap_remove i xs))"
    using mset_eq_setD [OF m] by simp
  ultimately show "set (swap_remove i xs) = set xs - {xs ! i}" "distinct (swap_remove i xs)"
    by auto
qed

lemma map_swap_remove: "map f (swap_remove i xs) = swap_remove i (map f xs)"
  by (cases xs rule: rev_cases) (auto simp: swap_remove_def map_update map_butlast)

lemma map_of_swap_remove:
  assumes "distinct (map fst es)" and "e < length es"
  shows "map_of (swap_remove e es) = (map_of es)(fst (es ! e) := None)"
proof -
  have d: "distinct (map fst (swap_remove e es))"
    using assms by (simp add: map_swap_remove distinct_swap_remove)
  have s: "set (swap_remove e es) = set es - {es ! e}"
    using assms by (simp add: set_swap_remove distinct_map)
  have key: "p = es ! e" if "p \<in> set es" "fst p = fst (es ! e)" for p
    using that assms inj_onD [of fst "set es" p "es ! e"] by (simp add: distinct_map)
  show ?thesis
  proof
    fix k
    show "map_of (swap_remove e es) k = ((map_of es)(fst (es ! e) := None)) k"
    proof (cases "k = fst (es ! e)")
      case True
      have "k \<notin> fst ` set (swap_remove e es)"
        using s key True by (auto simp: image_iff)
      with True show ?thesis by (simp add: map_of_eq_None_iff)
    next
      case False
      have "map_of (swap_remove e es) k = Some v \<longleftrightarrow> map_of es k = Some v" for v
      proof -
        have "(k, v) \<noteq> es ! e" using False by (cases "es ! e") simp
        then show ?thesis
          by (simp only: map_of_eq_Some_iff [OF d] map_of_eq_Some_iff [OF assms(1)] s) simp
      qed
      then have "map_of (swap_remove e es) k = map_of es k"
        by (rule option_eqI)
      with False show ?thesis by simp
    qed
  qed
qed

section \<open>A vector-backed graph\<close>

text \<open>
  Node weights in a vector, edges in a vector of (source, target) pairs with their weight. Both
  are shrunk with \<open>swap_remove\<close>, as the library documents for its indices.
\<close>

type_synonym ('n, 'w) vgraph = "'n list \<times> ((nat \<times> nat) \<times> 'w) list"

definition vg_edge :: "('n, 'w) vgraph \<Rightarrow> nat \<Rightarrow> nat \<Rightarrow> 'w option" where
  "vg_edge g a b = map_of (snd g) (a, b)"

definition vg_inv :: "('n, 'w) vgraph \<Rightarrow> bool" where
  "vg_inv g \<longleftrightarrow> distinct (map fst (snd g)) \<and>
     (\<forall>((a, b), w) \<in> set (snd g). a < length (fst g) \<and> b < length (fst g))"

definition vg_reindex :: "nat \<Rightarrow> nat \<Rightarrow> nat \<Rightarrow> nat" where
  "vg_reindex gone tail j = (if j = tail then gone else j)"

definition vg_remove_node :: "('n, 'w) vgraph \<Rightarrow> nat \<Rightarrow> ('n, 'w) vgraph" where
  "vg_remove_node g i =
     (let f = vg_reindex i (length (fst g) - 1) in
      (swap_remove i (fst g),
       map (\<lambda>((a, b), w). ((f a, f b), w)) (filter (\<lambda>((a, b), w). a \<noteq> i \<and> b \<noteq> i) (snd g))))"

definition vg_find_edge :: "('n, 'w) vgraph \<Rightarrow> nat \<Rightarrow> nat \<Rightarrow> nat option" where
  "vg_find_edge g a b = List.find (\<lambda>e. fst (snd g ! e) = (a, b)) [0..<length (snd g)]"

definition vgraph_ops :: "(('n, 'w) vgraph, 'n, 'w) digraph_ops" where
  "vgraph_ops =
     \<lparr>dg_new = ([], []),
      dg_add_node = (\<lambda>g n. ((fst g @ [n], snd g), length (fst g))),
      dg_remove_node = vg_remove_node,
      dg_node_indices = (\<lambda>g. [0..<length (fst g)]),
      dg_index = (\<lambda>g i. if i < length (fst g) then Ret (fst g ! i) else Panic),
      dg_update_edge = (\<lambda>g a b w. if a < length (fst g) \<and> b < length (fst g)
                                   then Ret (fst g, AList.update (a, b) w (snd g)) else Panic),
      dg_find_edge = vg_find_edge,
      dg_remove_edge = (\<lambda>g e. (fst g, swap_remove e (snd g))),
      dg_edges = (\<lambda>g a. map (\<lambda>((_, b), w). (b, w)) (filter (\<lambda>((c, _), _). c = a) (rev (snd g)))),
      dg_edge_references = (\<lambda>g. map (\<lambda>((a, b), w). (a, b, w)) (snd g))\<rparr>"

lemma vgraph_ops_sel [simp]:
  "dg_new vgraph_ops = ([], [])"
  "dg_add_node vgraph_ops g n = ((fst g @ [n], snd g), length (fst g))"
  "dg_remove_node vgraph_ops = vg_remove_node"
  "dg_node_indices vgraph_ops g = [0..<length (fst g)]"
  "dg_index vgraph_ops g i = (if i < length (fst g) then Ret (fst g ! i) else Panic)"
  "dg_update_edge vgraph_ops g a b w =
     (if a < length (fst g) \<and> b < length (fst g)
      then Ret (fst g, AList.update (a, b) w (snd g)) else Panic)"
  "dg_find_edge vgraph_ops = vg_find_edge"
  "dg_remove_edge vgraph_ops g e = (fst g, swap_remove e (snd g))"
  "dg_edges vgraph_ops g a =
     map (\<lambda>((_, b), w). (b, w)) (filter (\<lambda>((c, _), _). c = a) (rev (snd g)))"
  "dg_edge_references vgraph_ops g = map (\<lambda>((a, b), w). (a, b, w)) (snd g)"
  by (simp_all add: vgraph_ops_def)

lemma vg_edge_iff: "vg_inv g \<Longrightarrow> vg_edge g a b = Some w \<longleftrightarrow> ((a, b), w) \<in> set (snd g)"
  by (simp add: vg_inv_def vg_edge_def map_of_eq_Some_iff)

lemma vg_inv_range:
  "vg_inv g \<Longrightarrow> ((a, b), w) \<in> set (snd g) \<Longrightarrow> a < length (fst g) \<and> b < length (fst g)"
  by (auto simp: vg_inv_def)

lemma vg_inv_update:
  assumes "vg_inv g" and "a < length (fst g)" and "b < length (fst g)"
  shows "vg_inv (fst g, AList.update (a, b) w (snd g))"
proof -
  have "a' < length (fst g) \<and> b' < length (fst g)"
    if "((a', b'), w') \<in> set (AList.update (a, b) w (snd g))" for a' b' w'
  proof -
    have "(a', b') \<in> fst ` set (AList.update (a, b) w (snd g))"
      using that by (rule rev_image_eqI) simp
    then consider "(a', b') = (a, b)" | w'' where "((a', b'), w'') \<in> set (snd g)"
      by (auto simp: dom_update)
    then show ?thesis
      using assms vg_inv_range [OF assms(1)] by cases auto
  qed
  with assms(1) show ?thesis by (auto simp: vg_inv_def distinct_update)
qed

lemma vg_find_edge_Some:
  assumes "vg_find_edge g a b = Some e"
  shows "e < length (snd g)" and "fst (snd g ! e) = (a, b)"
  using assms by (auto simp: vg_find_edge_def find_Some_iff)

lemma vg_find_edge_None: "vg_find_edge g a b = None \<longleftrightarrow> (a, b) \<notin> fst ` set (snd g)"
  unfolding vg_find_edge_def find_None_iff
  by (auto simp: in_set_conv_nth simp flip: set_map)

lemma vg_inv_remove_edge:
  assumes "vg_inv g" and "e < length (snd g)"
  shows "vg_inv (fst g, swap_remove e (snd g))"
proof -
  have "set (swap_remove e (snd g)) \<subseteq> set (snd g)"
    using assms by (auto simp: set_swap_remove vg_inv_def distinct_map)
  with assms show ?thesis
    by (auto simp: vg_inv_def map_swap_remove distinct_swap_remove)
qed

lemma vg_reindex_bij:
  assumes "i < n"
  shows "j < n \<Longrightarrow> j \<noteq> i \<Longrightarrow> vg_reindex i (n - 1) j < n - 1"
    and "j < n \<Longrightarrow> j \<noteq> i \<Longrightarrow> old_index i (n - 1) (vg_reindex i (n - 1) j) = j"
    and "a < n - 1 \<Longrightarrow> vg_reindex i (n - 1) (old_index i (n - 1) a) = a"
    and "a < n - 1 \<Longrightarrow> old_index i (n - 1) a \<noteq> i"
  using assms by (auto simp: vg_reindex_def old_index_def)

lemma vg_remove_node_iff:
  assumes inv: "vg_inv g" and n: "n = length (fst g)" and i: "i < n"
  shows "((a, b), w) \<in> set (snd (vg_remove_node g i)) \<longleftrightarrow>
     a < n - 1 \<and> b < n - 1 \<and> ((old_index i (n - 1) a, old_index i (n - 1) b), w) \<in> set (snd g)"
    (is "?L \<longleftrightarrow> ?R")
proof
  assume ?L
  then obtain a' b' where "((a', b'), w) \<in> set (snd g)" "a' \<noteq> i" "b' \<noteq> i"
    "a = vg_reindex i (n - 1) a'" "b = vg_reindex i (n - 1) b'"
    by (auto simp: vg_remove_node_def Let_def n)
  moreover from this vg_inv_range [OF inv] have "a' < n" "b' < n" by (auto simp: n)
  ultimately show ?R
    using vg_reindex_bij(1,2) [OF i, of a'] vg_reindex_bij(1,2) [OF i, of b'] by metis
next
  assume R: ?R
  then have e: "((old_index i (n - 1) a, old_index i (n - 1) b), w)
      \<in> set (filter (\<lambda>((a, b), w). a \<noteq> i \<and> b \<noteq> i) (snd g))"
    using vg_reindex_bij(4) [OF i, of a] vg_reindex_bij(4) [OF i, of b] by simp
  have "snd (vg_remove_node g i) = map (\<lambda>((a, b), w).
      ((vg_reindex i (n - 1) a, vg_reindex i (n - 1) b), w))
      (filter (\<lambda>((a, b), w). a \<noteq> i \<and> b \<noteq> i) (snd g))"
    by (simp add: vg_remove_node_def Let_def n)
  with imageI [OF e, of "\<lambda>((a, b), w). ((vg_reindex i (n - 1) a, vg_reindex i (n - 1) b), w)"] R
  show ?L
    using vg_reindex_bij(3) [OF i, of a] vg_reindex_bij(3) [OF i, of b] by simp
qed

lemma vg_remove_node_inv:
  assumes inv: "vg_inv g" and i: "i < length (fst g)"
  shows "vg_inv (vg_remove_node g i)"
proof -
  define n where "n = length (fst g)"
  have len: "length (fst (vg_remove_node g i)) = n - 1"
    by (simp add: vg_remove_node_def Let_def n_def)
  have "distinct (map fst (snd (vg_remove_node g i)))"
  proof -
    let ?f = "\<lambda>(a, b). (vg_reindex i (n - 1) a, vg_reindex i (n - 1) b)"
    let ?es = "filter (\<lambda>((a, b), w). a \<noteq> i \<and> b \<noteq> i) (snd g)"
    have "inj_on ?f (({..<n} - {i}) \<times> ({..<n} - {i}))"
      by (intro inj_onI) (auto simp: vg_reindex_def split: if_splits)
    moreover have "set (map fst ?es) \<subseteq> ({..<n} - {i}) \<times> ({..<n} - {i})"
      using vg_inv_range [OF inv] by (auto simp: n_def)
    ultimately have "inj_on ?f (set (map fst ?es))"
      by (rule inj_on_subset)
    moreover have "distinct (map fst ?es)"
      using inv by (simp add: vg_inv_def distinct_map_filter)
    ultimately have "distinct (map ?f (map fst ?es))"
      by (simp only: distinct_map)
    moreover have "map ?f (map fst ?es) = map fst (snd (vg_remove_node g i))"
      by (auto simp: vg_remove_node_def Let_def n_def)
    ultimately show ?thesis by simp
  qed
  then show ?thesis
    unfolding vg_inv_def using vg_remove_node_iff [OF inv n_def] i len by (auto simp: n_def)
qed

lemma vg_remove_node_edge:
  assumes inv: "vg_inv g" and i: "i < length (fst g)"
    and "a < length (fst g) - 1" and "b < length (fst g) - 1"
  shows "vg_edge (vg_remove_node g i) a b =
      vg_edge g (old_index i (length (fst g) - 1) a) (old_index i (length (fst g) - 1) b)"
proof (rule option_eqI)
  show "vg_edge (vg_remove_node g i) a b = Some w \<longleftrightarrow>
      vg_edge g (old_index i (length (fst g) - 1) a) (old_index i (length (fst g) - 1) b) = Some w" for w
    unfolding vg_edge_iff [OF inv] vg_edge_iff [OF vg_remove_node_inv [OF inv i]]
      vg_remove_node_iff [OF inv refl i] using assms by simp
qed

lemma vg_update_edge:
  assumes "vg_inv g" and "a < length (fst g)" and "b < length (fst g)"
  shows "\<exists>g'. dg_update_edge vgraph_ops g a b w = Ret g' \<and> vg_inv g' \<and> fst g' = fst g \<and>
           vg_edge g' = (vg_edge g)(a := (vg_edge g a)(b \<mapsto> w))"
  using vg_inv_update [OF assms] assms by (auto simp: vg_edge_def update_conv' fun_eq_iff)

lemma vg_remove_edge:
  assumes inv: "vg_inv g" and e: "vg_find_edge g a b = Some e"
  shows "vg_inv (fst g, swap_remove e (snd g))"
    and "vg_edge (fst g, swap_remove e (snd g)) = (vg_edge g)(a := (vg_edge g a)(b := None))"
proof -
  note e = vg_find_edge_Some [OF e]
  show "vg_inv (fst g, swap_remove e (snd g))"
    using inv e by (simp add: vg_inv_remove_edge)
  have "map_of (swap_remove e (snd g)) = (map_of (snd g))((a, b) := None)"
    using inv e map_of_swap_remove [of "snd g" e] by (simp add: vg_inv_def)
  then show "vg_edge (fst g, swap_remove e (snd g)) = (vg_edge g)(a := (vg_edge g a)(b := None))"
    by (auto simp: vg_edge_def fun_eq_iff)
qed

lemma vg_edges: "vg_inv g \<Longrightarrow> set (dg_edges vgraph_ops g a) = {(b, w). vg_edge g a b = Some w}"
  by (auto simp: vg_edge_iff intro: rev_image_eqI)

lemma vg_edge_references:
  assumes "vg_inv g"
  shows "set (dg_edge_references vgraph_ops g) = {(a, b, w). vg_edge g a b = Some w}"
    and "distinct (dg_edge_references vgraph_ops g)"
proof -
  show "set (dg_edge_references vgraph_ops g) = {(a, b, w). vg_edge g a b = Some w}"
    using assms by (auto simp: vg_edge_iff intro: rev_image_eqI)
  have "distinct (snd g)" using assms by (simp add: vg_inv_def distinct_map)
  then show "distinct (dg_edge_references vgraph_ops g)"
    by (auto simp: distinct_map inj_on_def)
qed

interpretation vg: digraph vgraph_ops fst vg_edge vg_inv
proof unfold_locales
  fix g g' :: "('n, 'w) vgraph" and a b e i n w
  assume inv: "vg_inv g"
  show "vg_edge g a b = Some w \<Longrightarrow> a < length (fst g) \<and> b < length (fst g)"
    using vg_inv_range [OF inv] by (simp add: vg_edge_iff [OF inv])
  show "vg_inv g' \<and> i = length (fst g) \<and> fst g' = fst g @ [n] \<and> vg_edge g' = vg_edge g"
    if "dg_add_node vgraph_ops g n = (g', i)"
    using that inv by (fastforce simp: vg_inv_def vg_edge_def fun_eq_iff)
  show "dg_find_edge vgraph_ops g a b = None \<longleftrightarrow> vg_edge g a b = None"
    by (simp add: vg_find_edge_None vg_edge_def map_of_eq_None_iff)
  show "vg_inv (dg_remove_node vgraph_ops g i) \<and>
      fst (dg_remove_node vgraph_ops g i) = swap_remove i (fst g) \<and>
      (\<forall>a b. a < length (fst g) - 1 \<longrightarrow> b < length (fst g) - 1 \<longrightarrow>
         vg_edge (dg_remove_node vgraph_ops g i) a b =
           vg_edge g (old_index i (length (fst g) - 1) a) (old_index i (length (fst g) - 1) b))"
    if "i < length (fst g)"
    using inv that
    by (simp add: vg_remove_node_inv vg_remove_node_edge) (simp add: vg_remove_node_def Let_def)
  show "a < length (fst g) \<Longrightarrow> b < length (fst g) \<Longrightarrow>
      \<exists>g'. dg_update_edge vgraph_ops g a b w = Ret g' \<and> vg_inv g' \<and> fst g' = fst g \<and>
           vg_edge g' = (vg_edge g)(a := (vg_edge g a)(b \<mapsto> w))"
    by (rule vg_update_edge [OF inv])
  show "vg_inv (dg_remove_edge vgraph_ops g e) \<and> fst (dg_remove_edge vgraph_ops g e) = fst g \<and>
      vg_edge (dg_remove_edge vgraph_ops g e) = (vg_edge g)(a := (vg_edge g a)(b := None))"
    if "dg_find_edge vgraph_ops g a b = Some e"
    using that vg_remove_edge [OF inv] by simp
  show "set (dg_edges vgraph_ops g a) = {(b, w). vg_edge g a b = Some w}"
    by (rule vg_edges [OF inv])
  show "set (dg_edge_references vgraph_ops g) = {(a, b, w). vg_edge g a b = Some w} \<and>
      distinct (dg_edge_references vgraph_ops g)"
    using vg_edge_references [OF inv] by blast
qed (simp_all add: vg_inv_def)

end
