(* ===== verification/Global_Graph.thy ===== *)
theory Global_Graph
  imports Flow_Proto Digraph
begin

text \<open>
  The view every node keeps of the mesh (\<^verbatim>\<open>GlobalGraph\<close> of \<^verbatim>\<open>stric-flow/src/routing.rs\<close>): a
  directed graph, the index of every node name in it, and the descriptors. The topology it
  stands for is an abstract value over names; every update is shown to refine an update of that
  value, so the renumbering of indices in \<^verbatim>\<open>remove_node\<close> cannot be observed.
\<close>

section \<open>State and operations\<close>

record LinkWeight =
  lw_hop_cost :: u32
  lw_rtt_micros :: u64

type_synonym 'g graph_ops = "('g, string, LinkWeight) digraph_ops"

record 'g GlobalGraph =
  gg_graph :: 'g
  gg_node_indices :: "string \<rightharpoonup> nat"
  gg_node_metadata :: "(string, NodeDescriptor) hmap"

definition gg_new :: "'g graph_ops \<Rightarrow> 'g GlobalGraph" where
  "gg_new ops = \<lparr>gg_graph = dg_new ops, gg_node_indices = Map.empty, gg_node_metadata = []\<rparr>"

definition add_node :: "'g graph_ops \<Rightarrow> 'g GlobalGraph \<Rightarrow> NodeDescriptor \<Rightarrow> 'g GlobalGraph" where
  "add_node ops gg descriptor =
     (let node_id = nd_node_id descriptor;
          gg1 = (case gg_node_indices gg node_id of
                   Some _ \<Rightarrow> gg
                 | None \<Rightarrow> (let (g', idx) = dg_add_node ops (gg_graph gg) node_id in
                            gg\<lparr>gg_graph := g', gg_node_indices := (gg_node_indices gg)(node_id \<mapsto> idx)\<rparr>))
      in gg1\<lparr>gg_node_metadata := hm_insert node_id descriptor (gg_node_metadata gg1)\<rparr>)"

text \<open>The loop that rebuilds \<^verbatim>\<open>node_indices\<close> from the graph.\<close>

fun reindex :: "'g graph_ops \<Rightarrow> 'g \<Rightarrow> nat list \<Rightarrow> (string \<rightharpoonup> nat) \<Rightarrow> (string \<rightharpoonup> nat) exec" where
  "reindex ops g [] m = Ret m"
| "reindex ops g (i # is) m = exec_bind (dg_index ops g i) (\<lambda>name. reindex ops g is (m(name \<mapsto> i)))"

definition remove_node :: "'g graph_ops \<Rightarrow> 'g GlobalGraph \<Rightarrow> string \<Rightarrow> 'g GlobalGraph exec" where
  "remove_node ops gg node_id =
     (case gg_node_indices gg node_id of
        None \<Rightarrow> Ret gg
      | Some idx \<Rightarrow>
          (let g' = dg_remove_node ops (gg_graph gg) idx in
           exec_bind (reindex ops g' (dg_node_indices ops g') Map.empty)
             (\<lambda>m. Ret \<lparr>gg_graph = g', gg_node_indices = m,
                       gg_node_metadata = hm_remove node_id (gg_node_metadata gg)\<rparr>)))"

text \<open>\<^verbatim>\<open>entry(name).or_insert_with(|| graph.add_node(name))\<close>.\<close>

definition entry_or_add :: "'g graph_ops \<Rightarrow> 'g GlobalGraph \<Rightarrow> string \<Rightarrow> 'g GlobalGraph \<times> nat" where
  "entry_or_add ops gg name =
     (case gg_node_indices gg name of
        Some idx \<Rightarrow> (gg, idx)
      | None \<Rightarrow> (let (g', idx) = dg_add_node ops (gg_graph gg) name in
                 (gg\<lparr>gg_graph := g', gg_node_indices := (gg_node_indices gg)(name \<mapsto> idx)\<rparr>, idx)))"

definition add_link :: "'g graph_ops \<Rightarrow> 'g GlobalGraph \<Rightarrow> LinkDescriptor \<Rightarrow> 'g GlobalGraph exec" where
  "add_link ops gg link =
     (let (gg1, idx_a) = entry_or_add ops gg (ld_node_a link);
          (gg2, idx_b) = entry_or_add ops gg1 (ld_node_b link);
          weight = \<lparr>lw_hop_cost = ld_hop_cost link, lw_rtt_micros = ld_rtt_micros link\<rparr>
      in exec_bind (dg_update_edge ops (gg_graph gg2) idx_a idx_b weight)
           (\<lambda>g1. exec_bind (dg_update_edge ops g1 idx_b idx_a weight)
                   (\<lambda>g2. Ret (gg2\<lparr>gg_graph := g2\<rparr>))))"

definition drop_edge :: "'g graph_ops \<Rightarrow> 'g \<Rightarrow> nat \<Rightarrow> nat \<Rightarrow> 'g" where
  "drop_edge ops g a b = (case dg_find_edge ops g a b of Some e \<Rightarrow> dg_remove_edge ops g e | None \<Rightarrow> g)"

definition remove_link :: "'g graph_ops \<Rightarrow> 'g GlobalGraph \<Rightarrow> string \<Rightarrow> string \<Rightarrow> 'g GlobalGraph" where
  "remove_link ops gg node_a node_b =
     (case (gg_node_indices gg node_a, gg_node_indices gg node_b) of
        (Some idx_a, Some idx_b) \<Rightarrow>
          gg\<lparr>gg_graph := drop_edge ops (drop_edge ops (gg_graph gg) idx_a idx_b) idx_b idx_a\<rparr>
      | _ \<Rightarrow> gg)"

text \<open>A \<^verbatim>\<open>for\<close> loop whose body may panic.\<close>

fun exec_fold :: "('a \<Rightarrow> 's \<Rightarrow> 's exec) \<Rightarrow> 'a list \<Rightarrow> 's \<Rightarrow> 's exec" where
  "exec_fold f [] s = Ret s"
| "exec_fold f (x # xs) s = exec_bind (f x s) (exec_fold f xs)"

definition apply_update :: "'g graph_ops \<Rightarrow> 'g GlobalGraph \<Rightarrow> TopologyUpdate \<Rightarrow> 'g GlobalGraph exec" where
  "apply_update ops gg update =
     exec_bind (exec_fold (\<lambda>n gg. Ret (add_node ops gg n)) (tu_nodes_added update) gg) (\<lambda>gg.
     exec_bind (exec_fold (\<lambda>n gg. remove_node ops gg n) (tu_nodes_removed update) gg) (\<lambda>gg.
     exec_bind (exec_fold (\<lambda>l gg. add_link ops gg l) (tu_links_added update) gg) (\<lambda>gg.
     exec_fold (\<lambda>r gg. Ret (remove_link ops gg (lr_node_a r) (lr_node_b r))) (tu_links_removed update) gg)))"

text \<open>The links pushed by \<^verbatim>\<open>get_descriptors\<close>: one per directed edge.\<close>

fun link_descriptors :: "'g graph_ops \<Rightarrow> 'g \<Rightarrow> (nat \<times> nat \<times> LinkWeight) list \<Rightarrow> LinkDescriptor list exec" where
  "link_descriptors ops g [] = Ret []"
| "link_descriptors ops g ((a, b, w) # es) =
     exec_bind (dg_index ops g a) (\<lambda>u.
     exec_bind (dg_index ops g b) (\<lambda>v.
     exec_bind (link_descriptors ops g es) (\<lambda>ls.
       Ret (\<lparr>ld_node_a = u, ld_node_b = v, ld_hop_cost = lw_hop_cost w,
             ld_rtt_micros = lw_rtt_micros w\<rparr> # ls))))"

definition get_descriptors ::
  "'g graph_ops \<Rightarrow> 'g GlobalGraph \<Rightarrow> (NodeDescriptor list \<times> LinkDescriptor list) exec" where
  "get_descriptors ops gg =
     exec_bind (link_descriptors ops (gg_graph gg) (dg_edge_references ops (gg_graph gg)))
       (\<lambda>links. Ret (map snd (gg_node_metadata gg), links))"

section \<open>The topology a graph stands for\<close>

record topology =
  t_nodes :: "string set"
  t_link :: "string \<Rightarrow> string \<Rightarrow> LinkWeight option"
  t_meta :: "string \<rightharpoonup> NodeDescriptor"

definition topo_empty :: topology where
  "topo_empty = \<lparr>t_nodes = {}, t_link = (\<lambda>_ _. None), t_meta = Map.empty\<rparr>"

definition topo_add_node :: "NodeDescriptor \<Rightarrow> topology \<Rightarrow> topology" where
  "topo_add_node d t =
     t\<lparr>t_nodes := insert (nd_node_id d) (t_nodes t), t_meta := (t_meta t)(nd_node_id d \<mapsto> d)\<rparr>"

definition topo_remove_node :: "string \<Rightarrow> topology \<Rightarrow> topology" where
  "topo_remove_node n t =
     (if n \<in> t_nodes t
      then \<lparr>t_nodes = t_nodes t - {n},
            t_link = (\<lambda>u v. if u = n \<or> v = n then None else t_link t u v),
            t_meta = (t_meta t)(n := None)\<rparr>
      else t)"

definition topo_add_link :: "LinkDescriptor \<Rightarrow> topology \<Rightarrow> topology" where
  "topo_add_link l t =
     (let a = ld_node_a l; b = ld_node_b l;
          w = \<lparr>lw_hop_cost = ld_hop_cost l, lw_rtt_micros = ld_rtt_micros l\<rparr> in
      t\<lparr>t_nodes := insert a (insert b (t_nodes t)),
        t_link := (\<lambda>u v. if (u, v) = (a, b) \<or> (u, v) = (b, a) then Some w else t_link t u v)\<rparr>)"

definition topo_remove_link :: "string \<Rightarrow> string \<Rightarrow> topology \<Rightarrow> topology" where
  "topo_remove_link a b t =
     t\<lparr>t_link := (\<lambda>u v. if (u, v) = (a, b) \<or> (u, v) = (b, a) then None else t_link t u v)\<rparr>"

definition topo_apply_update :: "TopologyUpdate \<Rightarrow> topology \<Rightarrow> topology" where
  "topo_apply_update upd t =
     fold (\<lambda>r. topo_remove_link (lr_node_a r) (lr_node_b r)) (tu_links_removed upd)
       (fold topo_add_link (tu_links_added upd)
         (fold topo_remove_node (tu_nodes_removed upd)
           (fold topo_add_node (tu_nodes_added upd) t)))"

definition topology_of :: "('g \<Rightarrow> nat \<Rightarrow> nat \<Rightarrow> LinkWeight option) \<Rightarrow> 'g GlobalGraph \<Rightarrow> topology" where
  "topology_of edge gg =
     \<lparr>t_nodes = dom (gg_node_indices gg),
      t_link = (\<lambda>u v. case (gg_node_indices gg u, gg_node_indices gg v) of
                        (Some i, Some j) \<Rightarrow> edge (gg_graph gg) i j
                      | _ \<Rightarrow> None),
      t_meta = hm_get (gg_node_metadata gg)\<rparr>"

text \<open>
  The well-formedness of a \<open>GlobalGraph\<close>: the index map and the graph's node weights are
  inverse to each other, descriptors are filed under the name of a node of the graph, links are
  symmetric.
\<close>

definition gg_wf ::
  "('g \<Rightarrow> string list) \<Rightarrow> ('g \<Rightarrow> nat \<Rightarrow> nat \<Rightarrow> LinkWeight option) \<Rightarrow> ('g \<Rightarrow> bool) \<Rightarrow> 'g GlobalGraph \<Rightarrow> bool"
where
  "gg_wf wts edge ginv gg \<longleftrightarrow>
     ginv (gg_graph gg) \<and>
     (\<forall>n i. gg_node_indices gg n = Some i \<longleftrightarrow> i < length (wts (gg_graph gg)) \<and> wts (gg_graph gg) ! i = n) \<and>
     hm_wf (gg_node_metadata gg) \<and>
     dom (hm_get (gg_node_metadata gg)) \<subseteq> dom (gg_node_indices gg) \<and>
     (\<forall>n d. hm_get (gg_node_metadata gg) n = Some d \<longrightarrow> nd_node_id d = n) \<and>
     (\<forall>i j. edge (gg_graph gg) i j = edge (gg_graph gg) j i)"

section \<open>Generic facts\<close>

lemma exec_fold_refines:
  assumes step: "\<And>x s. x \<in> set xs \<Longrightarrow> I s \<Longrightarrow> \<exists>s'. f x s = Ret s' \<and> I s' \<and> absf s' = g x (absf s)"
    and "I s"
  shows "\<exists>s'. exec_fold f xs s = Ret s' \<and> I s' \<and> absf s' = fold g xs (absf s)"
  using assms
proof (induction xs arbitrary: s)
  case (Cons x xs)
  obtain s1 where s1: "f x s = Ret s1" "I s1" "absf s1 = g x (absf s)"
    using Cons.prems(1) [of x s] Cons.prems(2) by auto
  have "\<exists>s'. exec_fold f xs s1 = Ret s' \<and> I s' \<and> absf s' = fold g xs (absf s1)"
    by (rule Cons.IH) (use Cons.prems(1) s1(2) in auto)
  with s1 show ?case by simp
qed simp

lemma fold_index:
  assumes "distinct xs" and "k \<le> length xs"
  shows "fold (\<lambda>i m. m(xs ! i \<mapsto> i)) [0..<k] Map.empty n = Some i \<longleftrightarrow> i < k \<and> xs ! i = n"
  using assms(2)
proof (induction k)
  case (Suc k)
  have "i < k \<Longrightarrow> xs ! i \<noteq> xs ! k"
    using assms(1) Suc.prems by (simp add: nth_eq_iff_index_eq)
  with Suc show ?case by (auto simp: less_Suc_eq)
qed simp

section \<open>Folding a snapshot into a topology\<close>

definition link_of :: "string \<Rightarrow> string \<Rightarrow> LinkWeight \<Rightarrow> LinkDescriptor" where
  "link_of u v w = \<lparr>ld_node_a = u, ld_node_b = v, ld_hop_cost = lw_hop_cost w, ld_rtt_micros = lw_rtt_micros w\<rparr>"

lemma link_of_simps [simp]:
  "ld_node_a (link_of u v w) = u" "ld_node_b (link_of u v w) = v"
  "ld_hop_cost (link_of u v w) = lw_hop_cost w" "ld_rtt_micros (link_of u v w) = lw_rtt_micros w"
  by (simp_all add: link_of_def)

lemma inj_link_of: "link_of u v w = link_of u' v' w' \<longleftrightarrow> u = u' \<and> v = v' \<and> w = w'"
  by (cases w; cases w') (auto simp: link_of_def)

lemma fold_topo_add_node:
  assumes "\<forall>d \<in> set ns. M (nd_node_id d) = Some d"
  shows "fold topo_add_node ns t =
    t\<lparr>t_nodes := t_nodes t \<union> nd_node_id ` set ns,
      t_meta := (\<lambda>n. if n \<in> nd_node_id ` set ns then M n else t_meta t n)\<rparr>"
  using assms
  by (induction ns arbitrary: t)
    (auto simp: topo_add_node_def fun_eq_iff intro!: topology.equality)

definition joins :: "LinkDescriptor list \<Rightarrow> string \<Rightarrow> string \<Rightarrow> bool" where
  "joins ls u v \<longleftrightarrow>
     (\<exists>l \<in> set ls. (u, v) = (ld_node_a l, ld_node_b l) \<or> (u, v) = (ld_node_b l, ld_node_a l))"

lemma joins_simps [simp]:
  "joins [] u v \<longleftrightarrow> False"
  "joins (l # ls) u v \<longleftrightarrow>
     (u, v) = (ld_node_a l, ld_node_b l) \<or> (u, v) = (ld_node_b l, ld_node_a l) \<or> joins ls u v"
  by (auto simp: joins_def)

lemma fold_topo_add_link:
  assumes sym: "\<And>u v. L u v = L v u"
    and "\<forall>l \<in> set ls. \<exists>u v w. l = link_of u v w \<and> L u v = Some w"
  shows "t_nodes (fold topo_add_link ls t) = t_nodes t \<union> {u. \<exists>v. joins ls u v}"
    and "t_meta (fold topo_add_link ls t) = t_meta t"
    and "t_link (fold topo_add_link ls t) u v = (if joins ls u v then L u v else t_link t u v)"
proof -
  show "t_nodes (fold topo_add_link ls t) = t_nodes t \<union> {u. \<exists>v. joins ls u v}"
    by (induction ls arbitrary: t) (auto simp: topo_add_link_def Let_def)
  show "t_meta (fold topo_add_link ls t) = t_meta t"
    by (induction ls arbitrary: t) (auto simp: topo_add_link_def Let_def)
  show "t_link (fold topo_add_link ls t) u v = (if joins ls u v then L u v else t_link t u v)"
    using assms(2)
  proof (induction ls arbitrary: t)
    case (Cons l ls)
    obtain a b w where l: "l = link_of a b w" "L a b = Some w" using Cons.prems by auto
    then have l': "L b a = Some w" using sym by simp
    define c where "c \<longleftrightarrow> (u, v) = (a, b) \<or> (u, v) = (b, a)"
    have new: "t_link (topo_add_link l t) u v = (if c then Some w else t_link t u v)"
      by (cases w) (simp add: l(1) topo_add_link_def c_def)
    have IH: "t_link (fold topo_add_link ls (topo_add_link l t)) u v =
      (if joins ls u v then L u v else t_link (topo_add_link l t) u v)"
      by (rule Cons.IH) (use Cons.prems in simp)
    have joins: "joins (l # ls) u v \<longleftrightarrow> c \<or> joins ls u v"
      by (simp add: l(1) c_def)
    have "L u v = Some w" if c
      using that l(2) l' by (auto simp: c_def)
    then show ?case
      by (cases c) (simp_all add: IH new joins del: joins_simps)
  qed simp
qed

section \<open>Every operation refines its abstract counterpart\<close>

locale topology_graph = digraph ops wts edge inv
  for ops :: "('g, string, LinkWeight) digraph_ops"
    and wts :: "'g \<Rightarrow> string list"
    and edge :: "'g \<Rightarrow> nat \<Rightarrow> nat \<Rightarrow> LinkWeight option"
    and inv :: "'g \<Rightarrow> bool"
begin

abbreviation wf :: "'g GlobalGraph \<Rightarrow> bool" where
  "wf \<equiv> gg_wf wts edge inv"

abbreviation topo :: "'g GlobalGraph \<Rightarrow> topology" where
  "topo \<equiv> topology_of edge"

lemma wf_index:
  "wf gg \<Longrightarrow> gg_node_indices gg n = Some i \<longleftrightarrow>
     i < length (wts (gg_graph gg)) \<and> wts (gg_graph gg) ! i = n"
  by (simp add: gg_wf_def)

lemma wf_distinct:
  assumes "wf gg" shows "distinct (wts (gg_graph gg))"
proof -
  have "i = j" if "i < length (wts (gg_graph gg))" "j < length (wts (gg_graph gg))"
    "wts (gg_graph gg) ! i = wts (gg_graph gg) ! j" for i j
    using that wf_index [OF assms, of "wts (gg_graph gg) ! i" i]
      wf_index [OF assms, of "wts (gg_graph gg) ! i" j] by simp
  then show ?thesis by (auto simp: distinct_conv_nth)
qed

lemma wf_dom: "wf gg \<Longrightarrow> dom (gg_node_indices gg) = set (wts (gg_graph gg))"
  by (auto simp: in_set_conv_nth dom_def wf_index)

lemma topo_sym:
  assumes "wf gg" shows "t_link (topo gg) u v = t_link (topo gg) v u"
proof -
  have "edge (gg_graph gg) i j = edge (gg_graph gg) j i" for i j
    using assms by (simp add: gg_wf_def)
  then show ?thesis
    by (cases "gg_node_indices gg u"; cases "gg_node_indices gg v") (simp_all add: topology_of_def)
qed

lemma wf_new: "wf (gg_new ops)"
  by (simp add: gg_wf_def gg_new_def inv_new wts_new edge_new dom_def)

lemma topo_new: "topo (gg_new ops) = topo_empty"
  by (intro topology.equality ext) (simp_all add: topology_of_def gg_new_def topo_empty_def)

lemma entry_or_add_correct:
  assumes "wf gg"
  obtains gg' i where "entry_or_add ops gg n = (gg', i)" "wf gg'"
    "gg_node_indices gg' n = Some i"
    "gg_node_indices gg \<subseteq>\<^sub>m gg_node_indices gg'"
    "gg_node_metadata gg' = gg_node_metadata gg"
    "topo gg' = (topo gg)\<lparr>t_nodes := insert n (t_nodes (topo gg))\<rparr>"
proof (cases "gg_node_indices gg n")
  case (Some i)
  show thesis
    by (rule that [of gg i])
      (use assms Some in \<open>auto simp: entry_or_add_def topology_of_def\<close>)
next
  case None
  obtain g' where g': "dg_add_node ops (gg_graph gg) n = (g', length (wts (gg_graph gg)))" "inv g'"
    "wts g' = wts (gg_graph gg) @ [n]" "edge g' = edge (gg_graph gg)"
    using add_node_obtain assms by (auto simp: gg_wf_def)
  define k where "k = length (wts (gg_graph gg))"
  define gg' where "gg' = gg\<lparr>gg_graph := g', gg_node_indices := (gg_node_indices gg)(n \<mapsto> k)\<rparr>"
  have out: "edge (gg_graph gg) k j = None" "edge (gg_graph gg) j k = None" for j
    using edge_range [of "gg_graph gg" k j] edge_range [of "gg_graph gg" j k] assms
    by (cases "edge (gg_graph gg) k j"; cases "edge (gg_graph gg) j k"; auto simp: gg_wf_def k_def)+
  have fresh: "\<And>i. i < k \<Longrightarrow> wts (gg_graph gg) ! i \<noteq> n"
    using wf_index [OF assms, of n] None by (simp add: k_def)
  have "gg_node_indices gg' m = Some i \<longleftrightarrow> i < length (wts g') \<and> wts g' ! i = m" for m i
    using wf_index [OF assms, of m i] fresh None
    by (auto simp: gg'_def g'(3) nth_append k_def less_Suc_eq)
  then have "wf gg'"
    using assms g' by (auto simp: gg_wf_def gg'_def)
  moreover have "t_link (topo gg') u v = t_link (topo gg) u v" for u v
    using out None by (auto simp: topology_of_def gg'_def g'(4) split: option.splits)
  then have "topo gg' = (topo gg)\<lparr>t_nodes := insert n (t_nodes (topo gg))\<rparr>"
    by (intro topology.equality) (auto simp: fun_eq_iff, auto simp: topology_of_def gg'_def)
  moreover have "entry_or_add ops gg n = (gg', k)"
    using None g'(1) by (simp add: entry_or_add_def gg'_def k_def)
  ultimately show thesis
    by (intro that [of gg' k]) (use None in \<open>auto simp: gg'_def map_le_def\<close>)
qed

lemma add_node_entry:
  "add_node ops gg d =
     (let gg1 = fst (entry_or_add ops gg (nd_node_id d)) in
      gg1\<lparr>gg_node_metadata := hm_insert (nd_node_id d) d (gg_node_metadata gg1)\<rparr>)"
  by (simp add: add_node_def entry_or_add_def Let_def split: option.split prod.split)

lemma add_node_correct:
  assumes "wf gg"
  shows "wf (add_node ops gg d)" "topo (add_node ops gg d) = topo_add_node d (topo gg)"
proof -
  obtain gg' i where gg': "entry_or_add ops gg (nd_node_id d) = (gg', i)" "wf gg'"
    "gg_node_indices gg' (nd_node_id d) = Some i" "gg_node_metadata gg' = gg_node_metadata gg"
    "topo gg' = (topo gg)\<lparr>t_nodes := insert (nd_node_id d) (t_nodes (topo gg))\<rparr>"
    using entry_or_add_correct [OF assms] by metis
  show "wf (add_node ops gg d)"
    using gg'(1-3) by (auto simp: add_node_entry gg_wf_def)
  have "topo (add_node ops gg d) = (topo gg')\<lparr>t_meta := (t_meta (topo gg'))(nd_node_id d \<mapsto> d)\<rparr>"
    using gg'(1) by (simp add: add_node_entry topology_of_def fun_eq_iff cong: option.case_cong)
  then show "topo (add_node ops gg d) = topo_add_node d (topo gg)"
    by (simp add: gg'(5) topo_add_node_def)
qed

lemma reindex_fold:
  assumes "inv g" and "set is \<subseteq> {..<length (wts g)}"
  shows "reindex ops g is m = Ret (fold (\<lambda>i m. m(wts g ! i \<mapsto> i)) is m)"
  using assms(2) by (induction "is" arbitrary: m) (auto simp: index [OF assms(1)])

lemma remove_node_correct:
  assumes wf: "wf gg"
  obtains gg' where "remove_node ops gg n = Ret gg'" "wf gg'" "topo gg' = topo_remove_node n (topo gg)"
proof (cases "gg_node_indices gg n")
  case None
  then show thesis
    using that [of gg] wf
    by (simp add: remove_node_def topo_remove_node_def, simp add: topology_of_def domIff)
next
  case (Some k)
  define g ns g' where "g = gg_graph gg" and "ns = wts g" and "g' = dg_remove_node ops g k"
  define l where "l = length ns - 1"
  define gg' where "gg' = \<lparr>gg_graph = g',
     gg_node_indices = fold (\<lambda>i m. m(wts g' ! i \<mapsto> i)) [0..<length (wts g')] Map.empty,
     gg_node_metadata = hm_remove n (gg_node_metadata gg)\<rparr>"
  have g: "inv g" and k: "k < length ns" "ns ! k = n" and d: "distinct ns"
    using wf wf_index [OF wf, of n k] Some wf_distinct [OF wf] by (auto simp: gg_wf_def g_def ns_def)
  have g': "inv g'" "wts g' = swap_remove k ns"
    and edge': "\<And>a b. a < l \<Longrightarrow> b < l \<Longrightarrow> edge g' a b = edge g (old_index k l a) (old_index k l b)"
    using remove_node [OF g, of k] k by (auto simp: g'_def ns_def l_def)
  have len': "length (wts g') = l" by (simp add: g'(2) l_def)
  have idx': "gg_node_indices gg' m = Some i \<longleftrightarrow> i < l \<and> wts g' ! i = m" for m i
    using fold_index [of "wts g'" "length (wts g')" m i] d k len'
    by (simp add: gg'_def g'(2) distinct_swap_remove)
  have old: "gg_node_indices gg m = Some (old_index k l i)" if "gg_node_indices gg' m = Some i" for m i
    using that nth_swap_remove [OF k(1), of i] k wf_index [OF wf, of m "old_index k l i"]
    by (auto simp: idx' g'(2) old_index_def l_def g_def ns_def)
  have "dom (gg_node_indices gg') = set (swap_remove k ns)"
    by (auto simp: dom_def idx' in_set_conv_nth g'(2) l_def)
  then have dom': "dom (gg_node_indices gg') = dom (gg_node_indices gg) - {n}"
    using set_swap_remove [OF d k(1)] wf_dom [OF wf] k(2) by (simp add: g_def ns_def)
  have sym': "edge g' a b = edge g' b a" for a b
  proof (cases "a < l \<and> b < l")
    case True
    then show ?thesis using wf by (simp add: edge' gg_wf_def g_def)
  next
    case False
    then have "edge g' a b = None" "edge g' b a = None"
      using edge_range [OF g'(1), of a b] edge_range [OF g'(1), of b a] len'
      by (cases "edge g' a b"; cases "edge g' b a"; auto)+
    then show ?thesis by simp
  qed
  have meta': "gg_node_metadata gg' = hm_remove n (gg_node_metadata gg)" and graph': "gg_graph gg' = g'"
    by (simp_all add: gg'_def)
  have "dom (hm_get (gg_node_metadata gg')) \<subseteq> dom (gg_node_indices gg')"
    unfolding dom' meta' using wf by (auto simp: gg_wf_def split: if_splits)
  then have "wf gg'"
    using wf unfolding gg_wf_def idx' meta' graph' len' by (simp add: g'(1) sym')
  moreover have "t_link (topo gg') u v = t_link (topo_remove_node n (topo gg)) u v" for u v
  proof (cases "u \<in> dom (gg_node_indices gg') \<and> v \<in> dom (gg_node_indices gg')")
    case True
    then obtain i j where ij: "gg_node_indices gg' u = Some i" "gg_node_indices gg' v = Some j" by auto
    have "edge g' i j = edge g (old_index k l i) (old_index k l j)"
      using ij by (simp add: edge' idx')
    moreover have "u \<noteq> n" "v \<noteq> n" using True dom' by auto
    ultimately show ?thesis
      using ij old [OF ij(1)] old [OF ij(2)]
      by (simp add: topo_remove_node_def topology_of_def gg'_def g_def)
  next
    case False
    then have "u = n \<or> v = n \<or> gg_node_indices gg u = None \<or> gg_node_indices gg v = None"
      using dom' by auto
    with False Some show ?thesis
      by (auto simp: topo_remove_node_def topology_of_def domIff split: option.splits)
  qed
  then have "topo gg' = topo_remove_node n (topo gg)"
    using dom' Some
    by (intro topology.equality ext)
      (auto simp: topo_remove_node_def topology_of_def gg'_def)
  moreover have "remove_node ops gg n = Ret gg'"
    using Some g' by (simp add: remove_node_def gg'_def node_indices reindex_fold g'_def g_def Let_def lessThan_atLeast0)
  ultimately show thesis using that by blast
qed

lemma set_edges_correct:
  assumes wf: "wf gg" and a: "gg_node_indices gg a = Some i" and b: "gg_node_indices gg b = Some j"
    and g': "inv g'" "wts g' = wts (gg_graph gg)"
    and edge': "edge g' = (\<lambda>x y. if (x, y) = (i, j) \<or> (x, y) = (j, i) then r else edge (gg_graph gg) x y)"
  shows "wf (gg\<lparr>gg_graph := g'\<rparr>)"
    and "topo (gg\<lparr>gg_graph := g'\<rparr>) = (topo gg)\<lparr>t_link :=
           (\<lambda>u v. if (u, v) = (a, b) \<or> (u, v) = (b, a) then r else t_link (topo gg) u v)\<rparr>"
proof -
  show "wf (gg\<lparr>gg_graph := g'\<rparr>)"
    using wf g' by (auto simp: gg_wf_def edge')
  have inj: "u = a \<longleftrightarrow> x = i" "u = b \<longleftrightarrow> x = j" if "gg_node_indices gg u = Some x" for u x
    using that a b wf_index [OF wf] by (metis option.inject)+
  have "t_link (topo (gg\<lparr>gg_graph := g'\<rparr>)) u v =
      (if (u, v) = (a, b) \<or> (u, v) = (b, a) then r else t_link (topo gg) u v)" for u v
    using a b inj [of u] inj [of v]
    by (auto simp: topology_of_def edge' split: option.splits)
  then show "topo (gg\<lparr>gg_graph := g'\<rparr>) = (topo gg)\<lparr>t_link :=
           (\<lambda>u v. if (u, v) = (a, b) \<or> (u, v) = (b, a) then r else t_link (topo gg) u v)\<rparr>"
    by (intro topology.equality ext) (simp_all, simp_all add: topology_of_def)
qed

lemma add_link_correct:
  assumes wf: "wf gg"
  obtains gg' where "add_link ops gg l = Ret gg'" "wf gg'" "topo gg' = topo_add_link l (topo gg)"
proof -
  define w where "w = \<lparr>lw_hop_cost = ld_hop_cost l, lw_rtt_micros = ld_rtt_micros l\<rparr>"
  obtain gg1 i where gg1: "entry_or_add ops gg (ld_node_a l) = (gg1, i)" "wf gg1"
    "gg_node_indices gg1 (ld_node_a l) = Some i"
    "gg_node_indices gg \<subseteq>\<^sub>m gg_node_indices gg1"
    "gg_node_metadata gg1 = gg_node_metadata gg"
    "topo gg1 = (topo gg)\<lparr>t_nodes := insert (ld_node_a l) (t_nodes (topo gg))\<rparr>"
    using entry_or_add_correct [OF wf, of "ld_node_a l"] .
  obtain gg2 j where gg2: "entry_or_add ops gg1 (ld_node_b l) = (gg2, j)" "wf gg2"
    "gg_node_indices gg2 (ld_node_b l) = Some j"
    "gg_node_indices gg1 \<subseteq>\<^sub>m gg_node_indices gg2"
    "gg_node_metadata gg2 = gg_node_metadata gg1"
    "topo gg2 = (topo gg1)\<lparr>t_nodes := insert (ld_node_b l) (t_nodes (topo gg1))\<rparr>"
    using entry_or_add_correct [OF gg1(2), of "ld_node_b l"] .
  have a: "gg_node_indices gg2 (ld_node_a l) = Some i"
    using gg1(3) gg2(4) by (metis domI map_le_def)
  have ij: "i < length (wts (gg_graph gg2))" "j < length (wts (gg_graph gg2))" and inv2: "inv (gg_graph gg2)"
    using gg2(2,3) a wf_index [OF gg2(2)] by (auto simp: gg_wf_def)
  obtain g1 where g1: "dg_update_edge ops (gg_graph gg2) i j w = Ret g1" "inv g1"
    "wts g1 = wts (gg_graph gg2)" "edge g1 = (edge (gg_graph gg2))(i := (edge (gg_graph gg2) i)(j \<mapsto> w))"
    using update_edge [OF inv2 ij] by blast
  obtain g2 where g2: "dg_update_edge ops g1 j i w = Ret g2" "inv g2"
    "wts g2 = wts g1" "edge g2 = (edge g1)(j := (edge g1 j)(i \<mapsto> w))"
    using update_edge [OF g1(2), of j i w] ij g1(3) by auto
  have "edge g2 = (\<lambda>x y. if (x, y) = (i, j) \<or> (x, y) = (j, i) then Some w else edge (gg_graph gg2) x y)"
    by (auto simp: g2(4) g1(4) fun_eq_iff)
  from set_edges_correct [OF gg2(2) a gg2(3) g2(2) _ this]
  have "wf (gg2\<lparr>gg_graph := g2\<rparr>)" "topo (gg2\<lparr>gg_graph := g2\<rparr>) = (topo gg2)\<lparr>t_link :=
      (\<lambda>u v. if (u, v) = (ld_node_a l, ld_node_b l) \<or> (u, v) = (ld_node_b l, ld_node_a l)
             then Some w else t_link (topo gg2) u v)\<rparr>"
    using g1(3) g2(3) by auto
  then have "wf (gg2\<lparr>gg_graph := g2\<rparr>)" "topo (gg2\<lparr>gg_graph := g2\<rparr>) = topo_add_link l (topo gg)"
    by (simp_all add: gg2(6) gg1(6) topo_add_link_def w_def Let_def insert_commute cong: if_cong)
  moreover have "add_link ops gg l = Ret (gg2\<lparr>gg_graph := g2\<rparr>)"
    using gg1(1) gg2(1) g1(1) g2(1) by (simp add: add_link_def w_def)
  ultimately show thesis using that by blast
qed

lemma drop_edge_correct:
  assumes "inv g"
  shows "inv (drop_edge ops g a b)" "wts (drop_edge ops g a b) = wts g"
    "edge (drop_edge ops g a b) = (edge g)(a := (edge g a)(b := None))"
  using assms find_edge [OF assms, of a b] remove_edge [OF assms, of a b]
  by (auto simp: drop_edge_def fun_eq_iff split: option.splits)

lemma remove_link_correct:
  assumes wf: "wf gg"
  shows "wf (remove_link ops gg a b)" "topo (remove_link ops gg a b) = topo_remove_link a b (topo gg)"
proof -
  have "wf (remove_link ops gg a b) \<and> topo (remove_link ops gg a b) = topo_remove_link a b (topo gg)"
  proof (cases "\<exists>i j. gg_node_indices gg a = Some i \<and> gg_node_indices gg b = Some j")
    case True
    then obtain i j where ij: "gg_node_indices gg a = Some i" "gg_node_indices gg b = Some j" by blast
    define g' where "g' = drop_edge ops (drop_edge ops (gg_graph gg) i j) j i"
    have inv: "inv (gg_graph gg)" using wf by (simp add: gg_wf_def)
    have g': "inv g'" "wts g' = wts (gg_graph gg)"
      "edge g' = (\<lambda>x y. if (x, y) = (i, j) \<or> (x, y) = (j, i) then None else edge (gg_graph gg) x y)"
      by (auto simp: g'_def drop_edge_correct inv fun_eq_iff)
    show ?thesis
      using set_edges_correct [OF wf ij g'] ij
      by (simp add: remove_link_def g'_def topo_remove_link_def)
  next
    case False
    then have "remove_link ops gg a b = gg"
      by (auto simp: remove_link_def split: option.splits)
    moreover have "topo_remove_link a b (topo gg) = topo gg"
      using False by (intro topology.equality ext)
        (auto simp: topo_remove_link_def topology_of_def split: option.splits)
    ultimately show ?thesis using wf by simp
  qed
  then show "wf (remove_link ops gg a b)"
    "topo (remove_link ops gg a b) = topo_remove_link a b (topo gg)" by auto
qed

lemma apply_update_correct:
  assumes "wf gg"
  obtains gg' where "apply_update ops gg u = Ret gg'" "wf gg'" "topo gg' = topo_apply_update u (topo gg)"
proof -
  have "\<exists>s'. exec_fold (\<lambda>n gg. Ret (add_node ops gg n)) (tu_nodes_added u) gg = Ret s' \<and> wf s' \<and>
      topo s' = fold topo_add_node (tu_nodes_added u) (topo gg)"
    by (rule exec_fold_refines) (simp_all add: add_node_correct assms)
  then obtain g1 where g1: "exec_fold (\<lambda>n gg. Ret (add_node ops gg n)) (tu_nodes_added u) gg = Ret g1"
    "wf g1" "topo g1 = fold topo_add_node (tu_nodes_added u) (topo gg)" by blast
  have "\<exists>s'. exec_fold (\<lambda>n gg. remove_node ops gg n) (tu_nodes_removed u) g1 = Ret s' \<and> wf s' \<and>
      topo s' = fold topo_remove_node (tu_nodes_removed u) (topo g1)"
    by (rule exec_fold_refines) (rule remove_node_correct, assumption, blast, rule g1(2))
  then obtain g2 where g2: "exec_fold (\<lambda>n gg. remove_node ops gg n) (tu_nodes_removed u) g1 = Ret g2"
    "wf g2" "topo g2 = fold topo_remove_node (tu_nodes_removed u) (topo g1)" by blast
  have "\<exists>s'. exec_fold (\<lambda>l gg. add_link ops gg l) (tu_links_added u) g2 = Ret s' \<and> wf s' \<and>
      topo s' = fold topo_add_link (tu_links_added u) (topo g2)"
    by (rule exec_fold_refines) (rule add_link_correct, assumption, blast, rule g2(2))
  then obtain g3 where g3: "exec_fold (\<lambda>l gg. add_link ops gg l) (tu_links_added u) g2 = Ret g3"
    "wf g3" "topo g3 = fold topo_add_link (tu_links_added u) (topo g2)" by blast
  have "\<exists>s'. exec_fold (\<lambda>r gg. Ret (remove_link ops gg (lr_node_a r) (lr_node_b r))) (tu_links_removed u) g3 = Ret s' \<and>
      wf s' \<and> topo s' = fold (\<lambda>r. topo_remove_link (lr_node_a r) (lr_node_b r)) (tu_links_removed u) (topo g3)"
    by (rule exec_fold_refines) (simp_all add: remove_link_correct g3(2))
  then obtain g4 where
    "exec_fold (\<lambda>r gg. Ret (remove_link ops gg (lr_node_a r) (lr_node_b r))) (tu_links_removed u) g3 = Ret g4"
    "wf g4" "topo g4 = fold (\<lambda>r. topo_remove_link (lr_node_a r) (lr_node_b r)) (tu_links_removed u) (topo g3)"
    by blast
  with g1(1,3) g2(1,3) g3(1,3) show thesis
    by (intro that [of g4]) (simp_all add: apply_update_def topo_apply_update_def)
qed

lemma link_descriptors_map:
  assumes "inv g" and "\<forall>(a, b, w) \<in> set es. a < length (wts g) \<and> b < length (wts g)"
  shows "link_descriptors ops g es = Ret (map (\<lambda>(a, b, w). link_of (wts g ! a) (wts g ! b) w) es)"
  using assms(2) by (induction es) (auto simp: index [OF assms(1)] link_of_def)

lemma get_descriptors_correct:
  assumes wf: "wf gg"
  obtains ns ls where "get_descriptors ops gg = Ret (ns, ls)"
    "set ns = ran (t_meta (topo gg))" "distinct (map nd_node_id ns)"
    "set ls = {link_of u v w | u v w. t_link (topo gg) u v = Some w}" "distinct ls"
proof -
  define g where "g = gg_graph gg"
  define ls where "ls = map (\<lambda>(a, b, w). link_of (wts g ! a) (wts g ! b) w) (dg_edge_references ops g)"
  define ns where "ns = map snd (gg_node_metadata gg)"
  have g: "inv g" using wf by (simp add: gg_wf_def g_def)
  note es = edge_references [OF g]
  have rng: "\<forall>(a, b, w) \<in> set (dg_edge_references ops g). a < length (wts g) \<and> b < length (wts g)"
    using es edge_range [OF g] by auto
  have get: "get_descriptors ops gg = Ret (ns, ls)"
    using link_descriptors_map [OF g rng] by (simp add: get_descriptors_def ns_def ls_def g_def)
  have link: "t_link (topo gg) u v = Some w \<longleftrightarrow>
      (\<exists>a b. edge g a b = Some w \<and> u = wts g ! a \<and> v = wts g ! b)" for u v w
  proof
    assume "t_link (topo gg) u v = Some w"
    then obtain a b where "gg_node_indices gg u = Some a" "gg_node_indices gg v = Some b" "edge g a b = Some w"
      by (auto simp: topology_of_def g_def split: option.splits)
    then show "\<exists>a b. edge g a b = Some w \<and> u = wts g ! a \<and> v = wts g ! b"
      using wf_index [OF wf] unfolding g_def by metis
  next
    assume "\<exists>a b. edge g a b = Some w \<and> u = wts g ! a \<and> v = wts g ! b"
    then obtain a b where ab: "edge g a b = Some w" "u = wts g ! a" "v = wts g ! b" by blast
    then have "gg_node_indices gg u = Some a" "gg_node_indices gg v = Some b"
      using edge_range [OF g ab(1)] wf_index [OF wf] by (simp_all add: g_def)
    with ab(1) show "t_link (topo gg) u v = Some w" by (simp add: topology_of_def g_def)
  qed
  have "set ls = (\<lambda>(a, b, w). link_of (wts g ! a) (wts g ! b) w) ` {(a, b, w). edge g a b = Some w}"
    using es by (simp add: ls_def)
  also have "\<dots> = {link_of u v w | u v w. t_link (topo gg) u v = Some w}"
    unfolding link by (auto simp: image_def inj_link_of) blast
  finally have links: "set ls = {link_of u v w | u v w. t_link (topo gg) u v = Some w}" .
  have "inj_on (\<lambda>(a, b, w). link_of (wts g ! a) (wts g ! b) w) (set (dg_edge_references ops g))"
    using nth_eq_iff_index_eq [OF wf_distinct [OF wf]]
    by (intro inj_onI) (auto simp: inj_link_of g_def dest!: bspec [OF rng [unfolded g_def]])
  then have distinct: "distinct ls" using es by (simp add: ls_def distinct_map)
  have key: "(n, d) \<in> set (gg_node_metadata gg) \<longleftrightarrow> hm_get (gg_node_metadata gg) n = Some d" for n d
    using wf by (simp add: gg_wf_def hm_wf_def hm_get_def)
  have "snd ` set m = {d. \<exists>n. (n, d) \<in> set m}" for m :: "(string \<times> NodeDescriptor) list"
    by force
  then have nodes: "set ns = ran (t_meta (topo gg))"
    by (simp add: ns_def ran_def topology_of_def key)
  have "nd_node_id (snd p) = fst p" if "p \<in> set (gg_node_metadata gg)" for p
    using that key [of "fst p" "snd p"] wf by (simp add: gg_wf_def)
  then have "map nd_node_id ns = map fst (gg_node_metadata gg)"
    by (simp add: ns_def)
  then have "distinct (map nd_node_id ns)"
    using wf by (simp add: gg_wf_def hm_wf_def)
  from that [OF get nodes this links distinct] show thesis .
qed

lemma snapshot_correct:
  assumes wf: "wf gg"
  obtains ns ls gg' where "get_descriptors ops gg = Ret (ns, ls)"
    "apply_update ops (gg_new ops) \<lparr>tu_origin_node_id = o1, tu_epoch = e, tu_nodes_added = ns,
       tu_nodes_removed = [], tu_links_added = ls, tu_links_removed = []\<rparr> = Ret gg'"
    "wf gg'" "t_link (topo gg') = t_link (topo gg)" "t_meta (topo gg') = t_meta (topo gg)"
    "t_nodes (topo gg') = dom (t_meta (topo gg)) \<union> {u. \<exists>v. t_link (topo gg) u v \<noteq> None}"
proof -
  obtain ns ls where d: "get_descriptors ops gg = Ret (ns, ls)"
    "set ns = ran (t_meta (topo gg))" "distinct (map nd_node_id ns)"
    "set ls = {link_of u v w | u v w. t_link (topo gg) u v = Some w}" "distinct ls"
    using get_descriptors_correct [OF wf] .
  define upd where "upd = \<lparr>tu_origin_node_id = o1, tu_epoch = e, tu_nodes_added = ns,
       tu_nodes_removed = [], tu_links_added = ls, tu_links_removed = []\<rparr>"
  obtain gg' where gg': "apply_update ops (gg_new ops) upd = Ret gg'" "wf gg'"
    "topo gg' = topo_apply_update upd topo_empty"
    using apply_update_correct [OF wf_new, of upd] unfolding topo_new .
  have id: "nd_node_id d = n" if "t_meta (topo gg) n = Some d" for n d
    using that wf by (simp add: gg_wf_def topology_of_def)
  have M: "\<forall>x \<in> set ns. t_meta (topo gg) (nd_node_id x) = Some x"
    using id by (auto simp: d(2) ran_def)
  have ids: "nd_node_id ` set ns = dom (t_meta (topo gg))"
  proof (intro subset_antisym subsetI)
    fix n assume "n \<in> dom (t_meta (topo gg))"
    then obtain x where "t_meta (topo gg) n = Some x" by blast
    with id have "nd_node_id x = n" "x \<in> set ns" by (auto simp: d(2) ranI)
    then show "n \<in> nd_node_id ` set ns" by blast
  qed (use M in blast)
  have restrict: "(\<lambda>n. if n \<in> dom m then m n else None) = m" for m :: "string \<rightharpoonup> NodeDescriptor"
    by (simp add: fun_eq_iff domIff)
  have nodes: "fold topo_add_node ns topo_empty =
      topo_empty\<lparr>t_nodes := dom (t_meta (topo gg)), t_meta := t_meta (topo gg)\<rparr>"
    by (subst fold_topo_add_node [of ns "t_meta (topo gg)", OF M],
        unfold ids topo_empty_def topology.simps restrict) simp
  have joins: "joins ls u v \<longleftrightarrow> t_link (topo gg) u v \<noteq> None" for u v
  proof
    assume "joins ls u v"
    then show "t_link (topo gg) u v \<noteq> None"
      unfolding joins_def d(4) by (auto simp: topo_sym [OF wf, of v u])
  next
    assume "t_link (topo gg) u v \<noteq> None"
    then obtain w where "link_of u v w \<in> set ls" by (auto simp: d(4))
    then show "joins ls u v" by (force simp: joins_def)
  qed
  have "\<forall>l \<in> set ls. \<exists>u v w. l = link_of u v w \<and> t_link (topo gg) u v = Some w"
    by (auto simp: d(4))
  note links = fold_topo_add_link [OF topo_sym [OF wf] this]
  have "topo gg' = fold topo_add_link ls (fold topo_add_node ns topo_empty)"
    by (simp add: gg'(3) topo_apply_update_def upd_def)
  then have topo': "topo gg' = fold topo_add_link ls
      (topo_empty\<lparr>t_nodes := dom (t_meta (topo gg)), t_meta := t_meta (topo gg)\<rparr>)"
    unfolding nodes .
  have "t_link (topo gg') = t_link (topo gg)" "t_meta (topo gg') = t_meta (topo gg)"
    "t_nodes (topo gg') = dom (t_meta (topo gg)) \<union> {u. \<exists>v. t_link (topo gg) u v \<noteq> None}"
    unfolding topo' links joins fun_eq_iff by (auto simp: topo_empty_def)
  with gg'(1,2) d(1) show thesis
    by (intro that [of ns ls gg']) (simp_all add: upd_def)
qed

end

interpretation vtopo: topology_graph vgraph_ops fst vg_edge vg_inv ..

lemmas graph_evals [evals] =
  apply_update_def gg_new_def add_node_def remove_node_def entry_or_add_def add_link_def
  drop_edge_def remove_link_def get_descriptors_def link_of_def

section \<open>Properties\<close>

text \<open>A small mesh the examples are evaluated on: \<open>s - a - b\<close> with descriptors for \<open>s\<close> and \<open>a\<close>.\<close>

definition demo_node :: "string \<Rightarrow> NodeDescriptor" where
  "demo_node n = \<lparr>nd_node_id = n, nd_role = NODE_ROLE_FLOW, nd_capabilities = [], nd_last_seen = 0\<rparr>"

definition demo_update :: TopologyUpdate where
  "demo_update =
     \<lparr>tu_origin_node_id = ''s'', tu_epoch = 1, tu_nodes_added = [demo_node ''s'', demo_node ''a''],
      tu_nodes_removed = [],
      tu_links_added = [link_of ''s'' ''a'' \<lparr>lw_hop_cost = 10, lw_rtt_micros = 0\<rparr>,
                        link_of ''a'' ''b'' \<lparr>lw_hop_cost = 10, lw_rtt_micros = 0\<rparr>],
      tu_links_removed = []\<rparr>"

lemmas demo_evals [evals] = demo_node_def demo_update_def

text \<open>
  C6: applying a topology update to a well-formed graph never panics, keeps the graph well-formed
  (index map inverse to the node weights, symmetric links, descriptors filed under their node)
  and has on the topology by names exactly the effect of adding the nodes, removing the nodes,
  adding the links and removing the links of the update, in that order; in particular the
  renumbering after a removal leaves every other link where it was.
\<close>

theorem apply_update_refines:
  assumes "topology_graph ops wts edge ginv" and "gg_wf wts edge ginv gg"
  shows "\<exists>gg'. apply_update ops gg upd = Ret gg' \<and> gg_wf wts edge ginv gg' \<and>
           topology_of edge gg' = topo_apply_update upd (topology_of edge gg)"
  by (rule topology_graph.apply_update_correct [OF assms, of upd]) (intro exI conjI)

theorem apply_update_refines_witness:
  "\<exists>gg'. apply_update vgraph_ops (gg_new vgraph_ops) demo_update = Ret gg' \<and> gg_wf fst vg_edge vg_inv gg' \<and>
     topology_of vg_edge gg' = topo_apply_update demo_update (topology_of vg_edge (gg_new vgraph_ops))"
  by (rule apply_update_refines [OF vtopo.topology_graph_axioms vtopo.wf_new])

text \<open>
  C18: the snapshot a node sends to a new peer reproduces its graph. The descriptors of a
  well-formed graph, applied as an update to an empty graph, give the same links and the same
  node descriptors; the nodes are those with a descriptor or a link.
\<close>

theorem get_descriptors_roundtrip:
  assumes "topology_graph ops wts edge ginv" and "gg_wf wts edge ginv gg"
  shows "\<exists>ns ls gg'. get_descriptors ops gg = Ret (ns, ls) \<and>
           apply_update ops (gg_new ops) \<lparr>tu_origin_node_id = n, tu_epoch = e, tu_nodes_added = ns,
             tu_nodes_removed = [], tu_links_added = ls, tu_links_removed = []\<rparr> = Ret gg' \<and>
           gg_wf wts edge ginv gg' \<and>
           t_link (topology_of edge gg') = t_link (topology_of edge gg) \<and>
           t_meta (topology_of edge gg') = t_meta (topology_of edge gg) \<and>
           t_nodes (topology_of edge gg') =
             dom (t_meta (topology_of edge gg)) \<union> {u. \<exists>v. t_link (topology_of edge gg) u v \<noteq> None}"
  by (rule topology_graph.snapshot_correct [OF assms, of n e]) (intro exI conjI)

theorem get_descriptors_roundtrip_witness:
  "\<exists>gg ns ls gg'. apply_update vgraph_ops (gg_new vgraph_ops) demo_update = Ret gg \<and>
     get_descriptors vgraph_ops gg = Ret (ns, ls) \<and>
     apply_update vgraph_ops (gg_new vgraph_ops) \<lparr>tu_origin_node_id = ''s'', tu_epoch = 1,
       tu_nodes_added = ns, tu_nodes_removed = [], tu_links_added = ls, tu_links_removed = []\<rparr> = Ret gg' \<and>
     t_link (topology_of vg_edge gg') = t_link (topology_of vg_edge gg)"
proof -
  obtain gg where "apply_update vgraph_ops (gg_new vgraph_ops) demo_update = Ret gg" "gg_wf fst vg_edge vg_inv gg"
    using vtopo.apply_update_correct [OF vtopo.wf_new, of demo_update] by blast
  with get_descriptors_roundtrip [OF vtopo.topology_graph_axioms, of gg "''s''" 1] show ?thesis by blast
qed

end
