(* ===== verification/Binary_Heap.thy ===== *)
theory Binary_Heap
  imports Stric_Prelude "HOL-Library.Multiset"
begin

text \<open>
  \<^verbatim>\<open>std::collections::BinaryHeap\<close>, the priority queue of the route computation, as the
  standard library implements it: an array in heap order, \<^verbatim>\<open>push\<close> by sifting up, \<^verbatim>\<open>pop\<close> by
  sifting the hole down to the bottom and back up. The contract its client needs is the locale
  \<open>priority_queue\<close>; every total preorder gives an instance of it.
\<close>

section \<open>The array algorithm\<close>

text \<open>
  \<open>le\<close> is the element type's \<^verbatim>\<open><=\<close>. A hole is a position whose slot is to be filled with
  \<open>elt\<close>; moving it copies the neighbour into the old position.
\<close>

abbreviation parent :: "nat \<Rightarrow> nat" where
  "parent i \<equiv> (i - 1) div 2"

function sift_up :: "('a \<Rightarrow> 'a \<Rightarrow> bool) \<Rightarrow> 'a list \<Rightarrow> nat \<Rightarrow> 'a \<Rightarrow> 'a list" where
  "sift_up le data pos elt =
     (if pos > 0 then
        (if le elt (data ! parent pos) then data[pos := elt]
         else sift_up le (data[pos := data ! parent pos]) (parent pos) elt)
      else data[pos := elt])"
  by pat_completeness auto
termination
  by (relation "measure (\<lambda>(le, data, pos, elt). pos)") auto

function sift_down_to_bottom :: "('a \<Rightarrow> 'a \<Rightarrow> bool) \<Rightarrow> 'a list \<Rightarrow> nat \<Rightarrow> 'a \<Rightarrow> 'a list" where
  "sift_down_to_bottom le data pos elt =
     (if 2 * pos + 1 \<le> length data - 2 then
        (let child = (if le (data ! (2 * pos + 1)) (data ! (2 * pos + 2))
                      then 2 * pos + 2 else 2 * pos + 1)
         in sift_down_to_bottom le (data[pos := data ! child]) child elt)
      else if 2 * pos + 1 = length data - 1
      then sift_up le (data[pos := data ! (2 * pos + 1)]) (2 * pos + 1) elt
      else sift_up le data pos elt)"
  by pat_completeness auto
termination
  by (relation "measure (\<lambda>(le, data, pos, elt). length data - pos)") (auto simp: Let_def)

declare sift_up.simps [simp del] sift_down_to_bottom.simps [simp del]

definition heap_push :: "('a \<Rightarrow> 'a \<Rightarrow> bool) \<Rightarrow> 'a \<Rightarrow> 'a list \<Rightarrow> 'a list" where
  "heap_push le item data = sift_up le (data @ [item]) (length data) item"

definition heap_pop :: "('a \<Rightarrow> 'a \<Rightarrow> bool) \<Rightarrow> 'a list \<Rightarrow> ('a \<times> 'a list) option" where
  "heap_pop le data =
     (if data = [] then None
      else (let item = last data; rest = butlast data in
            if rest = [] then Some (item, [])
            else Some (rest ! 0, sift_down_to_bottom le rest 0 item)))"

definition heap_inv :: "('a \<Rightarrow> 'a \<Rightarrow> bool) \<Rightarrow> 'a list \<Rightarrow> bool" where
  "heap_inv le data \<longleftrightarrow> (\<forall>i. 0 < i \<and> i < length data \<longrightarrow> le (data ! i) (data ! parent i))"

section \<open>The contract of a priority queue\<close>

locale priority_queue =
  fixes le :: "'a \<Rightarrow> 'a \<Rightarrow> bool"
    and empty :: 'q
    and push :: "'a \<Rightarrow> 'q \<Rightarrow> 'q"
    and pop :: "'q \<Rightarrow> ('a \<times> 'q) option"
    and elems :: "'q \<Rightarrow> 'a multiset"
    and inv :: "'q \<Rightarrow> bool"
  assumes elems_empty: "elems empty = {#}"
    and inv_empty: "inv empty"
    and elems_push: "elems (push x q) = add_mset x (elems q)"
    and inv_push: "inv q \<Longrightarrow> inv (push x q)"
    and pop_None: "pop q = None \<longleftrightarrow> elems q = {#}"
    and pop_elems: "pop q = Some (x, q') \<Longrightarrow> elems q = add_mset x (elems q')"
    and pop_inv: "inv q \<Longrightarrow> pop q = Some (x, q') \<Longrightarrow> inv q'"
    and pop_greatest: "inv q \<Longrightarrow> pop q = Some (x, q') \<Longrightarrow> y \<in># elems q' \<Longrightarrow> le y x"
begin

lemma set_push: "set_mset (elems (push x q)) = insert x (set_mset (elems q))"
  by (simp add: elems_push)

lemma pop_size: "pop q = Some (x, q') \<Longrightarrow> size (elems q') < size (elems q)"
  by (simp add: pop_elems)

lemma pop_set: "pop q = Some (x, q') \<Longrightarrow> set_mset (elems q) = insert x (set_mset (elems q'))"
  by (simp add: pop_elems)

end

section \<open>Sifting permutes\<close>

lemma mset_move_hole:
  "i < length xs \<Longrightarrow> j < length xs \<Longrightarrow> i \<noteq> j \<Longrightarrow> mset (xs[i := xs ! j, j := x]) = mset (xs[i := x])"
  using mset_swap [of j "xs[i := x]" i] by simp

lemma length_sift_up [simp]: "length (sift_up le xs pos x) = length xs"
  by (induction le xs pos x rule: sift_up.induct) (subst sift_up.simps, simp)

lemma mset_sift_up: "pos < length xs \<Longrightarrow> mset (sift_up le xs pos x) = mset (xs[pos := x])"
proof (induction le xs pos x rule: sift_up.induct)
  case (1 le xs pos x)
  show ?case
  proof (cases "pos > 0 \<and> \<not> le x (xs ! parent pos)")
    case True
    then have "parent pos < pos" by auto
    with True 1 have "mset (sift_up le xs pos x) = mset (xs[pos := xs ! parent pos, parent pos := x])"
      by (subst sift_up.simps) auto
    with 1 \<open>parent pos < pos\<close> show ?thesis
      by (simp add: mset_move_hole)
  next
    case False
    then show ?thesis by (subst sift_up.simps) auto
  qed
qed

lemma length_sift_down [simp]: "length (sift_down_to_bottom le xs pos x) = length xs"
  by (induction le xs pos x rule: sift_down_to_bottom.induct)
     (subst sift_down_to_bottom.simps, simp add: Let_def)

text \<open>The greater child of a node, where the hole goes next.\<close>

definition greater_child :: "('a \<Rightarrow> 'a \<Rightarrow> bool) \<Rightarrow> 'a list \<Rightarrow> nat \<Rightarrow> nat" where
  "greater_child le xs pos =
     (if le (xs ! (2 * pos + 1)) (xs ! (2 * pos + 2)) then 2 * pos + 2 else 2 * pos + 1)"

lemma sift_down_step:
  "2 * pos + 1 \<le> length xs - 2 \<Longrightarrow>
     sift_down_to_bottom le xs pos x =
       sift_down_to_bottom le (xs[pos := xs ! greater_child le xs pos]) (greater_child le xs pos) x"
  by (subst sift_down_to_bottom.simps) (simp add: greater_child_def Let_def)

lemma sift_down_last:
  "\<not> 2 * pos + 1 \<le> length xs - 2 \<Longrightarrow>
     sift_down_to_bottom le xs pos x =
       (if 2 * pos + 1 = length xs - 1
        then sift_up le (xs[pos := xs ! (2 * pos + 1)]) (2 * pos + 1) x
        else sift_up le xs pos x)"
  by (subst sift_down_to_bottom.simps) simp

lemma greater_child_bounds:
  "2 * pos + 1 \<le> length xs - 2 \<Longrightarrow> greater_child le xs pos < length xs"
  "pos < greater_child le xs pos"
  by (auto simp: greater_child_def)

lemma mset_sift_down:
  "pos < length xs \<Longrightarrow> mset (sift_down_to_bottom le xs pos x) = mset (xs[pos := x])"
proof (induction "length xs - pos" arbitrary: xs pos rule: less_induct)
  case less
  show ?case
  proof (cases "2 * pos + 1 \<le> length xs - 2")
    case True
    note c = greater_child_bounds(1) [OF True, of le] greater_child_bounds(2) [of pos le xs]
    have "mset (sift_down_to_bottom le xs pos x)
        = mset (xs[pos := xs ! greater_child le xs pos, greater_child le xs pos := x])"
      using True c less.prems by (simp add: sift_down_step less.hyps)
    with c less.prems show ?thesis by (simp add: mset_move_hole)
  next
    case False
    with less.prems show ?thesis
      by (auto simp: sift_down_last mset_sift_up mset_move_hole)
  qed
qed

section \<open>Heap order\<close>

text \<open>
  \<open>up_hole\<close>: the array is a heap but for the element at the hole, which may be too great for
  its parent. \<open>down_hole\<close>: it is a heap if the hole's slot is left out.
\<close>

definition up_hole :: "('a \<Rightarrow> 'a \<Rightarrow> bool) \<Rightarrow> 'a list \<Rightarrow> nat \<Rightarrow> 'a \<Rightarrow> bool" where
  "up_hole le xs pos x \<longleftrightarrow>
     pos < length xs \<and>
     (\<forall>i. 0 < i \<and> i < length xs \<and> i \<noteq> pos \<longrightarrow> le (xs ! i) (if parent i = pos then x else xs ! parent i)) \<and>
     (\<forall>i. 0 < i \<and> i < length xs \<and> parent i = pos \<and> 0 < pos \<longrightarrow> le (xs ! i) (xs ! parent pos))"

definition down_hole :: "('a \<Rightarrow> 'a \<Rightarrow> bool) \<Rightarrow> 'a list \<Rightarrow> nat \<Rightarrow> bool" where
  "down_hole le xs pos \<longleftrightarrow>
     pos < length xs \<and>
     (\<forall>i. 0 < i \<and> i < length xs \<and> i \<noteq> pos \<and> parent i \<noteq> pos \<longrightarrow> le (xs ! i) (xs ! parent i)) \<and>
     (\<forall>i. 0 < i \<and> i < length xs \<and> parent i = pos \<and> 0 < pos \<longrightarrow> le (xs ! i) (xs ! parent pos))"

lemma parent_less: "0 < i \<Longrightarrow> parent i < i"
  by auto

lemma parent_cases: "0 < i \<Longrightarrow> parent i = p \<longleftrightarrow> i = 2 * p + 1 \<or> i = 2 * p + 2"
  by auto

locale total_preorder =
  fixes le :: "'a \<Rightarrow> 'a \<Rightarrow> bool"
  assumes total: "le x y \<or> le y x"
    and trans: "le x y \<Longrightarrow> le y z \<Longrightarrow> le x z"
begin

lemma refl: "le x x"
  using total by blast

lemma sift_up_move:
  assumes up: "up_hole le xs pos x" and pos: "0 < pos" and nle: "\<not> le x (xs ! parent pos)"
  shows "up_hole le (xs[pos := xs ! parent pos]) (parent pos) x"
proof -
  define p where "p = parent pos"
  define ys where "ys = xs[pos := xs ! p]"
  have pp: "p < pos" using pos by (auto simp: p_def)
  have px: "le (xs ! p) x" using nle total [of x "xs ! p"] by (simp add: p_def)
  have len: "pos < length xs"
    and up1: "\<And>i. 0 < i \<Longrightarrow> i < length xs \<Longrightarrow> i \<noteq> pos \<Longrightarrow>
                 le (xs ! i) (if parent i = pos then x else xs ! parent i)"
    and up2: "\<And>i. 0 < i \<Longrightarrow> i < length xs \<Longrightarrow> parent i = pos \<Longrightarrow> le (xs ! i) (xs ! p)"
    using up pos unfolding up_hole_def p_def by blast+
  have sib: "le (xs ! i) (xs ! p)" if "0 < i" "i < length xs" "i \<noteq> pos" "parent i = p" for i
    using up1 [of i] that pp by simp
  have ys: "length ys = length xs" "ys ! pos = xs ! p" "\<And>i. i \<noteq> pos \<Longrightarrow> ys ! i = xs ! i"
    using len by (simp_all add: ys_def)
  have "le (ys ! i) (if parent i = p then x else ys ! parent i)"
    if i: "0 < i" "i < length xs" "i \<noteq> p" for i
  proof (cases "i = pos")
    case True with px show ?thesis by (simp add: ys p_def)
  next
    case False
    with i sib [of i] up1 [of i] up2 [of i] px show ?thesis
      by (cases "parent i = p"; cases "parent i = pos") (auto simp: ys intro: trans)
  qed
  moreover have "le (ys ! i) (ys ! parent p)"
    if i: "0 < i" "i < length xs" "parent i = p" "0 < p" for i
  proof -
    have "parent p < pos" using pp by auto
    moreover have "le (xs ! p) (xs ! parent p)"
      using up1 [of p] i(4) pp len \<open>parent p < pos\<close> by simp
    ultimately show ?thesis
      using i sib [of i] by (cases "i = pos") (auto simp: ys intro: trans)
  qed
  ultimately show ?thesis
    unfolding up_hole_def p_def [symmetric] ys_def [symmetric] using pp len ys(1) by simp
qed

lemma up_hole_done:
  assumes up: "up_hole le xs pos x" and fits: "0 < pos \<Longrightarrow> le x (xs ! parent pos)"
  shows "heap_inv le (xs[pos := x])"
  unfolding heap_inv_def
proof (intro allI impI)
  fix i assume i: "0 < i \<and> i < length (xs[pos := x])"
  then have "parent i < i" by auto
  have up1: "i \<noteq> pos \<Longrightarrow> le (xs ! i) (if parent i = pos then x else xs ! parent i)"
    using up i unfolding up_hole_def by simp
  show "le (xs[pos := x] ! i) (xs[pos := x] ! parent i)"
    using i fits up1 \<open>parent i < i\<close> by (cases "i = pos"; cases "parent i = pos") simp_all
qed

lemma sift_up_heap: "up_hole le xs pos x \<Longrightarrow> heap_inv le (sift_up le xs pos x)"
proof (induction pos arbitrary: xs rule: less_induct)
  case (less pos)
  show ?case
  proof (cases "0 < pos \<and> \<not> le x (xs ! parent pos)")
    case False
    with up_hole_done [OF less.prems] show ?thesis by (subst sift_up.simps) auto
  next
    case True
    with less.IH [OF parent_less sift_up_move] less.prems show ?thesis
      by (subst sift_up.simps) simp
  qed
qed

lemma down_hole_done:
  assumes "down_hole le xs pos" and "length xs \<le> 2 * pos + 1"
  shows "up_hole le xs pos x"
proof -
  have "parent i \<noteq> pos" if "0 < i" "i < length xs" for i
    using that assms(2) by auto
  with assms(1) show ?thesis unfolding down_hole_def up_hole_def by auto
qed

lemma down_hole_move:
  assumes down: "down_hole le xs pos" and c: "parent c = pos" "pos < c" "c < length xs"
    and greatest: "\<And>i. 0 < i \<Longrightarrow> i < length xs \<Longrightarrow> parent i = pos \<Longrightarrow> le (xs ! i) (xs ! c)"
  shows "down_hole le (xs[pos := xs ! c]) c"
proof -
  define ys where "ys = xs[pos := xs ! c]"
  have dn: "\<And>i. 0 < i \<Longrightarrow> i < length xs \<Longrightarrow> i \<noteq> pos \<Longrightarrow> parent i \<noteq> pos \<Longrightarrow> le (xs ! i) (xs ! parent i)"
    and dc: "0 < pos \<Longrightarrow> le (xs ! c) (xs ! parent pos)"
    using down c unfolding down_hole_def by auto
  have ys: "length ys = length xs" "ys ! pos = xs ! c" "\<And>i. i \<noteq> pos \<Longrightarrow> ys ! i = xs ! i"
    using c by (simp_all add: ys_def)
  have "le (ys ! i) (ys ! parent i)" if i: "0 < i" "i < length xs" "i \<noteq> c" for i
  proof (cases "i = pos")
    case True
    then have "parent i \<noteq> pos" using i by auto
    with True i dc show ?thesis by (simp add: ys)
  next
    case False
    with i dn [of i] greatest [of i] show ?thesis
      by (cases "parent i = pos") (simp_all add: ys)
  qed
  moreover have "le (ys ! i) (ys ! parent c)"
    if i: "0 < i" "i < length xs" "parent i = c" for i
  proof -
    have "i \<noteq> pos" "parent i \<noteq> pos" using i c by auto
    with i dn [of i] c show ?thesis by (simp add: ys)
  qed
  ultimately show ?thesis
    unfolding down_hole_def ys_def [symmetric] using c ys(1) by simp
qed

lemma sift_down_heap: "down_hole le xs pos \<Longrightarrow> heap_inv le (sift_down_to_bottom le xs pos x)"
proof (induction "length xs - pos" arbitrary: xs pos rule: less_induct)
  case less
  have len: "pos < length xs" using less.prems by (simp add: down_hole_def)
  show ?case
  proof (cases "2 * pos + 1 \<le> length xs - 2")
    case True
    define c where "c = greater_child le xs pos"
    have c: "parent c = pos" "pos < c" "c < length xs"
      using greater_child_bounds(1) [OF True, of le] greater_child_bounds(2) [of pos le xs]
      by (auto simp: c_def greater_child_def)
    have "le (xs ! i) (xs ! c)" if "0 < i" "parent i = pos" for i
    proof -
      from that have "i = 2 * pos + 1 \<or> i = 2 * pos + 2"
        using parent_cases [of i pos] by blast
      then show ?thesis
        using total [of "xs ! (2 * pos + 1)" "xs ! (2 * pos + 2)"]
        by (auto simp: c_def greater_child_def refl)
    qed
    with less.prems c have "down_hole le (xs[pos := xs ! c]) c"
      by (intro down_hole_move) auto
    with less.hyps [of "xs[pos := xs ! c]" c] c len have
      "heap_inv le (sift_down_to_bottom le (xs[pos := xs ! c]) c x)" by simp
    with True show ?thesis by (simp add: sift_down_step c_def)
  next
    case False
    show ?thesis
    proof (cases "2 * pos + 1 = length xs - 1")
      case last: True
      define c where "c = 2 * pos + 1"
      have c: "parent c = pos" "pos < c" "c < length xs"
        using last len by (auto simp: c_def)
      have "le (xs ! i) (xs ! c)" if "0 < i" "i < length xs" "parent i = pos" for i
      proof -
        from that last have "i = c" using parent_cases [of i pos] by (auto simp: c_def)
        then show ?thesis by (simp add: refl)
      qed
      with less.prems c have "down_hole le (xs[pos := xs ! c]) c"
        by (intro down_hole_move)
      moreover have "length xs \<le> 2 * c + 1" using last by (simp add: c_def)
      ultimately show ?thesis
        using False last by (simp add: sift_down_last sift_up_heap down_hole_done c_def)
    next
      case nolast: False
      with False len have "length xs \<le> 2 * pos + 1" by auto
      with False nolast less.prems show ?thesis
        by (simp add: sift_down_last sift_up_heap down_hole_done)
    qed
  qed
qed

lemma heap_root_greatest: "heap_inv le xs \<Longrightarrow> i < length xs \<Longrightarrow> le (xs ! i) (xs ! 0)"
proof (induction i rule: less_induct)
  case (less i)
  show ?case
  proof (cases "i = 0")
    case True then show ?thesis by (simp add: refl)
  next
    case False
    then have "parent i < i" by auto
    with less have "le (xs ! parent i) (xs ! 0)" by auto
    moreover have "le (xs ! i) (xs ! parent i)"
      using less.prems False by (simp add: heap_inv_def)
    ultimately show ?thesis by (rule trans [rotated])
  qed
qed

lemma heap_inv_push: "heap_inv le xs \<Longrightarrow> heap_inv le (heap_push le x xs)"
proof -
  assume h: "heap_inv le xs"
  have "up_hole le (xs @ [x]) (length xs) x"
    unfolding up_hole_def
  proof (intro conjI allI impI)
    fix i assume i: "0 < i \<and> i < length (xs @ [x]) \<and> i \<noteq> length xs"
    then have "parent i < i" "i < length xs" by auto
    with h i show "le ((xs @ [x]) ! i) (if parent i = length xs then x else (xs @ [x]) ! parent i)"
      by (auto simp: heap_inv_def nth_append)
  qed auto
  then show ?thesis by (simp add: heap_push_def sift_up_heap)
qed

lemma heap_inv_butlast: "heap_inv le xs \<Longrightarrow> heap_inv le (butlast xs)"
proof -
  assume h: "heap_inv le xs"
  have "le (butlast xs ! i) (butlast xs ! parent i)" if "0 < i" "i < length xs - 1" for i
  proof -
    have "parent i < length xs - 1" using that by auto
    with h that show ?thesis by (simp add: heap_inv_def nth_butlast)
  qed
  then show ?thesis by (simp add: heap_inv_def)
qed

lemma mset_heap_push: "mset (heap_push le x xs) = add_mset x (mset xs)"
  by (simp add: heap_push_def mset_sift_up list_update_append)

lemma heap_pop_cases:
  assumes "heap_pop le xs = Some (y, ys)"
  obtains z where "xs = [y]" "ys = []" "z = y"
    | z rest where "xs = rest @ [z]" "rest \<noteq> []" "y = rest ! 0" "ys = sift_down_to_bottom le rest 0 z"
  using assms by (cases xs rule: rev_cases) (auto simp: heap_pop_def Let_def split: if_splits)

lemma mset_heap_pop:
  assumes "heap_pop le xs = Some (y, ys)"
  shows "mset xs = add_mset y (mset ys)"
  using assms
proof (cases rule: heap_pop_cases)
  case (2 z rest)
  then have "mset (rest[0 := z]) = add_mset z (mset rest - {#rest ! 0#})"
    by (simp add: mset_update)
  with 2 show ?thesis by (simp add: mset_sift_down)
qed simp

lemma heap_pop_heap:
  assumes "heap_inv le xs" and "heap_pop le xs = Some (y, ys)"
  shows "heap_inv le ys" and "x \<in># mset ys \<Longrightarrow> le x y"
proof -
  show "heap_inv le ys"
    using assms(2)
  proof (cases rule: heap_pop_cases)
    case (2 z rest)
    with assms(1) heap_inv_butlast [of xs] have "heap_inv le rest" by simp
    with 2 have "down_hole le rest 0" by (auto simp: down_hole_def heap_inv_def)
    with 2 show ?thesis by (simp add: sift_down_heap)
  qed (simp add: heap_inv_def)
  assume "x \<in># mset ys"
  then have "x \<in> set xs"
    using mset_heap_pop [OF assms(2)] by (metis in_multiset_in_set union_iff add_mset_add_single)
  then obtain i where "i < length xs" "x = xs ! i" by (auto simp: in_set_conv_nth)
  moreover have "y = xs ! 0"
    using assms(2) by (cases rule: heap_pop_cases) (auto simp: nth_append)
  ultimately show "le x y" using heap_root_greatest [OF assms(1)] by simp
qed

end

text \<open>Every total preorder makes the array algorithm a priority queue.\<close>

sublocale total_preorder \<subseteq> heap: priority_queue le "[]" "heap_push le" "heap_pop le" mset "heap_inv le"
proof unfold_locales
  show "heap_inv le []" by (simp add: heap_inv_def)
  show "heap_pop le q = None \<longleftrightarrow> mset q = {#}" for q :: "'a list"
    by (auto simp: heap_pop_def Let_def)
qed (auto simp: mset_heap_push heap_inv_push mset_heap_pop heap_pop_heap)

end
