(* ===== verification/Shortest_Paths.thy ===== *)
theory Shortest_Paths
  imports Main
begin

text \<open>
  Shortest paths in a graph with natural-number costs, and the invariant of Dijkstra's
  algorithm with lazy deletion (an improved node is pushed again, outdated heap entries are
  skipped), independent of how the code represents distances, predecessors and the heap.
\<close>

section \<open>Walks\<close>

inductive walk :: "('v \<Rightarrow> 'v \<Rightarrow> nat option) \<Rightarrow> 'v \<Rightarrow> 'v \<Rightarrow> nat \<Rightarrow> bool" for c s where
  walk_refl: "walk c s s 0"
| walk_step: "walk c s u k \<Longrightarrow> c u v = Some x \<Longrightarrow> walk c s v (k + x)"

definition shortest :: "('v \<Rightarrow> 'v \<Rightarrow> nat option) \<Rightarrow> 'v \<Rightarrow> 'v \<Rightarrow> nat \<Rightarrow> bool" where
  "shortest c s v k \<longleftrightarrow> walk c s v k \<and> (\<forall>k'. walk c s v k' \<longrightarrow> k \<le> k')"

lemma shortest_unique: "shortest c s v k \<Longrightarrow> shortest c s v k' \<Longrightarrow> k = k'"
  by (meson le_antisym shortest_def)

lemma shortest_source [intro!]: "shortest c s s 0"
  by (simp add: shortest_def walk_refl)

lemma shortest_exists: "walk c s v k \<Longrightarrow> \<exists>k'. shortest c s v k'"
  unfolding shortest_def by (metis LeastI_ex Least_le)

text \<open>Renaming the vertices of a graph.\<close>

lemma walk_rename:
  assumes "\<And>u v x. c u v = Some x \<Longrightarrow> c' (f u) (f v) = Some x" and "walk c s v k"
  shows "walk c' (f s) (f v) k"
  using assms(2) by induction (auto intro: walk.intros assms(1))

section \<open>The state of the algorithm\<close>

text \<open>
  \<open>F\<close> are the expanded vertices, \<open>R\<close> the edges of \<open>F\<close> not yet relaxed, \<open>m\<close> the cost popped
  last, \<open>D\<close> the distances, \<open>P\<close> the predecessors and \<open>H\<close> the entries of the heap.
\<close>

definition dijkstra_inv ::
  "('v \<Rightarrow> 'v \<Rightarrow> nat option) \<Rightarrow> 'v \<Rightarrow> nat \<Rightarrow> 'v set \<Rightarrow> ('v \<times> 'v) set \<Rightarrow>
   ('v \<rightharpoonup> nat) \<Rightarrow> ('v \<rightharpoonup> 'v) \<Rightarrow> (nat \<times> 'v) set \<Rightarrow> bool"
where
  "dijkstra_inv c s m F R D P H \<longleftrightarrow>
     D s = Some 0 \<and> P s = None \<and>
     (\<forall>v d. D v = Some d \<longrightarrow> walk c s v d) \<and>
     (\<forall>k v. (k, v) \<in> H \<longrightarrow> m \<le> k \<and> (\<exists>d. D v = Some d \<and> d \<le> k)) \<and>
     (\<forall>v \<in> F. \<exists>d. D v = Some d \<and> d \<le> m) \<and>
     (\<forall>v \<in> F. \<forall>w x. c v w = Some x \<longrightarrow> (v, w) \<notin> R \<longrightarrow> (\<exists>d e. D v = Some d \<and> D w = Some e \<and> e \<le> d + x)) \<and>
     (\<forall>v d. D v = Some d \<longrightarrow> v \<notin> F \<longrightarrow> (d, v) \<in> H) \<and>
     (\<forall>v u. P v = Some u \<longrightarrow> u \<in> F \<and> (\<exists>d x. D u = Some d \<and> c u v = Some x \<and> D v = Some (d + x))) \<and>
     (\<forall>v. D v \<noteq> None \<longrightarrow> v \<noteq> s \<longrightarrow> P v \<noteq> None) \<and>
     acyclic {(u, v). P v = Some u}"

lemma dijkstra_invI:
  assumes "D s = Some 0" "P s = None"
    and "\<And>v d. D v = Some d \<Longrightarrow> walk c s v d"
    and "\<And>k v. (k, v) \<in> H \<Longrightarrow> m \<le> k \<and> (\<exists>d. D v = Some d \<and> d \<le> k)"
    and "\<And>v. v \<in> F \<Longrightarrow> \<exists>d. D v = Some d \<and> d \<le> m"
    and "\<And>v w x. v \<in> F \<Longrightarrow> c v w = Some x \<Longrightarrow> (v, w) \<notin> R \<Longrightarrow> \<exists>d e. D v = Some d \<and> D w = Some e \<and> e \<le> d + x"
    and "\<And>v d. D v = Some d \<Longrightarrow> v \<notin> F \<Longrightarrow> (d, v) \<in> H"
    and "\<And>v u. P v = Some u \<Longrightarrow> u \<in> F \<and> (\<exists>d x. D u = Some d \<and> c u v = Some x \<and> D v = Some (d + x))"
    and "\<And>v. D v \<noteq> None \<Longrightarrow> v \<noteq> s \<Longrightarrow> P v \<noteq> None"
    and "acyclic {(u, v). P v = Some u}"
  shows "dijkstra_inv c s m F R D P H"
  unfolding dijkstra_inv_def by (intro conjI allI impI ballI assms) (use assms in blast)+

lemma dijkstra_invD:
  assumes "dijkstra_inv c s m F R D P H"
  shows dijkstra_source: "D s = Some 0" "P s = None"
    and dijkstra_sound: "\<And>v d. D v = Some d \<Longrightarrow> walk c s v d"
    and dijkstra_heap: "\<And>k v. (k, v) \<in> H \<Longrightarrow> m \<le> k \<and> (\<exists>d. D v = Some d \<and> d \<le> k)"
    and dijkstra_final: "\<And>v. v \<in> F \<Longrightarrow> \<exists>d. D v = Some d \<and> d \<le> m"
    and dijkstra_relaxed: "\<And>v w x. v \<in> F \<Longrightarrow> c v w = Some x \<Longrightarrow> (v, w) \<notin> R \<Longrightarrow>
      \<exists>d e. D v = Some d \<and> D w = Some e \<and> e \<le> d + x"
    and dijkstra_queued: "\<And>v d. D v = Some d \<Longrightarrow> v \<notin> F \<Longrightarrow> (d, v) \<in> H"
    and dijkstra_pred: "\<And>v u. P v = Some u \<Longrightarrow>
      u \<in> F \<and> (\<exists>d x. D u = Some d \<and> c u v = Some x \<and> D v = Some (d + x))"
    and dijkstra_has_pred: "\<And>v. D v \<noteq> None \<Longrightarrow> v \<noteq> s \<Longrightarrow> P v \<noteq> None"
    and dijkstra_acyclic: "acyclic {(u, v). P v = Some u}"
  using assms unfolding dijkstra_inv_def by blast+

lemma dijkstra_inv_init: "dijkstra_inv c s 0 {} {} [s \<mapsto> 0] Map.empty {(0, s)}"
  by (rule dijkstra_invI) (auto simp: walk_refl acyclic_def split: if_splits)

lemma dijkstra_inv_stale:
  assumes inv: "dijkstra_inv c s m F {} D P H" and H: "H = insert (k, u) H'"
    and stale: "D u = Some d" "d < k"
  shows "dijkstra_inv c s m F {} D P H'"
proof (rule dijkstra_invI)
  fix v e assume "D v = Some e" "v \<notin> F"
  with dijkstra_queued [OF inv this] stale show "(e, v) \<in> H'" by (auto simp: H)
next
  fix j v assume "(j, v) \<in> H'"
  then show "m \<le> j \<and> (\<exists>d. D v = Some d \<and> d \<le> j)" by (intro dijkstra_heap [OF inv]) (simp add: H)
qed (fact dijkstra_invD [OF inv])+

lemma dijkstra_inv_expand:
  assumes inv: "dijkstra_inv c s m F {} D P H" and H: "H = insert (k, u) H'"
    and least: "\<And>j v. (j, v) \<in> H' \<Longrightarrow> k \<le> j" and D: "D u = Some k"
  shows "dijkstra_inv c s k (insert u F) {(u, w) | w. c u w \<noteq> None} D P H'"
proof (rule dijkstra_invI)
  have mk: "m \<le> k" using dijkstra_heap [OF inv, of k u] by (simp add: H)
  show "\<exists>d. D v = Some d \<and> d \<le> k" if "v \<in> insert u F" for v
    using that D dijkstra_final [OF inv, of v] mk by force
  show "(d, v) \<in> H'" if "D v = Some d" "v \<notin> insert u F" for v d
    using that dijkstra_queued [OF inv, of v d] by (simp add: H)
  show "k \<le> j \<and> (\<exists>d. D v = Some d \<and> d \<le> j)" if "(j, v) \<in> H'" for j v
    using that least dijkstra_heap [OF inv, of j v] by (simp add: H)
  show "\<exists>d e. D v = Some d \<and> D w = Some e \<and> e \<le> d + x"
    if "v \<in> insert u F" "c v w = Some x" "(v, w) \<notin> {(u, w) | w. c u w \<noteq> None}" for v w x
    using that by (intro dijkstra_relaxed [OF inv]) auto
  show "w \<in> insert u F \<and> (\<exists>d x. D w = Some d \<and> c w v = Some x \<and> D v = Some (d + x))" if "P v = Some w" for v w
    using dijkstra_pred [OF inv that] by simp
qed (fact dijkstra_invD [OF inv])+

text \<open>Relaxing an edge that does not improve its target.\<close>

lemma dijkstra_inv_keep:
  assumes inv: "dijkstra_inv c s m F R D P H" and "D u = Some k" "c u w = Some x" "D w = Some e" "e \<le> k + x"
  shows "dijkstra_inv c s m F (R - {(u, w)}) D P H"
proof (rule dijkstra_invI)
  fix v w' y assume v: "v \<in> F" "c v w' = Some y" "(v, w') \<notin> R - {(u, w)}"
  show "\<exists>d e. D v = Some d \<and> D w' = Some e \<and> e \<le> d + y"
  proof (cases "(v, w') = (u, w)")
    case True
    then show ?thesis using assms(2-5) v(2) by simp
  next
    case False
    then show ?thesis using v by (intro dijkstra_relaxed [OF inv]) auto
  qed
qed (fact dijkstra_invD [OF inv])+

text \<open>Relaxing an edge that improves its target: the target has not been expanded.\<close>

lemma dijkstra_inv_improve:
  assumes inv: "dijkstra_inv c s m F R D P H" and u: "u \<in> F" "D u = Some m" and c: "c u w = Some x"
    and better: "\<And>e. D w = Some e \<Longrightarrow> m + x < e"
  shows "dijkstra_inv c s m F (R - {(u, w)}) (D(w \<mapsto> m + x)) (P(w \<mapsto> u)) (insert (m + x, w) H)"
proof (rule dijkstra_invI)
  note fin = dijkstra_final [OF inv]
  have w: "w \<notin> F" using fin [of w] better by force
  have ws: "w \<noteq> s" using dijkstra_source(1) [OF inv] better by force
  have uw: "u \<noteq> w" using u(1) w by blast
  have pw: "P v \<noteq> Some w" for v using dijkstra_pred [OF inv, of v w] w by blast
  show "(D(w \<mapsto> m + x)) s = Some 0" "(P(w \<mapsto> u)) s = None"
    using dijkstra_source [OF inv] ws by simp_all
  show "walk c s v d" if "(D(w \<mapsto> m + x)) v = Some d" for v d
    using that dijkstra_sound [OF inv] walk_step [OF dijkstra_sound [OF inv u(2)] c]
    by (auto split: if_splits)
  show "m \<le> k \<and> (\<exists>d. (D(w \<mapsto> m + x)) v = Some d \<and> d \<le> k)" if kv: "(k, v) \<in> insert (m + x, w) H" for k v
  proof (cases "(k, v) = (m + x, w)")
    case False
    then obtain d where "m \<le> k" "D v = Some d" "d \<le> k"
      using kv dijkstra_heap [OF inv, of k v] by auto
    then show ?thesis using better [of d] by (cases "v = w") auto
  qed simp
  show "\<exists>d. (D(w \<mapsto> m + x)) v = Some d \<and> d \<le> m" if "v \<in> F" for v
    using that fin w by auto
  show "(d, v) \<in> insert (m + x, w) H" if "(D(w \<mapsto> m + x)) v = Some d" "v \<notin> F" for v d
    using that dijkstra_queued [OF inv] by (auto split: if_splits)
  show "(P(w \<mapsto> u)) v \<noteq> None" if "(D(w \<mapsto> m + x)) v \<noteq> None" "v \<noteq> s" for v
    using that dijkstra_has_pred [OF inv, of v] by (auto split: if_splits)
  show "\<exists>d e. (D(w \<mapsto> m + x)) v = Some d \<and> (D(w \<mapsto> m + x)) w' = Some e \<and> e \<le> d + y"
    if v: "v \<in> F" "c v w' = Some y" "(v, w') \<notin> R - {(u, w)}" for v w' y
  proof (cases "(v, w') = (u, w)")
    case True
    then show ?thesis using u(2) c v(2) uw by simp
  next
    case False
    then obtain d e where "D v = Some d" "D w' = Some e" "e \<le> d + y"
      using dijkstra_relaxed [OF inv v(1,2)] v(3) by auto
    then show ?thesis using better [of e] v(1) w by (cases "w' = w") auto
  qed
  show "u' \<in> F \<and> (\<exists>d y. (D(w \<mapsto> m + x)) u' = Some d \<and> c u' v = Some y \<and> (D(w \<mapsto> m + x)) v = Some (d + y))"
    if P: "(P(w \<mapsto> u)) v = Some u'" for v u'
  proof (cases "v = w")
    case True
    with P u c uw show ?thesis by auto
  next
    case False
    with P dijkstra_pred [OF inv, of v u'] pw [of v] show ?thesis by auto
  qed
  have "(w, u) \<notin> {(a, b). P b = Some a}\<^sup>*"
    using pw uw by (auto elim: converse_rtranclE)
  then have "acyclic (insert (u, w) {(a, b). P b = Some a})"
    using dijkstra_acyclic [OF inv] by (simp add: acyclic_insert)
  then show "acyclic {(a, b). (P(w \<mapsto> u)) b = Some a}"
    by (rule acyclic_subset) (auto split: if_splits)
qed

text \<open>The entry with the least cost, unless it is outdated, carries the exact distance.\<close>

lemma dijkstra_pop_shortest:
  assumes inv: "dijkstra_inv c s m F {} D P H" and D: "D u = Some k"
    and least: "\<And>j v. (j, v) \<in> H \<Longrightarrow> k \<le> j"
  shows "shortest c s u k"
proof -
  have "(\<exists>d. v \<in> F \<and> D v = Some d \<and> d \<le> j) \<or> (\<exists>i y. (i, y) \<in> H \<and> i \<le> j)" if "walk c s v j" for v j
    using that
  proof induction
    case walk_refl
    then show ?case using dijkstra_source [OF inv] dijkstra_queued [OF inv, of s 0] by auto
  next
    case (walk_step v j w x)
    show ?case
    proof (cases "v \<in> F")
      case True
      then obtain d e where de: "D v = Some d" "D w = Some e" "e \<le> d + x"
        using dijkstra_relaxed [OF inv True walk_step(2)] by auto
      with walk_step.IH consider "e \<le> j + x" | i y where "(i, y) \<in> H" "i \<le> j" by auto
      then show ?thesis
      proof cases
        case 1
        then show ?thesis using de(2) dijkstra_queued [OF inv de(2)] by (cases "w \<in> F") auto
      qed (auto intro: trans_le_add1)
    next
      case False
      then show ?thesis using walk_step.IH by (auto intro: trans_le_add1)
    qed
  qed
  then have "k \<le> j" if "walk c s u j" for j
    using that D least by (metis le_trans option.inject)
  then show ?thesis using dijkstra_sound [OF inv D] by (simp add: shortest_def)
qed

section \<open>What the algorithm has computed when the heap is empty\<close>

definition shortest_tree :: "('v \<Rightarrow> 'v \<Rightarrow> nat option) \<Rightarrow> 'v \<Rightarrow> ('v \<rightharpoonup> nat) \<Rightarrow> ('v \<rightharpoonup> 'v) \<Rightarrow> bool" where
  "shortest_tree c s D P \<longleftrightarrow>
     (\<forall>v k. D v = Some k \<longleftrightarrow> shortest c s v k) \<and>
     P s = None \<and> (\<forall>v. D v \<noteq> None \<longrightarrow> v \<noteq> s \<longrightarrow> P v \<noteq> None) \<and>
     (\<forall>v u. P v = Some u \<longrightarrow> (\<exists>d x. D u = Some d \<and> c u v = Some x \<and> D v = Some (d + x))) \<and>
     acyclic {(u, v). P v = Some u}"

lemma dijkstra_inv_final:
  assumes inv: "dijkstra_inv c s m F {} D P {}"
  shows "shortest_tree c s D P"
proof -
  have closed: "\<exists>e. D w = Some e \<and> e \<le> d + x" if "D v = Some d" "c v w = Some x" for v d w x
    using dijkstra_relaxed [OF inv, of v w x] dijkstra_queued [OF inv, of v d] that by auto
  have least: "\<exists>d. D v = Some d \<and> d \<le> k" if "walk c s v k" for v k
    using that
  proof induction
    case walk_refl
    then show ?case using dijkstra_source [OF inv] by simp
  next
    case (walk_step u k v x)
    then obtain d where "D u = Some d" "d \<le> k" by blast
    with closed [of u d v x] walk_step(2) show ?case by auto
  qed
  have "D v = Some k \<longleftrightarrow> shortest c s v k" for v k
  proof
    assume "D v = Some k"
    then show "shortest c s v k"
      using dijkstra_sound [OF inv] least [of v] unfolding shortest_def by auto
  next
    assume k: "shortest c s v k"
    then obtain d where "D v = Some d" "d \<le> k" using least [of v k] by (auto simp: shortest_def)
    moreover have "k \<le> d" using k dijkstra_sound [OF inv \<open>D v = Some d\<close>] by (simp add: shortest_def)
    ultimately show "D v = Some k" by simp
  qed
  moreover have "\<exists>d x. D u = Some d \<and> c u v = Some x \<and> D v = Some (d + x)" if "P v = Some u" for v u
    using dijkstra_pred [OF inv that] by blast
  ultimately show ?thesis
    using dijkstra_source [OF inv] dijkstra_has_pred [OF inv] dijkstra_acyclic [OF inv]
    unfolding shortest_tree_def by blast
qed

section \<open>Pruning the tree to the paths towards some targets\<close>

abbreviation pred_rel :: "('v \<rightharpoonup> 'v) \<Rightarrow> ('v \<times> 'v) set" where
  "pred_rel P \<equiv> {(u, v). P v = Some u}"

definition pruned :: "('v \<rightharpoonup> 'v) \<Rightarrow> 'v set \<Rightarrow> ('v \<times> 'v) set" where
  "pruned P T = {(u, v). P v = Some u \<and> (\<exists>t \<in> T. (v, t) \<in> (pred_rel P)\<^sup>*)}"

definition restrict_cost :: "('v \<Rightarrow> 'v \<Rightarrow> nat option) \<Rightarrow> ('v \<times> 'v) set \<Rightarrow> 'v \<Rightarrow> 'v \<Rightarrow> nat option" where
  "restrict_cost c E u v = (if (u, v) \<in> E then c u v else None)"

lemma walk_restrict_reach: "walk (restrict_cost c E) s v k \<Longrightarrow> (s, v) \<in> E\<^sup>*"
  by (induction rule: walk.induct)
    (auto simp: restrict_cost_def split: if_splits intro: rtrancl_into_rtrancl)

lemma wf_pred_rel:
  assumes "finite (dom P)" and "acyclic (pred_rel P)"
  shows "wf (pred_rel P)"
proof -
  have "pred_rel P \<subseteq> (\<lambda>v. (the (P v), v)) ` dom P" by force
  then have "finite (pred_rel P)" using assms(1) by (meson finite_imageI finite_subset)
  then show ?thesis using assms(2) by (rule finite_acyclic_wf)
qed

lemma pruned_walk:
  assumes tree: "shortest_tree c s D P" and fin: "finite (dom P)"
    and v: "D v = Some k" "\<exists>t \<in> T. (v, t) \<in> (pred_rel P)\<^sup>*"
  shows "walk (restrict_cost c (pruned P T)) s v k"
proof -
  have "wf (pred_rel P)" using tree fin by (auto intro: wf_pred_rel simp: shortest_tree_def)
  then show ?thesis
    using v
  proof (induction v arbitrary: k)
    case (less v)
    show ?case
    proof (cases "v = s")
      case True
      then have "k = 0" using less.prems(1) tree by (auto simp: shortest_tree_def intro: shortest_unique)
      with True show ?thesis by (simp add: walk_refl)
    next
      case False
      then obtain u where u: "P v = Some u" using tree less.prems(1) unfolding shortest_tree_def by blast
      then obtain d x where d: "D u = Some d" "c u v = Some x" "D v = Some (d + x)"
        using tree unfolding shortest_tree_def by blast
      have "\<exists>t \<in> T. (u, t) \<in> (pred_rel P)\<^sup>*"
        using less.prems(2) u by (auto intro: converse_rtrancl_into_rtrancl)
      with less.IH [of u d] u d have "walk (restrict_cost c (pruned P T)) s u d" by simp
      moreover have "restrict_cost c (pruned P T) u v = Some x"
        using u d less.prems(2) by (auto simp: restrict_cost_def pruned_def)
      ultimately show ?thesis using d less.prems(1) walk_step by fastforce
    qed
  qed
qed

lemma pruned_source:
  assumes tree: "shortest_tree c s D P" and fin: "finite (dom P)" and uv: "(u, v) \<in> pruned P T"
  shows "(s, u) \<in> (pruned P T)\<^sup>*"
proof -
  obtain d where d: "D u = Some d" using tree uv by (fastforce simp: pruned_def shortest_tree_def)
  have "\<exists>t \<in> T. (u, t) \<in> (pred_rel P)\<^sup>*"
    using uv by (auto simp: pruned_def intro: converse_rtrancl_into_rtrancl)
  from walk_restrict_reach [OF pruned_walk [OF tree fin d this]] show ?thesis .
qed

lemma pruned_target:
  assumes "(u, v) \<in> pruned P T"
  shows "\<exists>t \<in> T. (v, t) \<in> (pruned P T)\<^sup>*"
proof -
  obtain t where t: "t \<in> T" "(v, t) \<in> (pred_rel P)\<^sup>*" using assms by (auto simp: pruned_def)
  from t(2) have "(v, t) \<in> (pruned P T)\<^sup>*"
  proof (induction rule: converse_rtrancl_induct)
    case (step y z)
    then have "(y, z) \<in> pruned P T" using t(1) by (auto simp: pruned_def)
    with step.IH show ?case by (rule converse_rtrancl_into_rtrancl [rotated])
  qed simp
  with t(1) show ?thesis by blast
qed

lemma pruned_tree:
  assumes "shortest_tree c s D P"
  shows pruned_acyclic: "acyclic (pruned P T)"
    and pruned_edge: "(u, v) \<in> pruned P T \<Longrightarrow> c u v \<noteq> None"
    and pruned_not_source: "(u, s) \<notin> pruned P T"
    and pruned_unique: "(u, v) \<in> pruned P T \<Longrightarrow> (u', v) \<in> pruned P T \<Longrightarrow> u = u'"
proof -
  have "acyclic (pred_rel P)" using assms by (simp add: shortest_tree_def)
  then show "acyclic (pruned P T)" by (rule acyclic_subset) (auto simp: pruned_def)
  show "c u v \<noteq> None" if "(u, v) \<in> pruned P T"
    using assms that unfolding shortest_tree_def pruned_def by fastforce
  show "(u, s) \<notin> pruned P T"
    using assms by (simp add: shortest_tree_def pruned_def)
  show "u = u'" if "(u, v) \<in> pruned P T" "(u', v) \<in> pruned P T"
    using that by (simp add: pruned_def)
qed

text \<open>
  Renaming the vertices of a graph by \<open>f\<close>, with inverse \<open>h\<close>: the renamed graph \<open>c'\<close> has its
  edges among the vertices \<open>V\<close>.
\<close>

definition renames ::
  "('v \<Rightarrow> 'w) \<Rightarrow> ('w \<Rightarrow> 'v) \<Rightarrow> 'w set \<Rightarrow> ('v \<Rightarrow> 'v \<Rightarrow> nat option) \<Rightarrow> ('w \<Rightarrow> 'w \<Rightarrow> nat option) \<Rightarrow> bool"
where
  "renames f h V c c' \<longleftrightarrow>
     (\<forall>u v x. c u v = Some x \<longrightarrow> c' (f u) (f v) = Some x \<and> h (f u) = u \<and> h (f v) = v) \<and>
     (\<forall>u v x. c' u v = Some x \<longrightarrow> u \<in> V \<and> v \<in> V \<and> c (h u) (h v) = Some x) \<and>
     (\<forall>v \<in> V. f (h v) = v)"

lemma renames_walk:
  assumes r: "renames f h V c c'" and s: "h (f s) = s" "f s \<in> V"
  shows "walk c' (f s) v k \<longleftrightarrow> v \<in> V \<and> walk c s (h v) k"
proof
  assume w: "walk c' (f s) v k"
  then have "v \<in> V" by cases (use s r in \<open>auto simp: renames_def\<close>)
  moreover have "walk c (h (f s)) (h v) k"
    by (rule walk_rename [OF _ w]) (use r in \<open>simp add: renames_def\<close>)
  ultimately show "v \<in> V \<and> walk c s (h v) k" using s by simp
next
  assume "v \<in> V \<and> walk c s (h v) k"
  then show "walk c' (f s) v k"
    using walk_rename [of c c' f s "h v" k] r by (simp add: renames_def)
qed

lemma renames_shortest:
  assumes "renames f h V c c'" "h (f s) = s" "f s \<in> V"
  shows "shortest c' (f s) v k \<longleftrightarrow> v \<in> V \<and> shortest c s (h v) k"
  by (auto simp: shortest_def renames_walk [OF assms])

definition rename_pred :: "('v \<Rightarrow> 'w) \<Rightarrow> ('w \<Rightarrow> 'v) \<Rightarrow> 'w set \<Rightarrow> ('v \<rightharpoonup> 'v) \<Rightarrow> 'w \<rightharpoonup> 'w" where
  "rename_pred f h V P v = (if v \<in> V then map_option f (P (h v)) else None)"

lemma rename_pred_Some:
  assumes r: "renames f h V c c'" and P: "\<forall>v u. P v = Some u \<longrightarrow> c u v \<noteq> None"
  shows "rename_pred f h V P v = Some u \<longleftrightarrow> u \<in> V \<and> v \<in> V \<and> P (h v) = Some (h u)"
proof
  assume "rename_pred f h V P v = Some u"
  then obtain u0 where u0: "v \<in> V" "P (h v) = Some u0" "u = f u0"
    by (auto simp: rename_pred_def split: if_splits)
  then obtain x where x: "c u0 (h v) = Some x" using P by blast
  have "c' u v = Some x" "h u = u0" using r x u0 unfolding renames_def by metis+
  then show "u \<in> V \<and> v \<in> V \<and> P (h v) = Some (h u)" using r u0 by (auto simp: renames_def)
next
  assume "u \<in> V \<and> v \<in> V \<and> P (h v) = Some (h u)"
  then show "rename_pred f h V P v = Some u" using r by (auto simp: rename_pred_def renames_def)
qed

lemma rename_pred_image:
  assumes r: "renames f h V c c'" and P: "\<forall>v u. P v = Some u \<longrightarrow> c u v \<noteq> None" and uv: "P v = Some u"
  shows "rename_pred f h V P (f v) = Some (f u)" "h (f u) = u" "h (f v) = v" "f v \<in> V"
proof -
  obtain x where x: "c u v = Some x" using P uv by blast
  then show "h (f u) = u" "h (f v) = v" "f v \<in> V" using r unfolding renames_def by blast+
  then show "rename_pred f h V P (f v) = Some (f u)" using uv by (simp add: rename_pred_def)
qed

lemma shortest_tree_rename:
  assumes tree: "shortest_tree c s D P" and r: "renames f h V c c'" and s: "h (f s) = s" "f s \<in> V"
  shows "shortest_tree c' (f s) (\<lambda>v. if v \<in> V then D (h v) else None) (rename_pred f h V P)"
proof -
  define D' where "D' v = (if v \<in> V then D (h v) else None)" for v
  have P: "\<forall>v u. P v = Some u \<longrightarrow> c u v \<noteq> None"
    using tree unfolding shortest_tree_def by fastforce
  note pred = rename_pred_Some [OF r P]
  have short: "D' v = Some k \<longleftrightarrow> shortest c' (f s) v k" for v k
    using tree by (auto simp: D'_def renames_shortest [OF r s] shortest_tree_def)
  have "\<exists>d x. D' u = Some d \<and> c' u v = Some x \<and> D' v = Some (d + x)" if "rename_pred f h V P v = Some u" for u v
  proof -
    have uv: "u \<in> V" "v \<in> V" "P (h v) = Some (h u)" using that pred by blast+
    then obtain d x where dx: "D (h u) = Some d" "c (h u) (h v) = Some x" "D (h v) = Some (d + x)"
      using tree unfolding shortest_tree_def by blast
    then have "c' (f (h u)) (f (h v)) = Some x" using r by (simp add: renames_def)
    then have "c' u v = Some x" using r uv by (simp add: renames_def)
    with dx uv show ?thesis by (simp add: D'_def)
  qed
  moreover have "acyclic (pred_rel (rename_pred f h V P))"
  proof (rule acyclicI, intro allI notI)
    fix v assume v: "(v, v) \<in> (pred_rel (rename_pred f h V P))\<^sup>+"
    have "(h u, h w) \<in> (pred_rel P)\<^sup>+" if "(u, w) \<in> (pred_rel (rename_pred f h V P))\<^sup>+" for u w
      using that by induction (auto simp: pred intro: trancl_into_trancl)
    from this [OF v] show False using tree by (auto simp: shortest_tree_def acyclic_def)
  qed
  moreover have "rename_pred f h V P (f s) = None"
    using tree s by (simp add: rename_pred_def shortest_tree_def)
  moreover have "rename_pred f h V P v \<noteq> None" if "D' v \<noteq> None" "v \<noteq> f s" for v
  proof -
    have v: "v \<in> V" "D (h v) \<noteq> None" using that(1) by (auto simp: D'_def split: if_splits)
    then have "h v \<noteq> s" using that(2) r by (auto simp: renames_def)
    then have "P (h v) \<noteq> None" using v tree unfolding shortest_tree_def by blast
    then show ?thesis using v by (simp add: rename_pred_def)
  qed
  ultimately have "shortest_tree c' (f s) D' (rename_pred f h V P)"
    using short unfolding shortest_tree_def by blast
  then show ?thesis by (simp add: D'_def [abs_def])
qed

lemma pruned_rename:
  assumes r: "renames f h V c c'" and P: "\<forall>v u. P v = Some u \<longrightarrow> c u v \<noteq> None"
  shows "map_prod f f ` pruned P (h ` (T \<inter> V)) = pruned (rename_pred f h V P) T"
proof (intro subset_antisym subsetI)
  note pred = rename_pred_Some [OF r P] and img = rename_pred_image [OF r P]
  have up: "(f u, f v) \<in> (pred_rel (rename_pred f h V P))\<^sup>*" if "(u, v) \<in> (pred_rel P)\<^sup>*" for u v
    using that by induction (auto dest: img(1) intro: rtrancl_into_rtrancl)
  have down: "(h u, h v) \<in> (pred_rel P)\<^sup>* \<and> (u = v \<or> v \<in> V)" if "(u, v) \<in> (pred_rel (rename_pred f h V P))\<^sup>*" for u v
    using that by induction (auto simp: pred intro: rtrancl_into_rtrancl)
  {
    fix e assume "e \<in> map_prod f f ` pruned P (h ` (T \<inter> V))"
    then obtain u v t where e: "e = (f u, f v)" "P v = Some u" "t \<in> T" "t \<in> V" "(v, h t) \<in> (pred_rel P)\<^sup>*"
      by (auto simp: pruned_def)
    moreover have "f (h t) = t" using r e(4) by (simp add: renames_def)
    ultimately show "e \<in> pruned (rename_pred f h V P) T"
      using up [OF e(5)] img(1) [OF e(2)] by (auto simp: pruned_def)
  next
    fix e assume "e \<in> pruned (rename_pred f h V P) T"
    then obtain u v t where e: "e = (u, v)" "rename_pred f h V P v = Some u" "t \<in> T"
      "(v, t) \<in> (pred_rel (rename_pred f h V P))\<^sup>*"
      by (auto simp: pruned_def)
    have uv: "u \<in> V" "v \<in> V" "P (h v) = Some (h u)" using e(2) pred by blast+
    have "t \<in> V" using down [OF e(4)] uv(2) by blast
    then have "(h u, h v) \<in> pruned P (h ` (T \<inter> V))"
      using uv(3) down [OF e(4)] e(3) by (auto simp: pruned_def)
    moreover have "e = map_prod f f (h u, h v)" using r uv e(1) by (simp add: renames_def)
    ultimately show "e \<in> map_prod f f ` pruned P (h ` (T \<inter> V))" by blast
  }
qed

section \<open>A bound on shortest distances\<close>

lemma shortest_bound:
  assumes fin: "finite V" and V: "\<And>u v x. c u v = Some x \<Longrightarrow> v \<in> V \<and> x \<le> C" and s: "s \<in> V"
    and k: "shortest c s v k"
  shows "k \<le> (card V - 1) * C"
proof -
  define A where "A j = {v. \<exists>k \<le> j * C. walk c s v k}" for j
  have reach: "v \<in> V" if "walk c s v k" for v k
    using that s by induction (auto dest: V)
  then have AV: "A j \<subseteq> V" for j by (auto simp: A_def)
  have step: "w \<in> A (Suc j)" if v: "v \<in> A j" "c v w = Some x" for v w x j
  proof -
    obtain k where "k \<le> j * C" "walk c s v k" using v(1) by (auto simp: A_def)
    with v(2) V [OF v(2)] show ?thesis
      unfolding A_def mem_Collect_eq by (intro exI [of _ "k + x"]) (auto intro: walk_step)
  qed
  have closed: "v \<in> A j" if "A (Suc j) = A j" "walk c s v k" for v k j
    using that(2)
  proof induction
    case walk_refl
    then show ?case by (auto simp: A_def intro: walk.walk_refl)
  next
    case (walk_step u k v x)
    then show ?case using step that(1) by blast
  qed
  have grow: "(\<forall>v k. walk c s v k \<longrightarrow> v \<in> A j) \<or> Suc j \<le> card (A j)" for j
  proof (induction j)
    case 0
    have "s \<in> A 0" by (auto simp: A_def intro: walk_refl)
    then show ?case using AV [of 0] fin by (auto simp: Suc_le_eq card_gt_0_iff intro: finite_subset)
  next
    case (Suc j)
    have sub: "A j \<subseteq> A (Suc j)" by (auto simp: A_def intro: trans_le_add2)
    show ?case
    proof (cases "A (Suc j) = A j")
      case True
      then show ?thesis using closed by blast
    next
      case False
      then have "card (A j) < card (A (Suc j))"
        using sub AV [of "Suc j"] fin by (intro psubset_card_mono) (auto intro: finite_subset)
      with Suc sub show ?thesis by auto
    qed
  qed
  have "v \<in> A (card V - 1)"
  proof (rule ccontr)
    assume v: "v \<notin> A (card V - 1)"
    have "walk c s v k" using k by (simp add: shortest_def)
    with v grow [of "card V - 1"] have "card V \<le> card (A (card V - 1))" by auto
    then have "A (card V - 1) = V" using AV fin by (metis card_seteq)
    with v reach [OF \<open>walk c s v k\<close>] show False by simp
  qed
  then obtain k' where "k' \<le> (card V - 1) * C" "walk c s v k'" by (auto simp: A_def)
  with k show ?thesis by (auto simp: shortest_def intro: le_trans)
qed

end
