(* ===== verification/Forwarding.thy ===== *)
theory Forwarding
  imports Global_Graph Binary_Heap Shortest_Paths
begin

text \<open>
  \<^verbatim>\<open>GlobalGraph::compute_forwarding_table\<close> of \<^verbatim>\<open>stric-flow/src/routing.rs\<close>: Dijkstra's algorithm
  from the publisher on the \<^verbatim>\<open>u32\<close> link costs, then the union of the predecessor chains of the
  subscribers. Both loops are written as the code has them, so not returning is the value
  \<open>None\<close>; \<open>checks\<close> tells whether the build traps arithmetic overflow (a panic) or wraps around.
\<close>

section \<open>Definitions\<close>

record DijkstraState =
  ds_cost :: u32
  ds_node_idx :: nat

text \<open>\<^verbatim>\<open>Ord for DijkstraState\<close> compares the costs the other way round.\<close>

definition dijkstra_le :: "DijkstraState \<Rightarrow> DijkstraState \<Rightarrow> bool" where
  "dijkstra_le x y \<longleftrightarrow> ds_cost y \<le> ds_cost x"

record search =
  sr_distances :: "nat \<rightharpoonup> u32"
  sr_predecessors :: "nat \<rightharpoonup> nat"
  sr_heap :: "DijkstraState list"

definition dist_or_max :: "(nat \<rightharpoonup> u32) \<Rightarrow> nat \<Rightarrow> u32" where
  "dist_or_max D v = (case D v of Some d \<Rightarrow> d | None \<Rightarrow> u32_MAX)"

definition link_cost :: "bool \<Rightarrow> 'g GlobalGraph \<Rightarrow> string \<Rightarrow> LinkWeight \<Rightarrow> u32 exec" where
  "link_cost checks gg target_name w =
     (case hm_get (gg_node_metadata gg) target_name of
        Some meta \<Rightarrow> (if nd_role meta = NODE_ROLE_AGGREGATOR then rust_add checks (lw_hop_cost w) 10000
                      else Ret (lw_hop_cost w))
      | None \<Rightarrow> Ret (lw_hop_cost w))"

definition relax ::
  "bool \<Rightarrow> 'g graph_ops \<Rightarrow> 'g GlobalGraph \<Rightarrow> u32 \<Rightarrow> nat \<Rightarrow> nat \<times> LinkWeight \<Rightarrow> search \<Rightarrow> search exec"
where
  "relax checks ops gg cost node_idx e st =
     (let (target_idx, w) = e in
      exec_bind (dg_index ops (gg_graph gg) target_idx) (\<lambda>target_name.
      exec_bind (link_cost checks gg target_name w) (\<lambda>edge_cost.
      exec_bind (rust_add checks cost edge_cost) (\<lambda>next_cost.
        if next_cost < dist_or_max (sr_distances st) target_idx
        then Ret \<lparr>sr_distances = (sr_distances st)(target_idx \<mapsto> next_cost),
                  sr_predecessors = (sr_predecessors st)(target_idx \<mapsto> node_idx),
                  sr_heap = heap_push dijkstra_le \<lparr>ds_cost = next_cost, ds_node_idx = target_idx\<rparr> (sr_heap st)\<rparr>
        else Ret st))))"

text \<open>
  One iteration of \<^verbatim>\<open>while let Some(..) = heap.pop()\<close>: \<open>None\<close> leaves the loop; an entry above
  the recorded distance is skipped (\<^verbatim>\<open>continue\<close>).
\<close>

definition dijkstra_step ::
  "bool \<Rightarrow> 'g graph_ops \<Rightarrow> 'g GlobalGraph \<Rightarrow> search \<Rightarrow> search exec option"
where
  "dijkstra_step checks ops gg st =
     (case heap_pop dijkstra_le (sr_heap st) of
        None \<Rightarrow> None
      | Some (x, h) \<Rightarrow>
          if ds_cost x > dist_or_max (sr_distances st) (ds_node_idx x)
          then Some (Ret (st\<lparr>sr_heap := h\<rparr>))
          else Some (exec_fold (relax checks ops gg (ds_cost x) (ds_node_idx x))
                       (dg_edges ops (gg_graph gg) (ds_node_idx x)) (st\<lparr>sr_heap := h\<rparr>)))"

partial_function (option) dijkstra_loop ::
  "bool \<Rightarrow> 'g graph_ops \<Rightarrow> 'g GlobalGraph \<Rightarrow> search \<Rightarrow> search exec option"
where
  "dijkstra_loop checks ops gg st =
     (case dijkstra_step checks ops gg st of
        None \<Rightarrow> Some (Ret st)
      | Some Panic \<Rightarrow> Some Panic
      | Some (Ret st') \<Rightarrow> dijkstra_loop checks ops gg st')"

definition dijkstra_start :: "nat \<Rightarrow> search" where
  "dijkstra_start source_idx =
     \<lparr>sr_distances = [source_idx \<mapsto> 0], sr_predecessors = Map.empty,
      sr_heap = heap_push dijkstra_le \<lparr>ds_cost = 0, ds_node_idx = source_idx\<rparr> []\<rparr>"

text \<open>\<^verbatim>\<open>forwarding_tree.entry(parent).or_default().insert(child)\<close>.\<close>

definition tree_insert ::
  "string \<Rightarrow> string \<Rightarrow> (string, ForwardingTargets) hmap \<Rightarrow> (string, ForwardingTargets) hmap"
where
  "tree_insert parent_name child_name t =
     hm_insert parent_name (hs_insert child_name (case hm_get t parent_name of Some ts \<Rightarrow> ts | None \<Rightarrow> [])) t"

text \<open>
  One iteration of \<^verbatim>\<open>while let Some(&parent_idx) = predecessors.get(..)\<close>: \<open>None\<close> when there is no
  predecessor, otherwise the parent and the extended tree.
\<close>

definition walk_step_up ::
  "'g graph_ops \<Rightarrow> 'g \<Rightarrow> (nat \<rightharpoonup> nat) \<Rightarrow> nat \<Rightarrow> (string, ForwardingTargets) hmap \<Rightarrow>
   (nat \<times> (string, ForwardingTargets) hmap) exec option"
where
  "walk_step_up ops g predecessors current_idx tree =
     map_option (\<lambda>parent_idx.
        exec_bind (dg_index ops g parent_idx) (\<lambda>parent_name.
        exec_bind (dg_index ops g current_idx) (\<lambda>current_name.
          Ret (parent_idx, tree_insert parent_name current_name tree))))
       (predecessors current_idx)"

partial_function (option) walk_up ::
  "'g graph_ops \<Rightarrow> 'g \<Rightarrow> (nat \<rightharpoonup> nat) \<Rightarrow> nat \<Rightarrow> nat \<Rightarrow> (string, ForwardingTargets) hmap \<Rightarrow>
   (string, ForwardingTargets) hmap exec option"
where
  "walk_up ops g predecessors source_idx current_idx tree =
     (case walk_step_up ops g predecessors current_idx tree of
        None \<Rightarrow> Some (Ret tree)
      | Some Panic \<Rightarrow> Some Panic
      | Some (Ret (parent_idx, tree')) \<Rightarrow>
          if parent_idx = source_idx then Some (Ret tree')
          else walk_up ops g predecessors source_idx parent_idx tree')"

fun walk_subscribers ::
  "'g graph_ops \<Rightarrow> 'g GlobalGraph \<Rightarrow> (nat \<rightharpoonup> nat) \<Rightarrow> nat \<Rightarrow> string list \<Rightarrow>
   (string, ForwardingTargets) hmap \<Rightarrow> (string, ForwardingTargets) hmap exec option"
where
  "walk_subscribers ops gg predecessors source_idx [] tree = Some (Ret tree)"
| "walk_subscribers ops gg predecessors source_idx (sub # subs) tree =
     (case gg_node_indices gg sub of
        None \<Rightarrow> walk_subscribers ops gg predecessors source_idx subs tree
      | Some idx \<Rightarrow>
          (case walk_up ops (gg_graph gg) predecessors source_idx idx tree of
             None \<Rightarrow> None
           | Some Panic \<Rightarrow> Some Panic
           | Some (Ret tree') \<Rightarrow> walk_subscribers ops gg predecessors source_idx subs tree'))"

text \<open>
  The subscribers are a \<^verbatim>\<open>HashSet\<close>, given as the list of its elements in iteration order; the
  final conversion keeps every entry and turns its set of targets into a vector.
\<close>

definition compute_forwarding_table ::
  "bool \<Rightarrow> 'g graph_ops \<Rightarrow> 'g GlobalGraph \<Rightarrow> string \<Rightarrow> string list \<Rightarrow>
   (string, ForwardingTargets) hmap exec option"
where
  "compute_forwarding_table checks ops gg source subscribers =
     (if subscribers = [] then Some (Ret [])
      else case gg_node_indices gg source of
        None \<Rightarrow> Some (Ret [])
      | Some source_idx \<Rightarrow>
          (case dijkstra_loop checks ops gg (dijkstra_start source_idx) of
             None \<Rightarrow> None
           | Some Panic \<Rightarrow> Some Panic
           | Some (Ret st) \<Rightarrow> walk_subscribers ops gg (sr_predecessors st) source_idx subscribers []))"

interpretation dijkstra_order: total_preorder dijkstra_le
  by unfold_locales (auto simp: dijkstra_le_def)

section \<open>Costs of the mesh\<close>

text \<open>The cost of a link towards \<open>v\<close>: its hop cost, plus the penalty for aggregators.\<close>

definition aggregator_penalty :: "topology \<Rightarrow> string \<Rightarrow> nat" where
  "aggregator_penalty t v =
     (case t_meta t v of
        Some m \<Rightarrow> if nd_role m = NODE_ROLE_AGGREGATOR then 10000 else 0
      | None \<Rightarrow> 0)"

definition mesh_cost :: "topology \<Rightarrow> string \<Rightarrow> string \<Rightarrow> nat option" where
  "mesh_cost t u v = map_option (\<lambda>w. unat (lw_hop_cost w) + aggregator_penalty t v) (t_link t u v)"

definition index_cost ::
  "('g \<Rightarrow> string list) \<Rightarrow> ('g \<Rightarrow> nat \<Rightarrow> nat \<Rightarrow> LinkWeight option) \<Rightarrow> 'g GlobalGraph \<Rightarrow> nat \<Rightarrow> nat \<Rightarrow> nat option"
where
  "index_cost wts edge gg i j =
     map_option (\<lambda>w. unat (lw_hop_cost w) + aggregator_penalty (topology_of edge gg) (wts (gg_graph gg) ! j))
       (edge (gg_graph gg) i j)"

text \<open>
  No path cost the search can form exceeds the largest \<^verbatim>\<open>u32\<close>: the shortest distance to a node
  plus the cost of one more link.
\<close>

definition fits_u32 :: "('v \<Rightarrow> 'v \<Rightarrow> nat option) \<Rightarrow> 'v \<Rightarrow> bool" where
  "fits_u32 c s \<longleftrightarrow> (\<forall>u v k x. shortest c s u k \<longrightarrow> c u v = Some x \<longrightarrow> k + x < 2 ^ 32 - 1)"

lemma link_cost_exact:
  assumes "unat (lw_hop_cost w) + aggregator_penalty (topology_of edge gg) v < 2 ^ 32"
  obtains y where "link_cost checks gg v w = Ret y"
    "unat y = unat (lw_hop_cost w) + aggregator_penalty (topology_of edge gg) v"
proof (cases "hm_get (gg_node_metadata gg) v")
  case None
  then show thesis
    using that by (simp add: link_cost_def aggregator_penalty_def topology_of_def)
next
  case (Some meta)
  show thesis
  proof (cases "nd_role meta = NODE_ROLE_AGGREGATOR")
    case True
    then have "unat (lw_hop_cost w) + unat (10000 :: u32) < 2 ^ 32"
      using assms Some by (simp add: aggregator_penalty_def topology_of_def)
    with rust_add_exact(1) [of "lw_hop_cost w" 10000 checks] rust_add_exact(2) [of "lw_hop_cost w" 10000] Some True that show thesis
      by (simp add: link_cost_def aggregator_penalty_def topology_of_def)
  next
    case False
    with Some that show thesis by (simp add: link_cost_def aggregator_penalty_def topology_of_def)
  qed
qed

lemma map_exec_eq_Ret: "map_exec f m = Ret y \<longleftrightarrow> (\<exists>x. m = Ret x \<and> y = f x)"
  by (cases m) auto

section \<open>The search loop\<close>

abbreviation nat_distances :: "search \<Rightarrow> nat \<rightharpoonup> nat" where
  "nat_distances st \<equiv> (\<lambda>v. map_option unat (sr_distances st v))"

definition heap_entries :: "search \<Rightarrow> (nat \<times> nat) set" where
  "heap_entries st = (\<lambda>x. (unat (ds_cost x), ds_node_idx x)) ` set (sr_heap st)"

text \<open>The potential that every iteration decreases: an improvement pays for its push.\<close>

definition potential :: "nat \<Rightarrow> search \<Rightarrow> nat" where
  "potential n st = 2 * (\<Sum>v<n. unat (dist_or_max (sr_distances st) v)) + length (sr_heap st)"

lemma potential_improve:
  assumes "v < n" and "d < dist_or_max (sr_distances st) v"
  shows "potential n \<lparr>sr_distances = (sr_distances st)(v \<mapsto> d), sr_predecessors = P',
           sr_heap = heap_push dijkstra_le x (sr_heap st)\<rparr> < potential n st"
proof -
  define D h where "D = sr_distances st" and "h = sr_heap st"
  have "(\<Sum>w<n. unat (dist_or_max (D(v \<mapsto> d)) w)) < (\<Sum>w<n. unat (dist_or_max D w))"
  proof (rule sum_strict_mono_ex1)
    show "\<forall>w \<in> {..<n}. unat (dist_or_max (D(v \<mapsto> d)) w) \<le> unat (dist_or_max D w)"
      using assms(2) by (auto simp: D_def dist_or_max_def word_less_nat_alt)
    show "\<exists>w \<in> {..<n}. unat (dist_or_max (D(v \<mapsto> d)) w) < unat (dist_or_max D w)"
      using assms by (intro bexI [of _ v]) (auto simp: D_def dist_or_max_def word_less_nat_alt)
  qed simp
  moreover have "length (heap_push dijkstra_le x h) = Suc (length h)"
    by (metis dijkstra_order.heap.elems_push size_mset size_add_mset)
  ultimately show ?thesis by (simp add: potential_def D_def h_def)
qed

lemma heap_pop_length: "heap_pop dijkstra_le h = Some (x, h') \<Longrightarrow> length h = Suc (length h')"
  by (metis dijkstra_order.heap.pop_elems size_mset size_add_mset)

lemma heap_pop_set: "heap_pop dijkstra_le h = Some (x, h') \<Longrightarrow> set h = insert x (set h')"
  by (metis dijkstra_order.heap.pop_elems set_mset_add_mset_insert set_mset_mset)

lemma heap_push_set: "set (heap_push dijkstra_le x h) = insert x (set h)"
  by (metis dijkstra_order.heap.elems_push set_mset_add_mset_insert set_mset_mset)

lemma relax_potential:
  assumes "fst e < n" and "relax checks ops gg cost u e st = Ret st'"
  shows "potential n st' \<le> potential n st"
  using assms potential_improve [of "fst e" n _ st]
  by (cases e) (auto simp: relax_def exec_bind_eq_Ret split: if_splits intro: less_imp_le)

lemma relax_fold_potential:
  assumes "\<forall>e \<in> set es. fst e < n" and "exec_fold (relax checks ops gg cost u) es st = Ret st'"
  shows "potential n st' \<le> potential n st"
  using assms
proof (induction es arbitrary: st)
  case (Cons e es)
  then obtain st1 where "relax checks ops gg cost u e st = Ret st1"
    "exec_fold (relax checks ops gg cost u) es st1 = Ret st'"
    by (auto simp: exec_bind_eq_Ret)
  with Cons.IH [of st1] relax_potential [of e n] Cons.prems(1) show ?case
    by (fastforce intro: le_trans)
qed simp

context topology_graph
begin

text \<open>The search loop ends whatever the costs are, wrapped sums included.\<close>

lemma dijkstra_loop_total:
  assumes "wf gg"
  shows "\<exists>r. dijkstra_loop checks ops gg st = Some r"
proof (induction "potential (length (wts (gg_graph gg))) st" arbitrary: st rule: less_induct)
  case less
  define n where "n = length (wts (gg_graph gg))"
  have inv: "inv (gg_graph gg)" using assms by (simp add: gg_wf_def)
  show ?case
  proof (cases "heap_pop dijkstra_le (sr_heap st)")
    case None
    then show ?thesis by (subst dijkstra_loop.simps) (simp add: dijkstra_step_def)
  next
    case (Some p)
    obtain x h where p: "p = (x, h)" by (cases p)
    have pop: "potential n (st\<lparr>sr_heap := h\<rparr>) < potential n st"
      using heap_pop_length [of "sr_heap st" x h] Some p by (simp add: potential_def)
    have "fst e < n" if "e \<in> set (dg_edges ops (gg_graph gg) u)" for e u
      using that unfolding edges [OF inv] by (auto simp: n_def dest: edge_range [OF inv])
    then have "potential n st' < potential n st"
      if "exec_fold (relax checks ops gg (ds_cost x) (ds_node_idx x))
           (dg_edges ops (gg_graph gg) (ds_node_idx x)) (st\<lparr>sr_heap := h\<rparr>) = Ret st'" for st'
      using relax_fold_potential [OF _ that] pop by (meson le_less_trans)
    then show ?thesis
      using less [folded n_def] pop Some p
      by (subst dijkstra_loop.simps) (auto simp: dijkstra_step_def split: exec.split)
  qed
qed

text \<open>The invariant of the search, on the search state.\<close>

abbreviation search_inv where
  "search_inv gg s m F R st \<equiv>
     dijkstra_inv (index_cost wts edge gg) s m F R (nat_distances st) (sr_predecessors st) (heap_entries st) \<and>
     heap_inv dijkstra_le (sr_heap st)"

lemma relax_correct:
  assumes wf: "wf gg" and e: "edge (gg_graph gg) u v = Some w" and x: "index_cost wts edge gg u v = Some x"
    and fits: "unat cost + x < 2 ^ 32 - 1"
    and u: "u \<in> F" "sr_distances st u = Some cost"
    and inv: "search_inv gg s (unat cost) F R st"
  obtains st' where "relax checks ops gg cost u (v, w) st = Ret st'" "sr_distances st' u = Some cost"
    "search_inv gg s (unat cost) F (R - {(u, v)}) st'"
proof -
  define m where "m = unat cost"
  have g: "inv (gg_graph gg)" using wf by (simp add: gg_wf_def)
  have v: "dg_index ops (gg_graph gg) v = Ret (wts (gg_graph gg) ! v)"
    using edge_range [OF g e] by (simp add: index [OF g])
  have x': "x = unat (lw_hop_cost w) + aggregator_penalty (topology_of edge gg) (wts (gg_graph gg) ! v)"
    using x e by (simp add: index_cost_def)
  obtain y where y: "link_cost checks gg (wts (gg_graph gg) ! v) w = Ret y" "unat y = x"
    using link_cost_exact [of w edge gg "wts (gg_graph gg) ! v" checks] fits x' by auto
  have add: "rust_add checks cost y = Ret (cost + y)" "unat (cost + y) = m + x"
    using rust_add_exact(1) [of cost y checks] rust_add_exact(2) [of cost y] fits y(2) by (simp_all add: m_def)
  have step: "relax checks ops gg cost u (v, w) st =
     (if cost + y < dist_or_max (sr_distances st) v
      then Ret \<lparr>sr_distances = (sr_distances st)(v \<mapsto> cost + y),
                sr_predecessors = (sr_predecessors st)(v \<mapsto> u),
                sr_heap = heap_push dijkstra_le \<lparr>ds_cost = cost + y, ds_node_idx = v\<rparr> (sr_heap st)\<rparr>
      else Ret st)"
    using v y(1) add(1) by (simp add: relax_def)
  show thesis
  proof (cases "cost + y < dist_or_max (sr_distances st) v")
    case True
    have better: "m + x < e" if "nat_distances st v = Some e" for e
      using True that add(2) by (auto simp: dist_or_max_def word_less_nat_alt)
    have D: "(\<lambda>w. map_option unat (if w = v then Some (cost + y) else sr_distances st w)) =
        (nat_distances st)(v \<mapsto> m + x)"
      by (auto simp: add(2))
    have "v \<noteq> u" using better [of m] u(2) by (auto simp: m_def)
    moreover have "dijkstra_inv (index_cost wts edge gg) s m F (R - {(u, v)}) ((nat_distances st)(v \<mapsto> m + x))
        ((sr_predecessors st)(v \<mapsto> u)) (insert (m + x, v) (heap_entries st))"
      using inv u x better by (intro dijkstra_inv_improve) (auto simp: m_def)
    ultimately show thesis
      using True step u(2) inv
      by (intro that [of "\<lparr>sr_distances = (sr_distances st)(v \<mapsto> cost + y),
          sr_predecessors = (sr_predecessors st)(v \<mapsto> u),
          sr_heap = heap_push dijkstra_le \<lparr>ds_cost = cost + y, ds_node_idx = v\<rparr> (sr_heap st)\<rparr>"])
        (auto simp: D [unfolded m_def] heap_entries_def heap_push_set add(2) m_def dijkstra_order.heap.inv_push)
  next
    case False
    have "\<exists>e. nat_distances st v = Some e \<and> e \<le> m + x"
      using False add(2) fits by (auto simp: dist_or_max_def word_less_nat_alt m_def split: option.splits)
    then have "dijkstra_inv (index_cost wts edge gg) s m F (R - {(u, v)}) (nat_distances st)
        (sr_predecessors st) (heap_entries st)"
      using inv u(2) x by (auto intro: dijkstra_inv_keep simp: m_def)
    with False step u(2) inv show thesis by (intro that [of st]) (auto simp: m_def)
  qed
qed

lemma relax_fold_correct:
  assumes wf: "wf gg" and es: "\<forall>(v, w) \<in> set es. edge (gg_graph gg) u v = Some w"
    and fits: "\<And>v x. index_cost wts edge gg u v = Some x \<Longrightarrow> unat cost + x < 2 ^ 32 - 1"
    and u: "u \<in> F" "sr_distances st u = Some cost"
    and inv: "search_inv gg s (unat cost) F R st"
  shows "\<exists>st'. exec_fold (relax checks ops gg cost u) es st = Ret st' \<and>
           search_inv gg s (unat cost) F (R - {(u, v) | v. v \<in> fst ` set es}) st'"
  using es u(2) inv
proof (induction es arbitrary: st R)
  case (Cons e es)
  obtain v w where e: "e = (v, w)" by (cases e)
  with Cons.prems have vw: "edge (gg_graph gg) u v = Some w" by simp
  then obtain x where x: "index_cost wts edge gg u v = Some x" by (simp add: index_cost_def)
  obtain st1 where st1: "relax checks ops gg cost u (v, w) st = Ret st1" "sr_distances st1 u = Some cost"
    "search_inv gg s (unat cost) F (R - {(u, v)}) st1"
    using relax_correct [OF wf vw x fits [OF x] u(1) Cons.prems(2,3)] .
  have "R - {(u, v)} - {(u, v) | v. v \<in> fst ` set es} = R - {(u, v) | v. v \<in> fst ` set (e # es)}"
    by (auto simp: e)
  moreover have "\<exists>st'. exec_fold (relax checks ops gg cost u) es st1 = Ret st' \<and>
      search_inv gg s (unat cost) F (R - {(u, v)} - {(u, v) | v. v \<in> fst ` set es}) st'"
    using Cons.prems(1) by (intro Cons.IH [OF _ st1(2,3)]) simp
  ultimately show ?case using st1(1) e by simp
qed simp

lemma dijkstra_loop_correct:
  assumes wf: "wf gg" and fits: "fits_u32 (index_cost wts edge gg) s"
    and "search_inv gg s m F {} st"
  shows "\<exists>st'. dijkstra_loop checks ops gg st = Some (Ret st') \<and>
           shortest_tree (index_cost wts edge gg) s (nat_distances st') (sr_predecessors st')"
  using assms(3)
proof (induction "potential (length (wts (gg_graph gg))) st" arbitrary: st m F rule: less_induct)
  case less
  define n where "n = length (wts (gg_graph gg))"
  have g: "inv (gg_graph gg)" using wf by (simp add: gg_wf_def)
  note inv = less.prems
  show ?case
  proof (cases "heap_pop dijkstra_le (sr_heap st)")
    case None
    then have "heap_entries st = {}"
      using dijkstra_order.heap.pop_None by (simp add: heap_entries_def)
    with inv None show ?thesis
      by (subst dijkstra_loop.simps) (auto simp: dijkstra_step_def intro: dijkstra_inv_final)
  next
    case (Some p)
    obtain x h where "p = (x, h)" by (cases p)
    with Some have pop: "heap_pop dijkstra_le (sr_heap st) = Some (x, h)" by simp
    define u k where "u = ds_node_idx x" and "k = unat (ds_cost x)"
    define st1 where "st1 = st\<lparr>sr_heap := h\<rparr>"
    have H: "heap_entries st = insert (k, u) (heap_entries st1)"
      using heap_pop_set [OF pop] by (simp add: heap_entries_def k_def u_def st1_def)
    have h: "heap_inv dijkstra_le h" using inv pop dijkstra_order.heap.pop_inv by blast
    have least: "k \<le> j" if "(j, v) \<in> heap_entries st1" for j v
      using that dijkstra_order.heap.pop_greatest [OF _ pop] inv
      by (auto simp: heap_entries_def st1_def dijkstra_le_def k_def word_le_nat_alt)
    have less1: "potential n st1 < potential n st"
      using heap_pop_length [OF pop] by (simp add: potential_def st1_def)
    obtain d where d: "sr_distances st u = Some d" "unat d \<le> k"
      using dijkstra_heap [of "index_cost wts edge gg" s m F "{}"  _ _ "heap_entries st" k u] inv
      by (auto simp: H)
    have D1: "sr_distances st1 = sr_distances st" "sr_predecessors st1 = sr_predecessors st"
      by (simp_all add: st1_def)
    show ?thesis
    proof (cases "ds_cost x > dist_or_max (sr_distances st) u")
      case True
      then have "unat d < k" using d by (simp add: dist_or_max_def k_def word_less_nat_alt)
      then have "search_inv gg s m F {} st1"
        using inv d h dijkstra_inv_stale [OF _ H, of "index_cost wts edge gg" s m F "nat_distances st" _ "unat d"]
        by (auto simp: D1) (simp add: st1_def)
      from less.hyps [OF less1 [unfolded n_def] this] True pop show ?thesis
        by (subst dijkstra_loop.simps) (simp add: dijkstra_step_def u_def st1_def)
    next
      case False
      then have dk: "d = ds_cost x" using d by (auto simp: dist_or_max_def k_def simp flip: word_le_nat_alt)
      then have Du: "nat_distances st u = Some k" "sr_distances st1 u = Some (ds_cost x)"
        using d by (simp_all add: k_def D1)
      have "search_inv gg s k (insert u F) {(u, w) | w. index_cost wts edge gg u w \<noteq> None} st1"
        using dijkstra_inv_expand [OF conjunct1 [OF inv] H least Du(1)] h by (simp add: D1) (simp add: st1_def)
      moreover have "shortest (index_cost wts edge gg) s u k"
        using least by (intro dijkstra_pop_shortest [OF conjunct1 [OF inv] Du(1)]) (auto simp: H)
      then have "unat (ds_cost x) + y < 2 ^ 32 - 1" if "index_cost wts edge gg u v = Some y" for v y
        using fits that unfolding fits_u32_def k_def by blast
      moreover have "\<forall>(v, w) \<in> set (dg_edges ops (gg_graph gg) u). edge (gg_graph gg) u v = Some w"
        by (auto simp: edges [OF g])
      ultimately obtain st2 where st2:
        "exec_fold (relax checks ops gg (ds_cost x) u) (dg_edges ops (gg_graph gg) u) st1 = Ret st2"
        "search_inv gg s k (insert u F) ({(u, w) | w. index_cost wts edge gg u w \<noteq> None} -
           {(u, v) | v. v \<in> fst ` set (dg_edges ops (gg_graph gg) u)}) st2"
        using relax_fold_correct [OF wf, of _ u "ds_cost x" "insert u F" st1 s _ checks] Du(2)
        unfolding k_def by blast
      have "{(u, w) | w. index_cost wts edge gg u w \<noteq> None} -
           {(u, v) | v. v \<in> fst ` set (dg_edges ops (gg_graph gg) u)} = {}"
        by (force simp: edges [OF g] index_cost_def)
      then have inv2: "search_inv gg s k (insert u F) {} st2" using st2(2) by metis
      have "fst e < n" if "e \<in> set (dg_edges ops (gg_graph gg) u)" for e
        using that unfolding edges [OF g] by (auto simp: n_def dest: edge_range [OF g])
      then have "potential n st2 < potential n st"
        using relax_fold_potential [OF _ st2(1)] less1 by (meson le_less_trans)
      from less.hyps [OF this [unfolded n_def] inv2] False pop st2(1) show ?thesis
        by (subst dijkstra_loop.simps) (simp add: dijkstra_step_def u_def st1_def)
    qed
  qed
qed

lemma dijkstra_correct:
  assumes "wf gg" and "fits_u32 (index_cost wts edge gg) s"
  shows "\<exists>st'. dijkstra_loop checks ops gg (dijkstra_start s) = Some (Ret st') \<and>
           shortest_tree (index_cost wts edge gg) s (nat_distances st') (sr_predecessors st')"
proof (rule dijkstra_loop_correct [OF assms])
  have "nat_distances (dijkstra_start s) = [s \<mapsto> 0]"
    by (auto simp: dijkstra_start_def)
  moreover have "heap_entries (dijkstra_start s) = {(0, s)}"
    by (simp add: dijkstra_start_def heap_entries_def heap_push_set)
  ultimately show "search_inv gg s 0 {} {} (dijkstra_start s)"
    using dijkstra_inv_init [of "index_cost wts edge gg" s] dijkstra_order.heap.inv_push dijkstra_order.heap.inv_empty
    by (simp add: dijkstra_start_def)
qed

end

section \<open>From predecessors to the table\<close>

definition tree_edges :: "(string, ForwardingTargets) hmap \<Rightarrow> (string \<times> string) set" where
  "tree_edges t = {(p, c). \<exists>ts. hm_get t p = Some ts \<and> c \<in> set ts}"

definition tree_wf :: "(string, ForwardingTargets) hmap \<Rightarrow> bool" where
  "tree_wf t \<longleftrightarrow> hm_wf t \<and> (\<forall>p ts. hm_get t p = Some ts \<longrightarrow> distinct ts \<and> ts \<noteq> [])"

lemma tree_empty [simp]: "tree_wf []" "tree_edges [] = {}"
  by (simp_all add: tree_wf_def tree_edges_def)

lemma tree_insert_simps [simp]:
  "tree_edges (tree_insert p c t) = insert (p, c) (tree_edges t)"
  "tree_wf t \<Longrightarrow> tree_wf (tree_insert p c t)"
proof -
  show "tree_edges (tree_insert p c t) = insert (p, c) (tree_edges t)"
    by (auto simp: tree_edges_def tree_insert_def split: option.splits if_splits)
  show "tree_wf (tree_insert p c t)" if "tree_wf t"
    using that by (auto simp: tree_wf_def tree_insert_def hs_insert_def split: option.splits)
qed

lemma walk_up_correct:
  assumes "wf (pred_rel P)"
    and idx: "\<And>i. i < n \<Longrightarrow> dg_index ops g i = Ret (nm i)"
    and bound: "\<And>u v. P v = Some u \<Longrightarrow> u < n \<and> v < n" and s: "P s = None"
    and "tree_wf t"
  shows "\<exists>t'. walk_up ops g P s i t = Some (Ret t') \<and> tree_wf t' \<and>
           tree_edges t' = tree_edges t \<union> map_prod nm nm ` pruned P {i}"
  using assms(1,5)
proof (induction i arbitrary: t)
  case (less i)
  show ?case
  proof (cases "P i")
    case None
    then have "pruned P {i} = {}" by (auto simp: pruned_def elim: rtranclE)
    with None less.prems show ?thesis by (subst walk_up.simps) (simp add: walk_step_up_def)
  next
    case (Some p)
    define t1 where "t1 = tree_insert (nm p) (nm i) t"
    have chain: "(v, i) \<in> (pred_rel P)\<^sup>* \<longleftrightarrow> v = i \<or> (v, p) \<in> (pred_rel P)\<^sup>*" for v
      using Some by (auto elim: rtranclE intro: rtrancl_into_rtrancl)
    have pr: "pruned P {i} = insert (p, i) (pruned P {p})"
      using Some by (auto simp: pruned_def chain)
    have names: "map_prod nm nm ` pruned P {i} =
        insert (nm p, nm i) (map_prod nm nm ` pruned P {p})"
      unfolding pr by auto
    have step: "walk_up ops g P s i t = (if p = s then Some (Ret t1) else walk_up ops g P s p t1)"
      using Some bound [OF Some] by (subst walk_up.simps) (simp add: walk_step_up_def idx t1_def)
    have t1: "tree_wf t1" "tree_edges t1 = insert (nm p, nm i) (tree_edges t)"
      using less.prems by (simp_all add: t1_def)
    show ?thesis
    proof (cases "p = s")
      case True
      then have "pruned P {p} = {}" using s by (auto simp: pruned_def elim: rtranclE)
      then show ?thesis using True t1 names by (simp add: step)
    next
      case False
      then show ?thesis using less.IH [of p t1] Some t1 names by (simp add: step)
    qed
  qed
qed

lemma pruned_insert: "pruned P (insert t T) = pruned P {t} \<union> pruned P T"
  by (auto simp: pruned_def)

lemma walk_subscribers_correct:
  assumes wf: "wf (pred_rel P)"
    and idx: "\<And>i. i < n \<Longrightarrow> dg_index ops (gg_graph gg) i = Ret (nm i)"
    and bound: "\<And>u v. P v = Some u \<Longrightarrow> u < n \<and> v < n" and s: "P s = None"
    and "tree_wf t"
  shows "\<exists>t'. walk_subscribers ops gg P s subs t = Some (Ret t') \<and> tree_wf t' \<and>
           tree_edges t' = tree_edges t \<union>
             map_prod nm nm ` pruned P {i. \<exists>sub \<in> set subs. gg_node_indices gg sub = Some i}"
  using assms(5)
proof (induction subs arbitrary: t)
  case Nil
  then show ?case by (simp add: pruned_def)
next
  case (Cons sub subs)
  show ?case
  proof (cases "gg_node_indices gg sub")
    case None
    then show ?thesis using Cons by simp
  next
    case (Some i)
    obtain t1 where t1: "walk_up ops (gg_graph gg) P s i t = Some (Ret t1)" "tree_wf t1"
      "tree_edges t1 = tree_edges t \<union> map_prod nm nm ` pruned P {i}"
      using walk_up_correct [OF wf idx bound s Cons.prems, of i] by blast
    obtain t2 where t2: "walk_subscribers ops gg P s subs t1 = Some (Ret t2)" "tree_wf t2"
      "tree_edges t2 = tree_edges t1 \<union>
         map_prod nm nm ` pruned P {i. \<exists>sub \<in> set subs. gg_node_indices gg sub = Some i}"
      using Cons.IH [OF t1(2)] by blast
    have "{j. \<exists>x \<in> set (sub # subs). gg_node_indices gg x = Some j} =
        insert i {j. \<exists>x \<in> set subs. gg_node_indices gg x = Some j}"
      using Some by auto
    then have "pruned P {j. \<exists>x \<in> set (sub # subs). gg_node_indices gg x = Some j} =
        pruned P {i} \<union> pruned P {j. \<exists>x \<in> set subs. gg_node_indices gg x = Some j}"
      by (simp only: pruned_insert [of P i "{j. \<exists>x \<in> set subs. gg_node_indices gg x = Some j}"])
    with t2(3) t1(3) have "tree_edges t2 = tree_edges t \<union>
        map_prod nm nm ` pruned P {j. \<exists>x \<in> set (sub # subs). gg_node_indices gg x = Some j}"
      by (simp only: image_Un Un_assoc)
    with Some t1(1) t2(1,2) show ?thesis by simp
  qed
qed

context topology_graph
begin

lemma index_renames:
  assumes wf: "wf gg"
  shows "renames (\<lambda>i. wts (gg_graph gg) ! i) (\<lambda>v. the (gg_node_indices gg v)) (dom (gg_node_indices gg))
           (index_cost wts edge gg) (mesh_cost (topo gg))"
proof -
  define nm where "nm i = wts (gg_graph gg) ! i" for i
  define ix where "ix v = the (gg_node_indices gg v)" for v
  have g: "inv (gg_graph gg)" using wf by (simp add: gg_wf_def)
  have name: "gg_node_indices gg (nm i) = Some i" if "i < length (wts (gg_graph gg))" for i
    using that wf_index [OF wf, of "nm i" i] by (simp add: nm_def)
  have link: "t_link (topo gg) u v = Some w \<longleftrightarrow>
      (\<exists>i j. gg_node_indices gg u = Some i \<and> gg_node_indices gg v = Some j \<and> edge (gg_graph gg) i j = Some w)" for u v w
    by (auto simp: topology_of_def split: option.splits)
  have inverse: "nm (ix v) = v" if "v \<in> dom (gg_node_indices gg)" for v
    using that by (auto simp: nm_def ix_def dest: wf_index [OF wf, THEN iffD1])
  have "mesh_cost (topo gg) (nm u) (nm v) = Some x \<and> ix (nm u) = u \<and> ix (nm v) = v"
    if x: "index_cost wts edge gg u v = Some x" for u v x
  proof -
    obtain w where w: "edge (gg_graph gg) u v = Some w"
      using x by (auto simp: index_cost_def)
    have uv: "gg_node_indices gg (nm u) = Some u" "gg_node_indices gg (nm v) = Some v"
      using edge_range [OF g w] by (simp_all add: name)
    then have "t_link (topo gg) (nm u) (nm v) = Some w"
      using w by (simp add: link)
    then show ?thesis
      using x w uv by (simp add: index_cost_def mesh_cost_def ix_def) (simp add: nm_def)
  qed
  moreover have "u \<in> dom (gg_node_indices gg) \<and> v \<in> dom (gg_node_indices gg) \<and>
      index_cost wts edge gg (ix u) (ix v) = Some x" if x: "mesh_cost (topo gg) u v = Some x" for u v x
  proof -
    obtain w i j where w: "t_link (topo gg) u v = Some w" "gg_node_indices gg u = Some i"
      "gg_node_indices gg v = Some j" "edge (gg_graph gg) i j = Some w"
      using x by (auto simp: mesh_cost_def link)
    moreover have "wts (gg_graph gg) ! j = v" using wf_index [OF wf, of v j] w(3) by simp
    ultimately show ?thesis using x by (auto simp: mesh_cost_def index_cost_def ix_def)
  qed
  ultimately show ?thesis
    using inverse unfolding renames_def nm_def ix_def by blast
qed

lemma forwarding_table_pruned:
  assumes wf: "wf gg" and fits: "fits_u32 (mesh_cost (topo gg)) source" and src: "source \<in> t_nodes (topo gg)"
  obtains t D P where "compute_forwarding_table checks ops gg source subs = Some (Ret t)" "tree_wf t"
    "shortest_tree (mesh_cost (topo gg)) source D P" "finite (dom P)" "tree_edges t = pruned P (set subs)"
proof -
  define nm where "nm i = wts (gg_graph gg) ! i" for i
  define ix where "ix v = the (gg_node_indices gg v)" for v
  define V where "V = dom (gg_node_indices gg)"
  define n where "n = length (wts (gg_graph gg))"
  define c where "c = index_cost wts edge gg"
  note r = index_renames [OF wf, folded nm_def [abs_def] ix_def [abs_def] V_def c_def]
  have g: "inv (gg_graph gg)" using wf by (simp add: gg_wf_def)
  obtain s where s: "gg_node_indices gg source = Some s" using src by (auto simp: topology_of_def)
  then have s': "ix source = s" "nm s = source" "source \<in> V"
    using wf_index [OF wf, of source s] by (auto simp: ix_def nm_def V_def)
  have short: "shortest (mesh_cost (topo gg)) source v k \<longleftrightarrow> v \<in> V \<and> shortest c s (ix v) k" for v k
    using renames_shortest [OF r, of s v k] by (simp add: s')
  have "fits_u32 c s"
  proof (unfold fits_u32_def, intro allI impI)
    fix u v k x assume k: "shortest c s u k" and x: "c u v = Some x"
    have m: "mesh_cost (topo gg) (nm u) (nm v) = Some x" "ix (nm u) = u"
      using r x by (auto simp: renames_def)
    then have "nm u \<in> V" using r by (auto simp: renames_def)
    then have "shortest (mesh_cost (topo gg)) source (nm u) k" using k m(2) by (simp add: short)
    with fits m(1) show "k + x < 2 ^ 32 - 1" unfolding fits_u32_def by blast
  qed
  then obtain st where st: "dijkstra_loop checks ops gg (dijkstra_start s) = Some (Ret st)"
    "shortest_tree c s (nat_distances st) (sr_predecessors st)"
    using dijkstra_correct [OF wf] unfolding c_def by blast
  define P where "P = sr_predecessors st"
  have P: "\<forall>v u. P v = Some u \<longrightarrow> c u v \<noteq> None"
    using st(2) unfolding shortest_tree_def P_def by fastforce
  have bound: "u < n \<and> v < n" if "P v = Some u" for u v
    using P [rule_format, OF that] edge_range [OF g, of u v] by (auto simp: c_def index_cost_def n_def)
  have "finite (dom P)" using bound by (intro finite_subset [of "dom P" "{..<n}"]) auto
  moreover have Ps: "P s = None" and "acyclic (pred_rel P)"
    using st(2) by (simp_all add: shortest_tree_def P_def)
  ultimately have "\<exists>t. walk_subscribers ops gg P s subs [] = Some (Ret t) \<and> tree_wf t \<and>
      tree_edges t = tree_edges [] \<union> map_prod nm nm ` pruned P {i. \<exists>sub \<in> set subs. gg_node_indices gg sub = Some i}"
    using bound by (intro walk_subscribers_correct [where n = n] wf_pred_rel) (auto simp: index [OF g] n_def nm_def)
  then obtain t where t: "walk_subscribers ops gg P s subs [] = Some (Ret t)" "tree_wf t"
    "tree_edges t = map_prod nm nm ` pruned P {i. \<exists>sub \<in> set subs. gg_node_indices gg sub = Some i}"
    by auto
  have "{i. \<exists>sub \<in> set subs. gg_node_indices gg sub = Some i} = ix ` (set subs \<inter> V)"
    by (auto simp: ix_def V_def intro!: rev_image_eqI)
  then have edges: "tree_edges t = pruned (rename_pred nm ix V P) (set subs)"
    using t(3) pruned_rename [OF r P] by simp
  have compute: "compute_forwarding_table checks ops gg source subs = Some (Ret t)"
    using s st(1) t(1) by (auto simp: compute_forwarding_table_def P_def)
  have "shortest_tree (mesh_cost (topo gg)) (nm s)
      (\<lambda>v. if v \<in> V then nat_distances st (ix v) else None) (rename_pred nm ix V P)"
    by (rule shortest_tree_rename [OF st(2) [folded P_def] r]) (simp_all add: s')
  then have tree: "shortest_tree (mesh_cost (topo gg)) source
      (\<lambda>v. if v \<in> V then nat_distances st (ix v) else None) (rename_pred nm ix V P)"
    by (simp add: s')
  have "finite V" by (simp add: V_def wf_dom [OF wf])
  moreover have "dom (rename_pred nm ix V P) \<subseteq> V" by (auto simp: rename_pred_def split: if_splits)
  ultimately have fin: "finite (dom (rename_pred nm ix V P))" by (rule finite_subset [rotated])
  from that [OF compute t(2) tree fin edges] show thesis .
qed

end

context topology_graph
begin

lemma forwarding_table_unknown:
  assumes "source \<notin> t_nodes (topo gg)"
  shows "compute_forwarding_table checks ops gg source subs = Some (Ret [])"
  using assms by (auto simp: compute_forwarding_table_def topology_of_def domIff)

lemma unknown_no_walk:
  assumes "source \<notin> t_nodes (topo gg)" and "walk (mesh_cost (topo gg)) source v k"
  shows "v = source \<and> k = 0"
  using assms(2)
proof induction
  case (walk_step u k v x)
  then show ?case using assms(1) by (auto simp: mesh_cost_def topology_of_def split: option.splits)
qed simp

lemma forwarding_table_delivers_all:
  assumes "wf gg" and "fits_u32 (mesh_cost (topo gg)) source"
  shows "\<exists>t. compute_forwarding_table checks ops gg source subs = Some (Ret t) \<and>
           (\<forall>sub \<in> set subs. \<forall>k. shortest (mesh_cost (topo gg)) source sub k \<longrightarrow>
              walk (restrict_cost (mesh_cost (topo gg)) (tree_edges t)) source sub k)"
proof (cases "source \<in> t_nodes (topo gg)")
  case True
  obtain t D P where t: "compute_forwarding_table checks ops gg source subs = Some (Ret t)" "tree_wf t"
    "shortest_tree (mesh_cost (topo gg)) source D P" "finite (dom P)" "tree_edges t = pruned P (set subs)"
    using forwarding_table_pruned [OF assms True] .
  have "walk (restrict_cost (mesh_cost (topo gg)) (pruned P (set subs))) source sub k"
    if "sub \<in> set subs" "shortest (mesh_cost (topo gg)) source sub k" for sub k
  proof (rule pruned_walk [OF t(3,4)])
    show "D sub = Some k" using t(3) that(2) by (simp add: shortest_tree_def)
    show "\<exists>u \<in> set subs. (sub, u) \<in> (pred_rel P)\<^sup>*" using that(1) by blast
  qed
  with t(1) show ?thesis
    unfolding t(5) [symmetric] by (intro exI [of _ t] conjI) simp_all
next
  case False
  have "walk (restrict_cost (mesh_cost (topo gg)) E) source sub k"
    if "shortest (mesh_cost (topo gg)) source sub k" for sub k E
    using unknown_no_walk [OF False, of sub k] that by (auto simp: shortest_def intro: walk_refl)
  then show ?thesis using forwarding_table_unknown [OF False] by blast
qed

lemma forwarding_table_is_tree:
  assumes "wf gg" and "fits_u32 (mesh_cost (topo gg)) source"
  shows "\<exists>t. compute_forwarding_table checks ops gg source subs = Some (Ret t) \<and> tree_wf t \<and>
           acyclic (tree_edges t) \<and>
           (\<forall>p v. (p, v) \<in> tree_edges t \<longrightarrow>
              t_link (topo gg) p v \<noteq> None \<and> v \<noteq> source \<and>
              (\<forall>p'. (p', v) \<in> tree_edges t \<longrightarrow> p' = p) \<and>
              (source, p) \<in> (tree_edges t)\<^sup>* \<and> (\<exists>sub \<in> set subs. (v, sub) \<in> (tree_edges t)\<^sup>*))"
proof (cases "source \<in> t_nodes (topo gg)")
  case True
  obtain t D P where t: "compute_forwarding_table checks ops gg source subs = Some (Ret t)" "tree_wf t"
    "shortest_tree (mesh_cost (topo gg)) source D P" "finite (dom P)" "tree_edges t = pruned P (set subs)"
    using forwarding_table_pruned [OF assms True] .
  have "t_link (topo gg) p v \<noteq> None \<and> v \<noteq> source \<and> (\<forall>p'. (p', v) \<in> pruned P (set subs) \<longrightarrow> p' = p) \<and>
      (source, p) \<in> (pruned P (set subs))\<^sup>* \<and> (\<exists>sub \<in> set subs. (v, sub) \<in> (pruned P (set subs))\<^sup>*)"
    if "(p, v) \<in> pruned P (set subs)" for p v
  proof (intro conjI allI impI)
    show "t_link (topo gg) p v \<noteq> None" using pruned_edge [OF t(3) that] by (simp add: mesh_cost_def)
    show "v \<noteq> source" using pruned_not_source [OF t(3)] that by blast
    show "p' = p" if "(p', v) \<in> pruned P (set subs)" for p'
      using pruned_unique [OF t(3) that \<open>(p, v) \<in> pruned P (set subs)\<close>] .
  qed (fact pruned_source [OF t(3,4) that] pruned_target [OF that])+
  with t(1,2) pruned_acyclic [OF t(3), of "set subs"] show ?thesis
    unfolding t(5) [symmetric] by (intro exI [of _ t] conjI) simp_all
next
  case False
  have "acyclic (tree_edges [])" by (simp add: acyclic_def)
  then show ?thesis
    using forwarding_table_unknown [OF False] by (intro exI [of _ "[]"] conjI) simp_all
qed

end

section \<open>When path costs fit, and when they do not\<close>

lemma fits_u32_bound:
  assumes "finite V" "s \<in> V" and c: "\<And>u v x. c u v = Some x \<Longrightarrow> v \<in> V \<and> x \<le> C" and "card V * C < 2 ^ 32 - 1"
  shows "fits_u32 c s"
  unfolding fits_u32_def
proof (intro allI impI)
  fix u v k x assume "shortest c s u k" "c u v = Some x"
  then have "k + x \<le> (card V - 1) * C + C"
    using shortest_bound [OF assms(1) c assms(2)] c by (meson add_mono)
  also have "\<dots> = card V * C"
    using assms(1,2) by (cases "card V") auto
  finally show "k + x < 2 ^ 32 - 1" using assms(4) by simp
qed

text \<open>A chain of predecessors that never reaches the publisher keeps the walk going for ever.\<close>

lemma walk_up_diverges:
  assumes C: "\<And>i. i \<in> C \<Longrightarrow> \<exists>p \<in> C. P i = Some p \<and> p \<noteq> s"
    and idx: "\<And>i. i \<in> C \<Longrightarrow> \<exists>m. dg_index ops g i = Ret m"
    and i: "i \<in> C"
  shows "walk_up ops g P s i t = None"
proof -
  have "i \<notin> C" if "walk_up ops g P s i t = Some r" for r
  proof (rule walk_up.raw_induct [where P = "\<lambda>ops' g' P' s' i t r. ops' = ops \<longrightarrow> g' = g \<longrightarrow> P' = P \<longrightarrow> s' = s \<longrightarrow> i \<notin> C",
        OF _ that, rule_format])
    fix f :: "'a graph_ops \<Rightarrow> 'a \<Rightarrow> (nat \<rightharpoonup> nat) \<Rightarrow> nat \<Rightarrow> nat \<Rightarrow> (string, ForwardingTargets) hmap \<Rightarrow>
      (string, ForwardingTargets) hmap exec option" and ops' g' P' s' i t r
    assume IH: "\<And>ops' g' P' s' i t r. f ops' g' P' s' i t = Some r \<Longrightarrow> ops' = ops \<Longrightarrow> g' = g \<Longrightarrow> P' = P \<Longrightarrow> s' = s \<Longrightarrow> i \<notin> C"
      and run: "(case walk_step_up ops' g' P' i t of None \<Rightarrow> Some (Ret t)
        | Some (Ret (parent_idx, tree')) \<Rightarrow>
            if parent_idx = s' then Some (Ret tree') else f ops' g' P' s' parent_idx tree'
        | Some Panic \<Rightarrow> Some Panic) = Some r"
      and eqs: "ops' = ops" "g' = g" "P' = P" "s' = s"
    show "i \<notin> C"
    proof
      assume "i \<in> C"
      moreover from this obtain p where "p \<in> C" "P i = Some p" "p \<noteq> s" using C by blast
      moreover from calculation obtain m m' where "dg_index ops g i = Ret m" "dg_index ops g p = Ret m'"
        using idx by metis
      ultimately show False using run IH eqs by (auto simp: walk_step_up_def)
    qed
  qed simp_all
  then show ?thesis using i by (cases "walk_up ops g P s i t") auto
qed

text \<open>A mesh \<open>s - a - b\<close> whose second link has a hop cost close to the largest \<^verbatim>\<open>u32\<close>.\<close>

definition heavy_update :: TopologyUpdate where
  "heavy_update = demo_update\<lparr>tu_links_added :=
     [link_of ''s'' ''a'' \<lparr>lw_hop_cost = 10, lw_rtt_micros = 0\<rparr>,
      link_of ''a'' ''b'' \<lparr>lw_hop_cost = 4294967291, lw_rtt_micros = 0\<rparr>]\<rparr>"

definition mesh_after :: "TopologyUpdate \<Rightarrow> (string, LinkWeight) vgraph GlobalGraph" where
  "mesh_after upd = (case apply_update vgraph_ops (gg_new vgraph_ops) upd of Ret gg \<Rightarrow> gg | Panic \<Rightarrow> gg_new vgraph_ops)"

text \<open>The search run for a given number of iterations, for evaluation on an example.\<close>

fun dijkstra_fuel :: "nat \<Rightarrow> bool \<Rightarrow> 'g graph_ops \<Rightarrow> 'g GlobalGraph \<Rightarrow> search \<Rightarrow> search exec option" where
  "dijkstra_fuel 0 checks ops gg st = None"
| "dijkstra_fuel (Suc n) checks ops gg st =
     (case dijkstra_step checks ops gg st of
        None \<Rightarrow> Some (Ret st)
      | Some Panic \<Rightarrow> Some Panic
      | Some (Ret st') \<Rightarrow> dijkstra_fuel n checks ops gg st')"

lemma dijkstra_fuel_loop:
  "dijkstra_fuel n checks ops gg st = Some r \<Longrightarrow> dijkstra_loop checks ops gg st = Some r"
  by (induction n arbitrary: st; subst dijkstra_loop.simps) (auto split: option.splits exec.splits)

lemmas search_evals [evals] =
  heavy_update_def mesh_after_def dijkstra_start_def dijkstra_step_def relax_def link_cost_def
  dist_or_max_def dijkstra_le_def heap_push_def heap_pop_def sift_up.simps sift_down_to_bottom.simps
  walk_step_up_def tree_insert_def

lemma heavy_checked:
  "dijkstra_fuel (Suc (Suc 0)) True vgraph_ops (mesh_after heavy_update) (dijkstra_start 0) = Some Panic"
  by (simp add: evals)

lemma heavy_wrapped:
  "map_option (map_exec (\<lambda>st. (sr_predecessors st 1, sr_predecessors st 2)))
     (dijkstra_fuel (Suc (Suc (Suc (Suc (Suc 0))))) False vgraph_ops (mesh_after heavy_update) (dijkstra_start 0))
   = Some (Ret (Some 2, Some 1))"
  by (simp add: evals)

lemma heavy_indices:
  "gg_node_indices (mesh_after heavy_update) ''s'' = Some 0"
  "gg_node_indices (mesh_after heavy_update) ''a'' = Some 1"
  "length (fst (gg_graph (mesh_after heavy_update))) = 3"
  by (simp_all add: evals)

text \<open>The meshes built from an update are well-formed.\<close>

lemma mesh_after_correct:
  "gg_wf fst vg_edge vg_inv (mesh_after upd)"
  "topology_of vg_edge (mesh_after upd) = topo_apply_update upd topo_empty"
proof -
  obtain gg where "apply_update vgraph_ops (gg_new vgraph_ops) upd = Ret gg" "gg_wf fst vg_edge vg_inv gg"
    "topology_of vg_edge gg = topo_apply_update upd (topology_of vg_edge (gg_new vgraph_ops))"
    using vtopo.apply_update_correct [OF vtopo.wf_new, of upd] by blast
  then show "gg_wf fst vg_edge vg_inv (mesh_after upd)"
    "topology_of vg_edge (mesh_after upd) = topo_apply_update upd topo_empty"
    by (simp_all add: mesh_after_def vtopo.topo_new)
qed

lemma demo_topology:
  "t_link (topo_apply_update demo_update topo_empty) u v =
     (if (u, v) \<in> {(''s'', ''a''), (''a'', ''s''), (''a'', ''b''), (''b'', ''a'')}
      then Some \<lparr>lw_hop_cost = 10, lw_rtt_micros = 0\<rparr> else None)"
  "aggregator_penalty (topo_apply_update demo_update topo_empty) v = 0"
  by (simp_all add: topo_apply_update_def topo_add_link_def topo_add_node_def aggregator_penalty_def
      topo_empty_def demo_update_def demo_node_def Let_def)

lemma demo_cost:
  "mesh_cost (topo_apply_update demo_update topo_empty) u v = Some x \<Longrightarrow> v \<in> {''s'', ''a'', ''b''} \<and> x \<le> 10"
  by (simp add: mesh_cost_def demo_topology split: if_splits) auto

lemma demo_fits: "fits_u32 (mesh_cost (topology_of vg_edge (mesh_after demo_update))) ''s''"
  unfolding mesh_after_correct
  by (rule fits_u32_bound [of "{''s'', ''a'', ''b''}" _ _ 10]) (use demo_cost in \<open>simp_all add: card_insert_if\<close>)

lemma demo_shortest: "\<exists>k. shortest (mesh_cost (topology_of vg_edge (mesh_after demo_update))) ''s'' ''b'' k"
proof -
  let ?c = "mesh_cost (topo_apply_update demo_update topo_empty)"
  have "?c ''s'' ''a'' = Some 10" "?c ''a'' ''b'' = Some 10"
    by (simp_all add: mesh_cost_def demo_topology)
  then have "walk ?c ''s'' ''b'' (0 + 10 + 10)" by (blast intro: walk.intros)
  then show ?thesis unfolding mesh_after_correct by (rule shortest_exists)
qed

section \<open>Properties\<close>

text \<open>
  C1: publishing reaches every reachable subscriber by a cheapest route. If no path cost exceeds
  the range of \<^verbatim>\<open>u32\<close>, the forwarding table is computed (no panic, both loops end), and for every
  subscriber the source can reach, the table alone contains a route from the source to it whose
  cost is the least cost of any route in the mesh.
\<close>

theorem forwarding_table_delivers:
  assumes "topology_graph ops wts edge ginv" and "gg_wf wts edge ginv gg"
    and "fits_u32 (mesh_cost (topology_of edge gg)) source"
  shows "\<exists>t. compute_forwarding_table checks ops gg source subs = Some (Ret t) \<and>
           (\<forall>sub \<in> set subs. \<forall>k. shortest (mesh_cost (topology_of edge gg)) source sub k \<longrightarrow>
              walk (restrict_cost (mesh_cost (topology_of edge gg)) (tree_edges t)) source sub k)"
  using topology_graph.forwarding_table_delivers_all [OF assms] .

theorem forwarding_table_delivers_witness:
  "\<exists>t k. compute_forwarding_table True vgraph_ops (mesh_after demo_update) ''s'' [''b''] = Some (Ret t) \<and>
     walk (restrict_cost (mesh_cost (topology_of vg_edge (mesh_after demo_update))) (tree_edges t)) ''s'' ''b'' k"
  using forwarding_table_delivers [OF vtopo.topology_graph_axioms mesh_after_correct(1) demo_fits, of True "[''b'']"]
    demo_shortest by auto

text \<open>
  C7: the forwarding table is a tree rooted at the source and contains nothing superfluous: every
  entry is a link of the mesh, no node has two parents, the source has none, there is no cycle,
  every forwarder is reached from the source through the table, and below every entry there is a
  subscriber.
\<close>

theorem forwarding_table_tree:
  assumes "topology_graph ops wts edge ginv" and "gg_wf wts edge ginv gg"
    and "fits_u32 (mesh_cost (topology_of edge gg)) source"
  shows "\<exists>t. compute_forwarding_table checks ops gg source subs = Some (Ret t) \<and> tree_wf t \<and>
           acyclic (tree_edges t) \<and>
           (\<forall>p v. (p, v) \<in> tree_edges t \<longrightarrow>
              t_link (topology_of edge gg) p v \<noteq> None \<and> v \<noteq> source \<and>
              (\<forall>p'. (p', v) \<in> tree_edges t \<longrightarrow> p' = p) \<and>
              (source, p) \<in> (tree_edges t)\<^sup>* \<and> (\<exists>sub \<in> set subs. (v, sub) \<in> (tree_edges t)\<^sup>*))"
  using topology_graph.forwarding_table_is_tree [OF assms] .

theorem forwarding_table_tree_witness:
  "\<exists>t. compute_forwarding_table True vgraph_ops (mesh_after demo_update) ''s'' [''b''] = Some (Ret t) \<and>
     tree_wf t \<and> acyclic (tree_edges t)"
  using forwarding_table_tree [OF vtopo.topology_graph_axioms mesh_after_correct(1) demo_fits, of True "[''b'']"]
  by blast

text \<open>
  C15: the search loop ends on every well-formed graph, from every state and whatever the link
  costs are: also in a build whose sums wrap around.
\<close>

theorem dijkstra_loop_ends:
  assumes "topology_graph ops wts edge ginv" and "gg_wf wts edge ginv gg"
  shows "\<exists>r. dijkstra_loop checks ops gg st = Some r"
  by (rule topology_graph.dijkstra_loop_total [OF assms])

theorem dijkstra_loop_ends_witness:
  "\<exists>r. dijkstra_loop False vgraph_ops (mesh_after heavy_update) (dijkstra_start 0) = Some r"
  by (rule dijkstra_loop_ends [OF vtopo.topology_graph_axioms mesh_after_correct(1)])


end
