(* ===== verification/Framing.thy ===== *)
theory Framing
  imports Flow_Proto
begin

text \<open>
  The length-prefixed frames of the control and data streams
  (\<^verbatim>\<open>stric-flow/src/frame.rs\<close>). A stream is the list of the bytes that are still to be read; the
  protobuf encoder is an argument.
\<close>

unbundle bit_operations_syntax

section \<open>Definitions\<close>

datatype frame_error = UnexpectedEof | FrameTooLarge nat

text \<open>\<^verbatim>\<open>u32::to_be_bytes\<close> and \<^verbatim>\<open>u32::from_be_bytes\<close>.\<close>

definition to_be_bytes :: "u32 \<Rightarrow> bytes" where
  "to_be_bytes w = [ucast (drop_bit 24 w), ucast (drop_bit 16 w), ucast (drop_bit 8 w), ucast w]"

fun from_be_bytes :: "bytes \<Rightarrow> u32" where
  "from_be_bytes bs = foldl (\<lambda>w b. push_bit 8 w OR ucast b) 0 bs"

text \<open>\<^verbatim>\<open>AsyncReadExt::read_exact\<close>: the bytes read and the rest of the stream.\<close>

definition read_exact :: "nat \<Rightarrow> bytes \<Rightarrow> frame_error + (bytes \<times> bytes)" where
  "read_exact n input =
     (if length input < n then Inl UnexpectedEof else Inr (take n input, drop n input))"

definition MAX_FRAME :: nat where
  "MAX_FRAME = 16777216"

text \<open>The bytes that \<^verbatim>\<open>write_frame\<close> appends to the stream: \<^verbatim>\<open>buf.len() as u32\<close> truncates.\<close>

definition write_frame :: "('m \<Rightarrow> bytes) \<Rightarrow> 'm \<Rightarrow> bytes" where
  "write_frame encode msg =
     (let buf = encode msg; len = (of_nat (length buf) :: u32)
      in to_be_bytes len @ buf)"

definition read_frame :: "bytes \<Rightarrow> frame_error + (bytes \<times> bytes)" where
  "read_frame input =
     (case read_exact 4 input of
        Inl e \<Rightarrow> Inl e
      | Inr (len_buf, rest) \<Rightarrow>
          (let len = unat (from_be_bytes len_buf) in
           if len > MAX_FRAME then Inl (FrameTooLarge len) else read_exact len rest))"

text \<open>A reader that takes frames off the stream until an error ends it.\<close>

function read_frames :: "bytes \<Rightarrow> bytes list \<times> frame_error" where
  "read_frames input =
     (case read_frame input of
        Inl e \<Rightarrow> ([], e)
      | Inr (buf, rest) \<Rightarrow> (let (bufs, e) = read_frames rest in (buf # bufs, e)))"
  by pat_completeness auto

section \<open>Reading what was written\<close>

lemma read_exact_append [simp]: "n = length xs \<Longrightarrow> read_exact n (xs @ rest) = Inr (xs, rest)"
  by (simp add: read_exact_def)

lemma read_exact_short: "length input < n \<Longrightarrow> read_exact n input = Inl UnexpectedEof"
  by (simp add: read_exact_def)

lemma read_exact_Inr: "read_exact n input = Inr (bs, rest) \<Longrightarrow> input = bs @ rest \<and> length bs = n"
  by (auto simp: read_exact_def split: if_splits)

lemma length_to_be_bytes [simp]: "length (to_be_bytes w) = 4"
  by (simp add: to_be_bytes_def)

lemma from_to_be_bytes [simp]: "from_be_bytes (to_be_bytes w) = w"
proof (rule bit_word_eqI)
  fix n assume "n < LENGTH(32)"
  then consider "n < 8" | "8 \<le> n" "n < 16" | "16 \<le> n" "n < 24" | "24 \<le> n" "n < 32" by fastforce
  then show "bit (from_be_bytes (to_be_bytes w)) n = bit w n"
    by cases (auto simp: to_be_bytes_def bit_simps)
qed

lemma read_frame_shorter: "read_frame input = Inr (buf, rest) \<Longrightarrow> length rest < length input"
  by (auto simp: read_frame_def Let_def split: sum.splits if_splits dest!: read_exact_Inr)

termination read_frames
  by (relation "measure length") (auto intro: read_frame_shorter)

declare read_frames.simps [simp del] from_be_bytes.simps [simp del]

lemma read_frame_prefix:
  "read_frame (to_be_bytes w @ rest) =
     (if unat w > MAX_FRAME then Inl (FrameTooLarge (unat w)) else read_exact (unat w) rest)"
  by (simp add: read_frame_def)

lemma unat_of_length: "unat (of_nat (length bs) :: u32) = length bs mod 2 ^ 32"
  by (simp add: unat_of_nat)

lemma read_write_frame:
  assumes "length (encode msg) \<le> MAX_FRAME"
  shows "read_frame (write_frame encode msg @ rest) = Inr (encode msg, rest)"
proof -
  have "unat (of_nat (length (encode msg)) :: u32) = length (encode msg)"
    using assms by (simp add: unat_of_length MAX_FRAME_def)
  with assms show ?thesis by (simp add: write_frame_def read_frame_prefix Let_def)
qed

lemma read_frames_write:
  assumes "\<forall>m \<in> set msgs. length (encode m) \<le> MAX_FRAME"
  shows "read_frames (concat (map (write_frame encode) msgs) @ rest) =
    (map encode msgs @ fst (read_frames rest), snd (read_frames rest))"
  using assms
proof (induction msgs)
  case (Cons m msgs)
  then show ?case
    by (subst read_frames.simps) (simp add: read_write_frame split: prod.split)
qed simp

section \<open>Properties\<close>



text \<open>
  A stream cut anywhere inside a frame is reported, never misread: reading a proper prefix
  of a written frame fails with the end-of-stream error.
\<close>

theorem truncated_frame_rejected:
  assumes "length (encode msg) \<le> MAX_FRAME" and "n < length (write_frame encode msg)"
  shows "read_frame (take n (write_frame encode msg)) = Inl UnexpectedEof"
proof -
  let ?w = "of_nat (length (encode msg)) :: u32"
  have w: "unat ?w = length (encode msg)"
    using assms(1) by (simp add: unat_of_length MAX_FRAME_def)
  show ?thesis
  proof (cases "n < 4")
    case True
    then show ?thesis by (auto simp: read_frame_def read_exact_def min_def)
  next
    case False
    then have "take n (write_frame encode msg) = to_be_bytes ?w @ take (n - 4) (encode msg)"
      by (simp add: write_frame_def Let_def)
    moreover have "length (take (n - 4) (encode msg)) < length (encode msg)"
      using assms(2) False by (simp add: write_frame_def Let_def)
    ultimately show ?thesis
      using assms(1) w by (simp add: read_frame_prefix read_exact_short)
  qed
qed

theorem truncated_frame_rejected_witness:
  "read_frame (take 5 (write_frame id [1, 2, 3])) = Inl UnexpectedEof"
  using truncated_frame_rejected [of id "[1, 2, 3]" 5] by (simp add: MAX_FRAME_def write_frame_def)

text \<open>
  The writer does not enforce the limit that the reader enforces, and it truncates the
  length to \<^verbatim>\<open>u32\<close>. A message above 16 MiB is never received: the reader refuses the frame, or,
  if the truncated length is small, returns that many of its first bytes as the frame and takes
  the remaining bytes for the next frames.
\<close>

theorem oversized_frame:
  assumes "MAX_FRAME < length (encode msg)"
  shows "read_frame (write_frame encode msg @ rest) =
    (let n = length (encode msg) mod 2 ^ 32 in
     if MAX_FRAME < n then Inl (FrameTooLarge n)
     else Inr (take n (encode msg), drop n (encode msg) @ rest)) \<and>
    read_frame (write_frame encode msg @ rest) \<noteq> Inr (encode msg, rest)"
proof -
  define n where "n = length (encode msg) mod 2 ^ 32"
  have n: "n \<le> length (encode msg)" by (simp add: n_def)
  have "read_frame (write_frame encode msg @ rest) =
      (if MAX_FRAME < n then Inl (FrameTooLarge n) else read_exact n (encode msg @ rest))"
    by (simp only: write_frame_def Let_def append_assoc read_frame_prefix unat_of_length n_def)
  moreover have "take n (encode msg) \<noteq> encode msg" if "n \<le> MAX_FRAME"
    using assms that n by (metis length_take min_absorb2 not_le)
  ultimately show ?thesis
    unfolding n_def [symmetric] Let_def using n by (auto simp: read_exact_def)
qed

theorem oversized_frame_witness:
  "read_frame (write_frame (\<lambda>_. replicate (MAX_FRAME + 1) 0) ()) = Inl (FrameTooLarge (MAX_FRAME + 1))"
  using oversized_frame [of "\<lambda>_. replicate (MAX_FRAME + 1) 0" "()" "[]"] by (simp add: MAX_FRAME_def)

end
