(* ===== verification/Discovery.thy ===== *)
theory Discovery
  imports Flow_Proto "HOL-Library.Multiset" "HOL-Library.List_Lexorder"
begin

text \<open>
  The Kademlia-like table of discovered nodes (\<^verbatim>\<open>stric-flow/src/discovery.rs\<close>). The hash
  function is an argument of which only the length of its result (32 bytes) matters; socket
  addresses are a type parameter. Arrays of bytes are compared lexicographically, as Rust does.
\<close>

unbundle bit_operations_syntax

section \<open>Definitions\<close>

definition K :: nat where
  "K = 20"

record 'a NodeInfo =
  ni_node_id :: string
  ni_addr :: 'a

record 'a RoutingTable =
  rt_local_node_id :: string
  rt_local_hash :: bytes
  rt_buckets :: "'a NodeInfo list list"

definition rt_new :: "(string \<Rightarrow> bytes) \<Rightarrow> string \<Rightarrow> 'a RoutingTable" where
  "rt_new sha256_hash local_node_id =
     \<lparr>rt_local_node_id = local_node_id, rt_local_hash = sha256_hash local_node_id,
      rt_buckets = replicate 256 []\<rparr>"

definition xor_distance :: "bytes \<Rightarrow> bytes \<Rightarrow> bytes" where
  "xor_distance a b = map (\<lambda>i. a ! i XOR b ! i) [0..<32]"

text \<open>\<^verbatim>\<open>u8::leading_zeros\<close>.\<close>

definition byte_leading_zeros :: "u8 \<Rightarrow> nat" where
  "byte_leading_zeros b = length (takeWhile (\<lambda>i. \<not> bit b i) [7, 6, 5, 4, 3, 2, 1, 0])"

fun leading_zeros :: "bytes \<Rightarrow> nat" where
  "leading_zeros [] = 0"
| "leading_zeros (b # bs) = (if b = 0 then 8 + leading_zeros bs else byte_leading_zeros b)"

definition bucket_index :: "(string \<Rightarrow> bytes) \<Rightarrow> 'a RoutingTable \<Rightarrow> string \<Rightarrow> nat" where
  "bucket_index sha256_hash rt node_id =
     (let dist = xor_distance (rt_local_hash rt) (sha256_hash node_id);
          bucket_idx = leading_zeros dist
      in if bucket_idx \<ge> 256 then 255 else bucket_idx)"

text \<open>\<^verbatim>\<open>iter().position(..)\<close>.\<close>

fun position :: "('a \<Rightarrow> bool) \<Rightarrow> 'a list \<Rightarrow> nat option" where
  "position P [] = None"
| "position P (x # xs) = (if P x then Some 0 else map_option Suc (position P xs))"

definition bucket_update :: "string \<Rightarrow> 'a \<Rightarrow> 'a NodeInfo list \<Rightarrow> 'a NodeInfo list" where
  "bucket_update node_id addr nodes =
     (case position (\<lambda>n. ni_node_id n = node_id) nodes of
        Some pos \<Rightarrow> (take pos nodes @ drop (Suc pos) nodes) @ [nodes ! pos]
      | None \<Rightarrow> if length nodes < K then nodes @ [\<lparr>ni_node_id = node_id, ni_addr = addr\<rparr>] else nodes)"

definition rt_update :: "(string \<Rightarrow> bytes) \<Rightarrow> 'a RoutingTable \<Rightarrow> string \<Rightarrow> 'a \<Rightarrow> 'a RoutingTable" where
  "rt_update sha256_hash rt node_id addr =
     (if node_id = rt_local_node_id rt then rt
      else (let i = bucket_index sha256_hash rt node_id in
            rt\<lparr>rt_buckets := (rt_buckets rt)[i := bucket_update node_id addr (rt_buckets rt ! i)]\<rparr>))"

definition rt_remove :: "(string \<Rightarrow> bytes) \<Rightarrow> 'a RoutingTable \<Rightarrow> string \<Rightarrow> 'a RoutingTable" where
  "rt_remove sha256_hash rt node_id =
     (let i = bucket_index sha256_hash rt node_id in
      rt\<lparr>rt_buckets := (rt_buckets rt)[i := filter (\<lambda>n. ni_node_id n \<noteq> node_id) (rt_buckets rt ! i)]\<rparr>)"

text \<open>\<^verbatim>\<open>sort_by\<close> is stable.\<close>

definition find_closest_nodes :: "(string \<Rightarrow> bytes) \<Rightarrow> 'a RoutingTable \<Rightarrow> string \<Rightarrow> nat \<Rightarrow> 'a NodeInfo list" where
  "find_closest_nodes sha256_hash rt target_id limit =
     (let target_hash = sha256_hash target_id;
          candidates = map (\<lambda>n. (n, xor_distance target_hash (sha256_hash (ni_node_id n)))) (concat (rt_buckets rt))
      in map fst (take limit (sort_key snd candidates)))"

section \<open>Distances\<close>

lemma byte_leading_zeros_less: "b \<noteq> 0 \<Longrightarrow> byte_leading_zeros b < 8"
proof (rule ccontr)
  assume "b \<noteq> 0" "\<not> byte_leading_zeros b < 8"
  then have "length (takeWhile (\<lambda>i. \<not> bit b i) [7, 6, 5, 4, 3, 2, 1, 0]) = length [7, 6, 5, 4, 3, 2, 1, 0 :: nat]"
    using length_takeWhile_le [of "\<lambda>i. \<not> bit b i" "[7, 6, 5, 4, 3, 2, 1, 0]"]
    by (simp only: byte_leading_zeros_def list.size)
  then have "takeWhile (\<lambda>i. \<not> bit b i) [7, 6, 5, 4, 3, 2, 1, 0] = [7, 6, 5, 4, 3, 2, 1, 0 :: nat]"
    using takeWhile_eq_take [of "\<lambda>i. \<not> bit b i" "[7, 6, 5, 4, 3, 2, 1, 0]"] by simp
  then have zero: "\<forall>i \<in> set [7, 6, 5, 4, 3, 2, 1, 0 :: nat]. \<not> bit b i" by (simp only: takeWhile_eq_all_conv)
  have "b = 0"
  proof (rule bit_word_eqI)
    fix n assume "n < LENGTH(8)"
    then have "n \<in> set [7, 6, 5, 4, 3, 2, 1, 0 :: nat]" by auto
    then have "\<not> bit b n" using zero by blast
    then show "bit b n = bit 0 n" by simp
  qed
  with \<open>b \<noteq> 0\<close> show False by simp
qed

lemma leading_zeros_le: "leading_zeros bs \<le> 8 * length bs"
  by (induction bs) (auto dest: byte_leading_zeros_less)

lemma leading_zeros_full: "leading_zeros bs = 8 * length bs \<longleftrightarrow> (\<forall>b \<in> set bs. b = 0)"
proof (induction bs)
  case (Cons b bs)
  then show ?case using byte_leading_zeros_less [of b] leading_zeros_le [of bs] by auto
qed simp

lemma length_xor_distance [simp]: "length (xor_distance a b) = 32"
  by (simp add: xor_distance_def)

lemma xor_eq_zero: "a XOR b = (0 :: 'a::len word) \<longleftrightarrow> a = b"
  by (auto simp: bit_eq_iff bit_xor_iff)

lemma xor_distance_zero:
  assumes "length a = 32" "length b = 32"
  shows "(\<forall>x \<in> set (xor_distance a b). x = 0) \<longleftrightarrow> a = b"
  using assms by (auto simp: xor_distance_def xor_eq_zero intro: nth_equalityI)

lemma bucket_index_less: "bucket_index h rt n < 256"
  by (simp add: bucket_index_def Let_def)

section \<open>The invariant of the table\<close>

text \<open>
  256 buckets; the nodes of bucket \<open>i\<close> belong there, none is the local node, no identifier
  occurs twice and a bucket holds at most \<open>K\<close> nodes.
\<close>

definition bucket_wf :: "(string \<Rightarrow> bytes) \<Rightarrow> 'a RoutingTable \<Rightarrow> nat \<Rightarrow> 'a NodeInfo list \<Rightarrow> bool" where
  "bucket_wf h rt i nodes \<longleftrightarrow>
     length nodes \<le> K \<and> distinct (map ni_node_id nodes) \<and>
     (\<forall>n \<in> set nodes. bucket_index h rt (ni_node_id n) = i \<and> ni_node_id n \<noteq> rt_local_node_id rt)"

definition rt_wf :: "(string \<Rightarrow> bytes) \<Rightarrow> 'a RoutingTable \<Rightarrow> bool" where
  "rt_wf h rt \<longleftrightarrow> length (rt_buckets rt) = 256 \<and> (\<forall>i < 256. bucket_wf h rt i (rt_buckets rt ! i))"

definition known :: "'a RoutingTable \<Rightarrow> 'a NodeInfo set" where
  "known rt = (\<Union>b \<in> set (rt_buckets rt). set b)"

lemma position_Some:
  "position P xs = Some i \<Longrightarrow> i < length xs \<and> P (xs ! i) \<and> (\<forall>j < i. \<not> P (xs ! j))"
  by (induction xs arbitrary: i) (auto simp: nth_Cons split: if_splits nat.splits)

lemma position_None: "position P xs = None \<longleftrightarrow> (\<forall>x \<in> set xs. \<not> P x)"
  by (induction xs) auto

lemma split_at: "i < length xs \<Longrightarrow> xs = take i xs @ xs ! i # drop (Suc i) xs"
  by (simp add: id_take_nth_drop)

lemma bucket_update_present:
  assumes "position (\<lambda>n. ni_node_id n = node_id) nodes = Some i"
  shows "set (bucket_update node_id addr nodes) = set nodes"
    and "length (bucket_update node_id addr nodes) = length nodes"
    and "distinct (map ni_node_id (bucket_update node_id addr nodes)) = distinct (map ni_node_id nodes)"
proof -
  have i: "i < length nodes" using position_Some [OF assms] by simp
  note s = split_at [OF i]
  show "set (bucket_update node_id addr nodes) = set nodes"
    using assms by (subst (2) s) (auto simp: bucket_update_def)
  show "length (bucket_update node_id addr nodes) = length nodes"
    using assms i by (simp add: bucket_update_def)
  show "distinct (map ni_node_id (bucket_update node_id addr nodes)) = distinct (map ni_node_id nodes)"
    using assms by (subst (2) s) (auto simp: bucket_update_def)
qed

lemma bucket_update_wf:
  assumes wf: "bucket_wf h rt (bucket_index h rt node_id) nodes" and "node_id \<noteq> rt_local_node_id rt"
  shows "bucket_wf h rt (bucket_index h rt node_id) (bucket_update node_id addr nodes)"
proof (cases "position (\<lambda>n. ni_node_id n = node_id) nodes")
  case None
  then have "node_id \<notin> ni_node_id ` set nodes" by (auto simp: position_None)
  with None assms show ?thesis by (auto simp: bucket_wf_def bucket_update_def)
next
  case (Some i)
  then show ?thesis using wf by (simp add: bucket_wf_def bucket_update_present)
qed

lemma bucket_index_update [simp]: "bucket_index h (rt\<lparr>rt_buckets := bs\<rparr>) n = bucket_index h rt n"
  by (simp add: bucket_index_def)

lemma bucket_wf_update [simp]: "bucket_wf h (rt\<lparr>rt_buckets := bs\<rparr>) i b = bucket_wf h rt i b"
  by (simp add: bucket_wf_def)

lemma rt_wf_set:
  assumes "rt_wf h rt" and "bucket_wf h rt i b"
  shows "rt_wf h (rt\<lparr>rt_buckets := (rt_buckets rt)[i := b]\<rparr>)"
proof -
  have "bucket_wf h rt j ((rt_buckets rt)[i := b] ! j)" if "j < 256" for j
    using assms that by (cases "j = i") (simp_all add: rt_wf_def)
  then show ?thesis using assms(1) by (simp add: rt_wf_def)
qed

lemma rt_new_wf: "rt_wf h (rt_new h n)"
  by (simp add: rt_wf_def rt_new_def bucket_wf_def)

lemma rt_update_wf: "rt_wf h rt \<Longrightarrow> rt_wf h (rt_update h rt n a)"
proof -
  assume wf: "rt_wf h rt"
  then have "bucket_wf h rt (bucket_index h rt n) (rt_buckets rt ! bucket_index h rt n)"
    using bucket_index_less [of h rt n] by (simp add: rt_wf_def)
  then show ?thesis using wf by (simp add: rt_update_def Let_def rt_wf_set bucket_update_wf)
qed

lemma rt_remove_wf: "rt_wf h rt \<Longrightarrow> rt_wf h (rt_remove h rt n)"
  using bucket_index_less [of h rt n]
  by (auto simp: rt_remove_def Let_def intro!: rt_wf_set)
    (auto simp: rt_wf_def bucket_wf_def distinct_map_filter intro: le_trans [OF length_filter_le])

text \<open>The local node is in no bucket, and a known node is in the bucket of its identifier.\<close>

lemma known_bucket:
  assumes "rt_wf h rt"
  shows "n \<in> known rt \<longleftrightarrow> n \<in> set (rt_buckets rt ! bucket_index h rt (ni_node_id n))"
proof
  assume "n \<in> known rt"
  then obtain i where i: "i < 256" "n \<in> set (rt_buckets rt ! i)"
    using assms by (auto simp: known_def rt_wf_def in_set_conv_nth [of _ "rt_buckets rt"])
  then have "bucket_index h rt (ni_node_id n) = i" using assms by (auto simp: rt_wf_def bucket_wf_def)
  with i show "n \<in> set (rt_buckets rt ! bucket_index h rt (ni_node_id n))" by simp
next
  assume "n \<in> set (rt_buckets rt ! bucket_index h rt (ni_node_id n))"
  then show "n \<in> known rt"
    using assms bucket_index_less [of h rt] by (auto simp: known_def rt_wf_def intro: nth_mem)
qed

lemma bex_nth: "(\<exists>x \<in> set xs. P x) \<longleftrightarrow> (\<exists>j < length xs. P (xs ! j))"
  by (metis in_set_conv_nth)

lemma known_set:
  assumes wf: "rt_wf h rt" and i: "i < 256"
    and b: "\<And>m. m \<in> set b \<Longrightarrow> bucket_index h rt (ni_node_id m) = i"
  shows "known (rt\<lparr>rt_buckets := (rt_buckets rt)[i := b]\<rparr>) =
    {m \<in> known rt. bucket_index h rt (ni_node_id m) \<noteq> i} \<union> set b"
proof (rule set_eqI)
  fix m
  have len: "length (rt_buckets rt) = 256" using wf by (simp add: rt_wf_def)
  have "m \<in> known (rt\<lparr>rt_buckets := (rt_buckets rt)[i := b]\<rparr>) \<longleftrightarrow>
      (\<exists>j < 256. m \<in> set ((rt_buckets rt)[i := b] ! j))"
    unfolding known_def using len by (simp add: bex_nth)
  also have "\<dots> \<longleftrightarrow> m \<in> set b \<or> (\<exists>j < 256. j \<noteq> i \<and> m \<in> set (rt_buckets rt ! j))"
    using i len by (metis nth_list_update_eq nth_list_update_neq)
  also have "(\<exists>j < 256. j \<noteq> i \<and> m \<in> set (rt_buckets rt ! j)) \<longleftrightarrow>
      m \<in> known rt \<and> bucket_index h rt (ni_node_id m) \<noteq> i"
    unfolding known_bucket [OF wf]
    using wf bucket_index_less [of h rt "ni_node_id m"] by (auto simp: rt_wf_def bucket_wf_def)
  finally show "m \<in> known (rt\<lparr>rt_buckets := (rt_buckets rt)[i := b]\<rparr>) \<longleftrightarrow>
      m \<in> {m \<in> known rt. bucket_index h rt (ni_node_id m) \<noteq> i} \<union> set b" by auto
qed

lemma known_unique:
  assumes "rt_wf h rt" and "n \<in> known rt" "m \<in> known rt" and "ni_node_id n = ni_node_id m"
  shows "n = m"
proof -
  define b where "b = rt_buckets rt ! bucket_index h rt (ni_node_id n)"
  have "n \<in> set b" "m \<in> set b" using assms by (simp_all add: known_bucket [OF assms(1)] b_def)
  moreover have "distinct (map ni_node_id b)"
    using assms(1) bucket_index_less [of h rt "ni_node_id n"] by (simp add: rt_wf_def bucket_wf_def b_def)
  ultimately show ?thesis using assms(4) by (metis distinct_map inj_onD)
qed

lemma known_update:
  assumes wf: "rt_wf h rt" and n: "n \<noteq> rt_local_node_id rt"
  shows "known (rt_update h rt n a) =
    (if n \<in> ni_node_id ` known rt \<or> K \<le> length (rt_buckets rt ! bucket_index h rt n) then known rt
     else insert \<lparr>ni_node_id = n, ni_addr = a\<rparr> (known rt))"
proof -
  define i where "i = bucket_index h rt n"
  define b where "b = rt_buckets rt ! i"
  have i: "i < 256" by (simp add: i_def bucket_index_less)
  have b: "bucket_index h rt (ni_node_id m) = i" if "m \<in> set b" for m
    using wf i that by (simp add: rt_wf_def bucket_wf_def b_def)
  have b': "m \<in> set b \<longleftrightarrow> m \<in> known rt \<and> bucket_index h rt (ni_node_id m) = i" for m
    using b [of m] known_bucket [OF wf, of m] by (auto simp: b_def)
  have mem: "n \<in> ni_node_id ` known rt \<longleftrightarrow> (\<exists>m \<in> set b. ni_node_id m = n)"
  proof
    assume "n \<in> ni_node_id ` known rt"
    then obtain m where "m \<in> known rt" "ni_node_id m = n" by blast
    then have "m \<in> set b" by (simp add: b' i_def)
    with \<open>ni_node_id m = n\<close> show "\<exists>m \<in> set b. ni_node_id m = n" by blast
  next
    assume "\<exists>m \<in> set b. ni_node_id m = n"
    then show "n \<in> ni_node_id ` known rt" using b' by blast
  qed
  have upd: "rt_update h rt n a = rt\<lparr>rt_buckets := (rt_buckets rt)[i := bucket_update n a b]\<rparr>"
    using n by (simp add: rt_update_def Let_def i_def b_def)
  have set_upd: "set (bucket_update n a b) =
      (if (\<exists>m \<in> set b. ni_node_id m = n) \<or> K \<le> length b then set b
       else insert \<lparr>ni_node_id = n, ni_addr = a\<rparr> (set b))"
  proof (cases "position (\<lambda>m. ni_node_id m = n) b")
    case None
    then have "\<not> (\<exists>m \<in> set b. ni_node_id m = n)" by (simp add: position_None)
    with None show ?thesis by (simp add: bucket_update_def)
  next
    case (Some j)
    then have "\<exists>m \<in> set b. ni_node_id m = n"
      using position_Some [OF Some] nth_mem [of j b] by blast
    with Some show ?thesis by (simp add: bucket_update_present)
  qed
  have "bucket_index h rt (ni_node_id m) = i" if "m \<in> set (bucket_update n a b)" for m
  proof -
    have "m \<in> set b \<or> m = \<lparr>ni_node_id = n, ni_addr = a\<rparr>"
      using that unfolding set_upd by (auto split: if_splits)
    then show ?thesis using b by (elim disjE) (simp_all add: i_def)
  qed
  from known_set [OF wf i this]
  have "known (rt_update h rt n a) = {m \<in> known rt. bucket_index h rt (ni_node_id m) \<noteq> i} \<union> set (bucket_update n a b)"
    unfolding upd .
  moreover have "{m \<in> known rt. bucket_index h rt (ni_node_id m) \<noteq> i} \<union> set b = known rt"
    by (auto simp: b')
  ultimately show ?thesis
    unfolding i_def [symmetric] b_def [symmetric] mem set_upd by (simp add: Un_insert_right)
qed

lemma known_remove:
  assumes wf: "rt_wf h rt"
  shows "known (rt_remove h rt n) = {m \<in> known rt. ni_node_id m \<noteq> n}"
proof -
  define i where "i = bucket_index h rt n"
  have i: "i < 256" by (simp add: i_def bucket_index_less)
  have "known (rt_remove h rt n) = {m \<in> known rt. bucket_index h rt (ni_node_id m) \<noteq> i} \<union>
      set (filter (\<lambda>m. ni_node_id m \<noteq> n) (rt_buckets rt ! i))"
    unfolding rt_remove_def Let_def i_def [symmetric]
    by (rule known_set [OF wf i]) (use wf i in \<open>auto simp: rt_wf_def bucket_wf_def\<close>)
  moreover have "m \<in> set (rt_buckets rt ! i) \<longleftrightarrow> m \<in> known rt \<and> bucket_index h rt (ni_node_id m) = i" for m
    using known_bucket [OF wf, of m] wf i by (auto simp: rt_wf_def bucket_wf_def)
  ultimately show ?thesis by (auto simp: i_def)
qed

section \<open>Closest nodes\<close>

lemma distinct_concat_idx:
  assumes "\<And>i. i < length xss \<Longrightarrow> distinct (map f (xss ! i))"
    and "\<And>i j. i < length xss \<Longrightarrow> j < length xss \<Longrightarrow> i \<noteq> j \<Longrightarrow>
      set (map f (xss ! i)) \<inter> set (map f (xss ! j)) = {}"
  shows "distinct (concat (map (map f) xss))"
  using assms
proof (induction xss)
  case (Cons xs xss)
  have "distinct (concat (map (map f) xss))"
    by (rule Cons.IH) (use Cons.prems(1) [of "Suc _"] Cons.prems(2) [of "Suc _" "Suc _"] in auto)
  moreover have "set (map f xs) \<inter> set (map f ys) = {}" if "ys \<in> set xss" for ys
    using that Cons.prems(2) [of 0 "Suc _"] by (fastforce simp: in_set_conv_nth)
  moreover have "distinct (map f xs)" using Cons.prems(1) [of 0] by simp
  ultimately show ?case by (fastforce)
qed simp

lemma distinct_known: "rt_wf h rt \<Longrightarrow> distinct (map ni_node_id (concat (rt_buckets rt)))"
proof -
  assume wf: "rt_wf h rt"
  have bs: "bucket_wf h rt i (rt_buckets rt ! i)" if "i < length (rt_buckets rt)" for i
    using wf that by (simp add: rt_wf_def)
  have "distinct (concat (map (map ni_node_id) (rt_buckets rt)))"
  proof (rule distinct_concat_idx)
    show "distinct (map ni_node_id (rt_buckets rt ! i))" if "i < length (rt_buckets rt)" for i
      using bs [OF that] by (simp add: bucket_wf_def)
    show "set (map ni_node_id (rt_buckets rt ! i)) \<inter> set (map ni_node_id (rt_buckets rt ! j)) = {}"
      if "i < length (rt_buckets rt)" "j < length (rt_buckets rt)" "i \<noteq> j" for i j
      using bs [OF that(1)] bs [OF that(2)] that(3) by (fastforce simp: bucket_wf_def)
  qed
  then show ?thesis by (simp add: map_concat)
qed

lemma sorted_take_drop:
  assumes "sorted (map f xs)" and "x \<in> set (take n xs)" and "y \<in> set (drop n xs)"
  shows "f x \<le> f y"
proof -
  have "sorted (map f (take n xs) @ map f (drop n xs))"
    using assms(1) by (simp flip: map_append)
  with assms(2,3) show ?thesis by (auto simp: sorted_append)
qed

lemma find_closest_perm:
  obtains xs where "find_closest_nodes h rt t limit = take limit xs"
    "mset xs = mset (concat (rt_buckets rt))"
    "sorted (map (\<lambda>n. xor_distance (h t) (h (ni_node_id n))) xs)"
proof -
  define d where "d n = xor_distance (h t) (h (ni_node_id n))" for n :: "'a NodeInfo"
  define cs where "cs = map (\<lambda>n. (n, d n)) (concat (rt_buckets rt))"
  define xs where "xs = map fst (sort_key snd cs)"
  have eq: "map d xs = map snd (sort_key snd cs)"
  proof -
    have "snd c = d (fst c)" if "c \<in> set (sort_key snd cs)" for c
      using that by (auto simp: cs_def)
    then show ?thesis by (simp add: xs_def)
  qed
  have "find_closest_nodes h rt t limit = take limit xs"
    by (simp add: find_closest_nodes_def Let_def xs_def cs_def d_def take_map)
  moreover have "mset xs = mset (concat (rt_buckets rt))"
  proof -
    have "mset xs = mset (map fst cs)" by (simp add: xs_def)
    then show ?thesis by (simp add: cs_def comp_def)
  qed
  moreover have "sorted (map d xs)" unfolding eq by (rule sorted_sort_key)
  ultimately show thesis using that d_def [abs_def] by metis
qed

section \<open>Properties\<close>

datatype 'a discovery_op = Update string 'a | Remove string

fun discovery_step :: "(string \<Rightarrow> bytes) \<Rightarrow> 'a discovery_op \<Rightarrow> 'a RoutingTable \<Rightarrow> 'a RoutingTable" where
  "discovery_step h (Update n a) rt = rt_update h rt n a"
| "discovery_step h (Remove n) rt = rt_remove h rt n"

text \<open>
  C16: after any sequence of updates and removals the table has 256 buckets of at most 20 nodes,
  every node is in the bucket given by the length of the common prefix of its hash and the local
  hash, no identifier is stored twice, and the local node is never stored.
\<close>

theorem discovery_invariant: "rt_wf h (fold (discovery_step h) ops (rt_new h n))"
proof -
  have "rt_wf h (fold (discovery_step h) ops rt)" if "rt_wf h rt" for rt
    using that
  proof (induction ops arbitrary: rt)
    case (Cons op ops)
    then show ?case by (cases op) (simp_all add: rt_update_wf rt_remove_wf)
  qed simp
  then show ?thesis using rt_new_wf .
qed

text \<open>
  C17: \<^verbatim>\<open>find_closest_nodes\<close> returns the closest known nodes. The result has as many nodes as asked
  for, or all known nodes if there are fewer; its nodes are known and pairwise different, in
  ascending XOR distance to the target; and no known node outside the result is closer than one in it.
\<close>

theorem find_closest_nodes_correct:
  assumes "rt_wf h rt" and r_def: "r = find_closest_nodes h rt t limit"
  shows "length r = min limit (card (known rt)) \<and> set r \<subseteq> known rt \<and> distinct (map ni_node_id r) \<and>
    sorted (map (\<lambda>n. xor_distance (h t) (h (ni_node_id n))) r) \<and>
    (\<forall>n \<in> known rt - set r. \<forall>m \<in> set r.
       xor_distance (h t) (h (ni_node_id m)) \<le> xor_distance (h t) (h (ni_node_id n)))"
proof -
  define d where "d n = xor_distance (h t) (h (ni_node_id n))" for n :: "'a NodeInfo"
  obtain xs where xs: "r = take limit xs" "mset xs = mset (concat (rt_buckets rt))" "sorted (map d xs)"
    using find_closest_perm [of h rt t limit] unfolding r_def d_def [abs_def] .
  have set_xs: "set xs = known rt" using mset_eq_setD [OF xs(2)] by (simp add: known_def)
  have ids: "distinct (map ni_node_id xs)"
    using distinct_known [OF assms(1)] xs(2) by (metis mset_eq_imp_distinct_iff mset_map)
  then have "length xs = card (known rt)"
    using distinct_card [of xs] set_xs by (simp add: distinct_map)
  then have "length r = min limit (card (known rt))" by (simp add: xs(1) min.commute)
  moreover have "set r \<subseteq> known rt" using set_take_subset [of limit xs] by (simp add: xs(1) set_xs)
  moreover have "distinct (map ni_node_id r)" using ids by (simp add: xs(1) flip: take_map)
  moreover have "sorted (map d r)" using xs(3) by (simp add: xs(1) flip: take_map)
  moreover have "d m \<le> d n" if "n \<in> known rt - set r" "m \<in> set r" for n m
  proof -
    have "set xs = set (take limit xs) \<union> set (drop limit xs)" by (metis append_take_drop_id set_append)
    then have "n \<in> set (drop limit xs)" using that(1) set_xs by (auto simp: xs(1))
    then show ?thesis using sorted_take_drop [OF xs(3)] that(2) by (simp add: xs(1))
  qed
  ultimately show ?thesis by (simp add: d_def [abs_def])
qed

text \<open>A table of two nodes, with a hash that repeats the length of the identifier.\<close>

definition demo_hash :: "string \<Rightarrow> bytes" where
  "demo_hash s = replicate 32 (of_nat (length s))"

theorem find_closest_nodes_correct_witness:
  "set (find_closest_nodes demo_hash (rt_update demo_hash (rt_new demo_hash ''a'') ''bb'' ()) ''c'' 1) \<subseteq>
     known (rt_update demo_hash (rt_new demo_hash ''a'') ''bb'' ())"
  using find_closest_nodes_correct [OF rt_update_wf [OF rt_new_wf] refl, of demo_hash "''a''" "''bb''" "()" "''c''" 1]
  by (elim conjE)

text \<open>
  What \<^verbatim>\<open>update\<close> and \<^verbatim>\<open>remove\<close> change. An update adds an unknown node if its bucket has room and
  otherwise leaves the set of known nodes as it was: in particular a node that is already known
  keeps the address it was first seen with. A removal forgets exactly the node it names.
\<close>

theorem update_remove_known:
  assumes "rt_wf h rt" and "n \<noteq> rt_local_node_id rt"
  shows "known (rt_update h rt n a) =
      (if n \<in> ni_node_id ` known rt \<or> K \<le> length (rt_buckets rt ! bucket_index h rt n) then known rt
       else insert \<lparr>ni_node_id = n, ni_addr = a\<rparr> (known rt)) \<and>
    known (rt_remove h rt n) = {m \<in> known rt. ni_node_id m \<noteq> n}"
  using known_update [OF assms] known_remove [OF assms(1)] by blast

theorem update_remove_known_witness:
  "known (rt_update demo_hash (rt_update demo_hash (rt_new demo_hash ''a'') ''bb'' (1 :: nat)) ''bb'' 2) =
     {\<lparr>ni_node_id = ''bb'', ni_addr = 1\<rparr>}"
proof -
  let ?rt = "rt_new demo_hash ''a'' :: nat RoutingTable"
  have none: "known ?rt = {}" by (simp add: known_def rt_new_def)
  have "K > length (rt_buckets ?rt ! bucket_index demo_hash ?rt ''bb'')"
    using bucket_index_less [of demo_hash ?rt "''bb''"] by (simp add: rt_new_def K_def)
  then have one: "known (rt_update demo_hash ?rt ''bb'' 1) = {\<lparr>ni_node_id = ''bb'', ni_addr = 1\<rparr>}"
    using update_remove_known [OF rt_new_wf, of "''bb''" demo_hash "''a''" "1 :: nat"] none
    by (simp add: rt_new_def)
  moreover have "rt_local_node_id (rt_update demo_hash ?rt ''bb'' 1) = ''a''"
    by (simp add: rt_update_def rt_new_def Let_def)
  ultimately show ?thesis
    using update_remove_known [OF rt_update_wf [OF rt_new_wf], of "''bb''" demo_hash "''a''" "''bb''" "1 :: nat" 2]
    by simp
qed

end
