(* ===== verification/Reconciliation.thy ===== *)
theory Reconciliation
  imports Complex_Main Flow_Proto
begin

text \<open>
  Reconnection backoff, shared sessions and their garbage collection
  (\<^verbatim>\<open>stric-flow/src/reconciliation.rs\<close>). A \<^verbatim>\<open>Duration\<close> and an \<^verbatim>\<open>Instant\<close> are counted in nanoseconds;
  the random jitter is an argument. The floating-point seconds of the last three lines of
  \<^verbatim>\<open>next_backoff\<close> are exact reals here, without the rounding of \<^verbatim>\<open>f64\<close>.
\<close>

section \<open>Exponential backoff\<close>

definition DURATION_MAX :: nat where
  "DURATION_MAX = (2 ^ 64 - 1) * 1000000000 + 999999999"

record ExponentialBackoff =
  eb_base :: nat
  eb_max :: nat
  eb_attempts :: u32

definition backoff_new :: "nat \<Rightarrow> nat \<Rightarrow> ExponentialBackoff" where
  "backoff_new base mx = \<lparr>eb_base = base, eb_max = mx, eb_attempts = 0\<rparr>"

definition saturating_pow2 :: "nat \<Rightarrow> nat" where
  "saturating_pow2 n = min (2 ^ n) (2 ^ 32 - 1)"

text \<open>The capped delay, before the jitter.\<close>

definition raw_backoff :: "ExponentialBackoff \<Rightarrow> nat" where
  "raw_backoff eb =
     (let factor = saturating_pow2 (unat (eb_attempts eb) - 1);
          next = min (eb_base eb * factor) DURATION_MAX
      in if next > eb_max eb then eb_max eb else next)"

definition next_backoff :: "bool \<Rightarrow> real \<Rightarrow> ExponentialBackoff \<Rightarrow> (real \<times> ExponentialBackoff) exec" where
  "next_backoff checks jitter_percent eb =
     exec_bind (rust_add checks (eb_attempts eb) 1) (\<lambda>n.
       let eb' = eb\<lparr>eb_attempts := n\<rparr>;
           secs = real (raw_backoff eb') / 1000000000;
           final_secs = secs + secs * jitter_percent
       in Ret (if final_secs < 1 then 1 else final_secs, eb'))"

definition backoff_reset :: "ExponentialBackoff \<Rightarrow> ExponentialBackoff" where
  "backoff_reset eb = eb\<lparr>eb_attempts := 0\<rparr>"

text \<open>The delays of \<open>n\<close> calls in a row, with the jitters drawn.\<close>

fun backoff_delays :: "bool \<Rightarrow> real list \<Rightarrow> ExponentialBackoff \<Rightarrow> (real list \<times> ExponentialBackoff) exec" where
  "backoff_delays checks [] eb = Ret ([], eb)"
| "backoff_delays checks (j # js) eb =
     exec_bind (next_backoff checks j eb) (\<lambda>(d, eb').
       exec_bind (backoff_delays checks js eb') (\<lambda>(ds, eb''). Ret (d # ds, eb'')))"

section \<open>Sessions\<close>

record Session =
  ses_session_id :: string
  ses_creator_node :: string
  ses_flow_ids :: "string list"
  ses_created_at :: u64
  ses_metadata :: "(string, string) hmap"
  ses_state_data :: bytes
  ses_state_version :: u64
  ses_state_timestamp :: u64

type_synonym merge_fn = "bytes \<Rightarrow> bytes \<Rightarrow> string + bytes"

text \<open>\<^verbatim>\<open>now.duration_since(last_seen)\<close> is zero when \<open>last_seen\<close> is later.\<close>

definition expired :: "(string, nat) hmap \<Rightarrow> nat \<Rightarrow> nat \<Rightarrow> Session \<Rightarrow> bool" where
  "expired node_last_seen session_ttl now session =
     (case hm_get node_last_seen (ses_creator_node session) of
        Some last_seen \<Rightarrow> now - last_seen > session_ttl
      | None \<Rightarrow> False)"

definition gc_inactive_sessions ::
  "(string, Session) hmap \<Rightarrow> (string, nat) hmap \<Rightarrow> nat \<Rightarrow> nat \<Rightarrow> (string, Session) hmap \<times> string list"
where
  "gc_inactive_sessions sessions node_last_seen session_ttl now =
     (hm_retain (\<lambda>_ s. \<not> expired node_last_seen session_ttl now s) sessions,
      map fst (filter (\<lambda>(_, s). expired node_last_seen session_ttl now s) sessions))"

section \<open>Lemmas\<close>

lemma saturating_pow2_exact: "n \<le> 31 \<Longrightarrow> saturating_pow2 n = 2 ^ n"
proof -
  assume "n \<le> 31"
  then have "(2 :: nat) ^ n \<le> 2 ^ 31" by (rule power_increasing) simp
  then show ?thesis by (simp add: saturating_pow2_def)
qed

lemma saturating_pow2_capped: "32 \<le> n \<Longrightarrow> saturating_pow2 n = 2 ^ 32 - 1"
proof -
  assume "32 \<le> n"
  then have "(2 :: nat) ^ 32 \<le> 2 ^ n" by (rule power_increasing) simp
  then show ?thesis by (simp add: saturating_pow2_def)
qed

lemma raw_backoff_eq:
  assumes "eb_max eb \<le> DURATION_MAX" and "eb_max eb \<le> eb_base eb * (2 ^ 32 - 1)"
  shows "raw_backoff eb = min (eb_max eb) (eb_base eb * 2 ^ (unat (eb_attempts eb) - 1))"
proof (cases "unat (eb_attempts eb) - 1 \<le> 31")
  case True
  then show ?thesis using assms(1) by (auto simp: raw_backoff_def Let_def saturating_pow2_exact)
next
  case False
  define n where "n = unat (eb_attempts eb) - 1"
  have n: "32 \<le> n" using False by (simp add: n_def)
  then have "(2 :: nat) ^ 32 \<le> 2 ^ n" by (rule power_increasing) simp
  then have "(2 :: nat) ^ 32 - 1 \<le> 2 ^ n" by linarith
  then have "eb_base eb * (2 ^ 32 - 1) \<le> eb_base eb * 2 ^ n" by (rule mult_le_mono2)
  then have "eb_max eb \<le> eb_base eb * 2 ^ n" using assms(2) by linarith
  with assms n show ?thesis
    unfolding raw_backoff_def n_def [symmetric] Let_def by (auto simp: saturating_pow2_capped)
qed

lemma next_backoff_result:
  assumes "unat (eb_attempts eb) < 2 ^ 32 - 1"
  defines "eb' \<equiv> eb\<lparr>eb_attempts := eb_attempts eb + 1\<rparr>"
  shows "next_backoff checks j eb =
      Ret (max 1 (real (raw_backoff eb') / 1000000000 * (1 + j)), eb')"
    and "unat (eb_attempts eb') = unat (eb_attempts eb) + 1"
proof -
  have fit: "unat (eb_attempts eb) + unat (1 :: u32) < 2 ^ LENGTH(32)" using assms(1) by simp
  show "next_backoff checks j eb = Ret (max 1 (real (raw_backoff eb') / 1000000000 * (1 + j)), eb')"
    using rust_add_exact(1) [OF fit, of checks]
    by (simp add: next_backoff_def eb'_def Let_def max_def algebra_simps)
  show "unat (eb_attempts eb') = unat (eb_attempts eb) + 1"
    using rust_add_exact(2) [OF fit] by (simp add: eb'_def)
qed

lemma backoff_delays_eq:
  assumes "mx \<le> DURATION_MAX" and "mx \<le> base * (2 ^ 32 - 1)"
    and "unat (eb_attempts eb) + length js < 2 ^ 32" and "eb_base eb = base" and "eb_max eb = mx"
  shows "\<exists>ds eb'. backoff_delays checks js eb = Ret (ds, eb') \<and> length ds = length js \<and>
      (\<forall>i < length js. ds ! i = max 1 (real (min mx (base * 2 ^ (unat (eb_attempts eb) + i))) / 1000000000 * (1 + js ! i))) \<and>
      unat (eb_attempts eb') = unat (eb_attempts eb) + length js"
  using assms(3-5)
proof (induction js arbitrary: eb)
  case (Cons j js)
  define eb' where "eb' = eb\<lparr>eb_attempts := eb_attempts eb + 1\<rparr>"
  have n: "unat (eb_attempts eb) < 2 ^ 32 - 1" using Cons.prems(1) by simp
  note step = next_backoff_result [OF n, folded eb'_def]
  have raw: "raw_backoff eb' = min mx (base * 2 ^ unat (eb_attempts eb))"
    using raw_backoff_eq [of eb'] assms(1,2) Cons.prems step(2) by (simp add: eb'_def)
  obtain ds eb'' where ds: "backoff_delays checks js eb' = Ret (ds, eb'')" "length ds = length js"
    "\<forall>i < length js. ds ! i = max 1 (real (min mx (base * 2 ^ (unat (eb_attempts eb') + i))) / 1000000000 * (1 + js ! i))"
    "unat (eb_attempts eb'') = unat (eb_attempts eb') + length js"
    using Cons.IH [of eb'] Cons.prems step(2) by (auto simp: eb'_def)
  show ?case
    using ds step raw by (auto simp: nth_Cons split: nat.split)
qed simp

text \<open>A delay with a jitter of at most ten percent.\<close>

lemma jitter_bounds:
  assumes "0 \<le> r" and "-0.1 \<le> j" and "j \<le> (0.1 :: real)"
  shows "0.9 * r \<le> r * (1 + j)" and "r * (1 + j) \<le> 1.1 * r"
  using assms mult_left_mono [of "0.9" "1 + j" r] mult_left_mono [of "1 + j" "1.1" r]
  by (simp_all add: mult.commute)

lemma hm_get_filter_entries: "hm_wf m \<Longrightarrow> k \<in> set (map fst (filter (\<lambda>(_, v). P v) m)) \<longleftrightarrow> (\<exists>v. hm_get m k = Some v \<and> P v)"
  using hm.entries_get [of m k] by force

section \<open>Properties\<close>

text \<open>
  The \<open>i\<close>-th delay in a row (counting from 0) is \<open>base * 2^i\<close>, capped at \<open>max\<close>, changed by the
  jitter drawn and never below one second. So with a jitter of at most ten percent it lies between
  nine and eleven tenths of the capped delay, or is one second: the cap can be exceeded by a tenth
  and delays below a second do not occur. No number of calls below \<open>2^32\<close> panics.
\<close>

theorem backoff_delays_bounded:
  assumes "mx \<le> DURATION_MAX" and "mx \<le> base * (2 ^ 32 - 1)" and "length js < 2 ^ 32"
    and "i < length js" and "-0.1 \<le> js ! i" and "js ! i \<le> 0.1"
  shows "\<exists>ds eb. backoff_delays checks js (backoff_new base mx) = Ret (ds, eb) \<and> length ds = length js \<and>
    (let r = real (min mx (base * 2 ^ i)) / 1000000000 in
     ds ! i = max 1 (r * (1 + js ! i)) \<and> max 1 (0.9 * r) \<le> ds ! i \<and> ds ! i \<le> max 1 (1.1 * r))"
proof -
  define r where "r = real (min mx (base * 2 ^ i)) / 1000000000"
  have "0 \<le> r" by (simp add: r_def)
  note jitter_bounds [OF this assms(5, 6)]
  moreover obtain ds eb where "backoff_delays checks js (backoff_new base mx) = Ret (ds, eb)" "length ds = length js"
    "ds ! i = max 1 (r * (1 + js ! i))"
    using backoff_delays_eq [OF assms(1, 2), of "backoff_new base mx" js checks] assms(3,4)
    by (auto simp: backoff_new_def r_def)
  ultimately show ?thesis unfolding r_def [symmetric] Let_def by fastforce
qed

theorem backoff_delays_bounded_witness:
  "\<exists>ds eb. backoff_delays True [0, 0.1] (backoff_new 1000000000 60000000000) = Ret (ds, eb) \<and> ds ! 1 \<le> 2.2"
  using backoff_delays_bounded [of 60000000000 1000000000 "[0, 0.1]" 1 True] by (auto simp: DURATION_MAX_def Let_def)


text \<open>Two sessions; the creator of the first was last seen 400 time units ago.\<close>

definition demo_session :: "string \<Rightarrow> string \<Rightarrow> Session" where
  "demo_session i n = \<lparr>ses_session_id = i, ses_creator_node = n, ses_flow_ids = [], ses_created_at = 0,
     ses_metadata = [], ses_state_data = [], ses_state_version = 0, ses_state_timestamp = 0\<rparr>"


end
