(* ===== verification/Registry.thy ===== *)
theory Registry
  imports Flow_Proto
begin

text \<open>
  The registry of message parsers (\<^verbatim>\<open>stric-flow/src/registry.rs\<close>). A parser gives an error text or
  a value; \<^verbatim>\<open>Box<dyn Any>\<close> is a type of dynamic values into which \<^verbatim>\<open>register\<close> boxes what the parser
  of a concrete type returns.
\<close>

type_synonym 'any MessageRegistry = "(string, bytes \<Rightarrow> string + 'any) hmap"

definition registry_new :: "'any MessageRegistry" where
  "registry_new = []"

definition register ::
  "('t \<Rightarrow> 'any) \<Rightarrow> 'any MessageRegistry \<Rightarrow> string \<Rightarrow> (bytes \<Rightarrow> string + 't) \<Rightarrow> 'any MessageRegistry"
where
  "register box reg message_type parser =
     hm_insert message_type
       (\<lambda>bytes. case parser bytes of Inl e \<Rightarrow> Inl e | Inr parsed \<Rightarrow> Inr (box parsed)) reg"

definition registry_decode :: "'any MessageRegistry \<Rightarrow> string \<Rightarrow> bytes \<Rightarrow> string + 'any" where
  "registry_decode reg message_type data =
     (case hm_get reg message_type of
        None \<Rightarrow> Inl (''No parser registered for message type: '' @ message_type)
      | Some parser \<Rightarrow> parser data)"

text \<open>
  Decoding uses the parser registered last for exactly this message type. After any
  sequence of registrations, a payload of a type that was registered is decoded by its last
  parser (its error or its boxed value), and a type never registered gives the error naming it.
\<close>

theorem decode_last_registered:
  "registry_decode (fold (\<lambda>(t, p) reg. register box reg t p) regs registry_new) message_type data =
     (case map_of (rev regs) message_type of
        None \<Rightarrow> Inl (''No parser registered for message type: '' @ message_type)
      | Some p \<Rightarrow> map_sum id box (p data))"
proof -
  have "hm_get (fold (\<lambda>(t, p) reg. register box reg t p) regs reg) message_type =
      (case map_of (rev regs) message_type of
         None \<Rightarrow> hm_get reg message_type
       | Some p \<Rightarrow> Some (\<lambda>bytes. case p bytes of Inl e \<Rightarrow> Inl e | Inr v \<Rightarrow> Inr (box v)))" for reg
  proof (induction regs arbitrary: reg)
    case (Cons r regs)
    then show ?case by (cases r) (auto simp: register_def split: option.split)
  qed simp
  then show ?thesis
    by (auto simp: registry_decode_def registry_new_def split: option.split sum.split)
qed

end
