(* ===== verification/Backpressure.thy ===== *)
theory Backpressure
  imports Flow_Proto
begin

text \<open>
  The rate limiter that a node puts before its writers (\<^verbatim>\<open>stric-flow/src/backpressure.rs\<close>). The
  token bucket of the \<^verbatim>\<open>governor\<close> library is a type \<open>'l\<close> with two operations, which are
  arguments. The methods run concurrently: \<^verbatim>\<open>wait_for_bytes\<close> is a program with one control point
  per await or shared read, and the step relation interleaves one waiter with the callers of
  \<^verbatim>\<open>set_rate\<close>, \<^verbatim>\<open>pause\<close> and \<^verbatim>\<open>resume\<close>.
\<close>

section \<open>State and operations\<close>

datatype check_result = Granted | NotUntil nat | InsufficientCapacity

text \<open>\<^verbatim>\<open>RateLimiter::direct(Quota::per_second(rate))\<close> and \<^verbatim>\<open>check_n\<close> at a point in time.\<close>

record 'l governor_ops =
  gov_direct :: "u32 \<Rightarrow> 'l"
  gov_check_n :: "'l \<Rightarrow> u32 \<Rightarrow> nat \<Rightarrow> check_result \<times> 'l"

record 'l limiter =
  tb_limiter :: 'l
  tb_paused :: bool
  tb_max_rate :: u32

definition effective_rate :: "u32 \<Rightarrow> u32" where
  "effective_rate max_rate = (if max_rate = 0 then u32_MAX else max_rate)"

definition limiter_new :: "'l governor_ops \<Rightarrow> u32 \<Rightarrow> 'l limiter" where
  "limiter_new gov max_rate =
     \<lparr>tb_limiter = gov_direct gov (effective_rate max_rate), tb_paused = False, tb_max_rate = max_rate\<rparr>"

definition set_rate :: "'l governor_ops \<Rightarrow> u32 \<Rightarrow> 'l limiter \<Rightarrow> 'l limiter" where
  "set_rate gov max_rate l =
     l\<lparr>tb_max_rate := max_rate, tb_limiter := gov_direct gov (effective_rate max_rate)\<rparr>"

definition pause :: "'l limiter \<Rightarrow> 'l limiter" where
  "pause l = l\<lparr>tb_paused := True\<rparr>"

text \<open>The control points of \<^verbatim>\<open>wait_for_bytes\<close>.\<close>

datatype wait_pc =
    Gate                 \<comment> \<open>top of the first loop\<close>
  | Gate_Seen            \<comment> \<open>\<open>is_paused\<close> was true, \<open>notified\<close> not yet called\<close>
  | Gate_Wait            \<comment> \<open>waiting for a notification\<close>
  | Read_Rate
  | Acquire              \<comment> \<open>top of the second loop\<close>
  | Sleep nat            \<comment> \<open>sleeping for a duration\<close>
  | Recheck              \<comment> \<open>condition of the inner loop\<close>
  | Recheck_Seen
  | Recheck_Wait
  | Returned

text \<open>
  The shared state, the notifications still to be sent by callers of \<^verbatim>\<open>resume\<close> that have cleared
  the flag, the waiter, and the time.
\<close>

record 'l bp_state =
  bs_limiter :: "'l limiter"
  bs_notify_due :: nat
  bs_pc :: wait_pc
  bs_now :: nat

definition wake :: "wait_pc \<Rightarrow> wait_pc" where
  "wake pc = (case pc of Gate_Wait \<Rightarrow> Gate | Recheck_Wait \<Rightarrow> Recheck | _ \<Rightarrow> pc)"

text \<open>The steps of the waiter: one call of \<^verbatim>\<open>wait_for_bytes(bytes)\<close>.\<close>

definition wait_step :: "'l governor_ops \<Rightarrow> u32 \<Rightarrow> 'l bp_state \<Rightarrow> 'l bp_state option" where
  "wait_step gov bytes s =
     (case bs_pc s of
        Gate \<Rightarrow> Some (s\<lparr>bs_pc := (if tb_paused (bs_limiter s) then Gate_Seen else Read_Rate)\<rparr>)
      | Gate_Seen \<Rightarrow> Some (s\<lparr>bs_pc := Gate_Wait\<rparr>)
      | Gate_Wait \<Rightarrow> None
      | Read_Rate \<Rightarrow>
          Some (s\<lparr>bs_pc := (if tb_max_rate (bs_limiter s) = 0 \<or> bytes = 0 then Returned else Acquire)\<rparr>)
      | Acquire \<Rightarrow>
          (let (r, l') = gov_check_n gov (tb_limiter (bs_limiter s)) bytes (bs_now s);
               s' = s\<lparr>bs_limiter := (bs_limiter s)\<lparr>tb_limiter := l'\<rparr>\<rparr>
           in Some (case r of
                Granted \<Rightarrow> s'\<lparr>bs_pc := Returned\<rparr>
              | NotUntil d \<Rightarrow> s'\<lparr>bs_pc := Sleep (bs_now s + d)\<rparr>
              | InsufficientCapacity \<Rightarrow> s'\<lparr>bs_pc := Returned\<rparr>))
      | Sleep t \<Rightarrow> if t \<le> bs_now s then Some (s\<lparr>bs_pc := Recheck\<rparr>) else None
      | Recheck \<Rightarrow> Some (s\<lparr>bs_pc := (if tb_paused (bs_limiter s) then Recheck_Seen else Acquire)\<rparr>)
      | Recheck_Seen \<Rightarrow> Some (s\<lparr>bs_pc := Recheck_Wait\<rparr>)
      | Recheck_Wait \<Rightarrow> None
      | Returned \<Rightarrow> None)"

datatype bp_event = Ev_Wait | Ev_SetRate u32 | Ev_Pause | Ev_Unpause | Ev_Notify | Ev_Tick nat

text \<open>\<^verbatim>\<open>resume\<close> clears the flag (\<open>Ev_Unpause\<close>) and then calls \<^verbatim>\<open>notify_waiters\<close> (\<open>Ev_Notify\<close>).\<close>

inductive bp_step :: "'l governor_ops \<Rightarrow> u32 \<Rightarrow> 'l bp_state \<Rightarrow> bp_event \<Rightarrow> 'l bp_state \<Rightarrow> bool"
  for gov :: "'l governor_ops" and bytes :: u32
where
  step_wait: "wait_step gov bytes s = Some s' \<Longrightarrow> bp_step gov bytes s Ev_Wait s'"
| step_set_rate: "bp_step gov bytes s (Ev_SetRate r) (s\<lparr>bs_limiter := set_rate gov r (bs_limiter s)\<rparr>)"
| step_pause: "bp_step gov bytes s Ev_Pause (s\<lparr>bs_limiter := pause (bs_limiter s)\<rparr>)"
| step_unpause: "bp_step gov bytes s Ev_Unpause
    (s\<lparr>bs_limiter := (bs_limiter s)\<lparr>tb_paused := False\<rparr>, bs_notify_due := Suc (bs_notify_due s)\<rparr>)"
| step_notify: "bs_notify_due s = Suc n \<Longrightarrow>
    bp_step gov bytes s Ev_Notify (s\<lparr>bs_notify_due := n, bs_pc := wake (bs_pc s)\<rparr>)"
| step_tick: "bp_step gov bytes s (Ev_Tick d) (s\<lparr>bs_now := bs_now s + d\<rparr>)"

inductive_cases bp_waitE: "bp_step gov bytes s Ev_Wait s'"
inductive_cases bp_stepE: "bp_step gov bytes s e s'"

inductive bp_run :: "'l governor_ops \<Rightarrow> u32 \<Rightarrow> 'l bp_state \<Rightarrow> bp_event list \<Rightarrow> 'l bp_state \<Rightarrow> bool"
  for gov :: "'l governor_ops" and bytes :: u32
where
  run_nil: "bp_run gov bytes s [] s"
| run_cons: "bp_step gov bytes s e s' \<Longrightarrow> bp_run gov bytes s' es s'' \<Longrightarrow> bp_run gov bytes s (e # es) s''"

definition bp_start :: "'l limiter \<Rightarrow> nat \<Rightarrow> 'l bp_state" where
  "bp_start l now = \<lparr>bs_limiter = l, bs_notify_due = 0, bs_pc = Gate, bs_now = now\<rparr>"

section \<open>Lemmas\<close>

definition waiting :: "wait_pc \<Rightarrow> bool" where
  "waiting pc \<longleftrightarrow> pc = Gate_Wait \<or> pc = Recheck_Wait"

lemma wake_not_waiting: "\<not> waiting (wake pc)"
  by (cases pc) (auto simp: wake_def waiting_def)

text \<open>Without a notification a waiting task stays where it is.\<close>

lemma waiting_step:
  assumes "bp_step gov bytes s e s'" and "waiting (bs_pc s)" and "e \<noteq> Ev_Notify"
  shows "bs_pc s' = bs_pc s"
  using assms by (cases rule: bp_step.cases) (auto simp: waiting_def wait_step_def)

lemma waiting_run:
  assumes "bp_run gov bytes s es s'" and "waiting (bs_pc s)" and "Ev_Notify \<notin> set es"
  shows "bs_pc s' = bs_pc s"
  using assms
proof induction
  case (run_cons s e s' es s'')
  have "bs_pc s' = bs_pc s"
    using run_cons.prems by (intro waiting_step [OF run_cons.hyps(1)]) auto
  with run_cons show ?case by simp
qed simp

lemma notify_due_run:
  assumes "bp_run gov bytes s es s'"
  shows "bs_notify_due s' + count_list es Ev_Notify = bs_notify_due s + count_list es Ev_Unpause"
  using assms
proof induction
  case (run_cons s e s' es s'')
  then show ?case
    by (cases rule: bp_step.cases)
      (auto simp: wait_step_def Let_def split: wait_pc.splits check_result.splits prod.splits if_splits)
qed simp

definition before_gate :: "wait_pc \<Rightarrow> bool" where
  "before_gate pc \<longleftrightarrow> pc = Gate \<or> pc = Gate_Seen \<or> pc = Gate_Wait"

lemma paused_step:
  assumes "bp_step gov bytes s e s'" and "tb_paused (bs_limiter s)" "before_gate (bs_pc s)" and "e \<noteq> Ev_Unpause"
  shows "tb_paused (bs_limiter s') \<and> before_gate (bs_pc s')"
  using assms
  by (cases rule: bp_step.cases)
    (auto simp: before_gate_def wait_step_def set_rate_def pause_def wake_def)

lemma run_wait: "wait_step gov bytes s = Some s' \<Longrightarrow> bp_run gov bytes s' es s'' \<Longrightarrow> bp_run gov bytes s (Ev_Wait # es) s''"
  by (rule run_cons [OF step_wait])

lemma run_tick: "bp_run gov bytes (s\<lparr>bs_now := bs_now s + d\<rparr>) es s'' \<Longrightarrow> bp_run gov bytes s (Ev_Tick d # es) s''"
  by (rule run_cons [OF step_tick])

section \<open>Properties\<close>

text \<open>
  C28: a paused limiter lets nobody through. A call that starts while the limiter is paused has not
  passed the first loop, let alone returned, at any point of any run in which nobody resumes.
\<close>

theorem paused_blocks:
  assumes "bp_run gov bytes (bp_start l now) es s" and "tb_paused l" and "Ev_Unpause \<notin> set es"
  shows "bs_pc s \<in> {Gate, Gate_Seen, Gate_Wait}"
proof -
  have "tb_paused (bs_limiter s') \<and> before_gate (bs_pc s')"
    if "bp_run gov bytes s es s'" "tb_paused (bs_limiter s)" "before_gate (bs_pc s)" "Ev_Unpause \<notin> set es" for s es s'
    using that
  proof induction
    case (run_cons s e s' es s'')
    have "tb_paused (bs_limiter s') \<and> before_gate (bs_pc s')"
      using run_cons.prems by (intro paused_step [OF run_cons.hyps(1)]) auto
    with run_cons show ?case by simp
  qed simp
  from this [OF assms(1)] assms(2,3) show ?thesis by (auto simp: bp_start_def before_gate_def)
qed

text \<open>A bucket that grants everything from time 5 on.\<close>

definition demo_gov :: "unit governor_ops" where
  "demo_gov = \<lparr>gov_direct = (\<lambda>_. ()), gov_check_n = (\<lambda>l n t. (if 5 \<le> t then Granted else NotUntil (5 - t), l))\<rparr>"

lemma demo_paused_run:
  "bp_run demo_gov 8 (bp_start (pause (limiter_new demo_gov 100)) 0) [Ev_Wait]
     \<lparr>bs_limiter = pause (limiter_new demo_gov 100), bs_notify_due = 0, bs_pc = Gate_Seen, bs_now = 0\<rparr>"
  by (rule run_wait [OF _ run_nil]) (simp add: wait_step_def bp_start_def pause_def)

theorem paused_blocks_witness:
  "bs_pc \<lparr>bs_limiter = pause (limiter_new demo_gov 100), bs_notify_due = 0, bs_pc = Gate_Seen, bs_now = 0\<rparr>
     \<in> {Gate, Gate_Seen, Gate_Wait}"
  by (rule paused_blocks [OF demo_paused_run]) (simp_all add: pause_def)

text \<open>
  C33: a wake-up can be lost. If the limiter is paused, there is a run in which the waiter sees the
  pause, another task completes a resume before the waiter has registered for a notification, and
  the waiter then waits although the limiter is not paused and no notification is outstanding. It
  stays there, whatever else happens, in every continuation without another resume.
\<close>

theorem lost_wakeup:
  assumes "tb_paused l"
  shows "\<exists>s. bp_run gov bytes (bp_start l now) [Ev_Wait, Ev_Unpause, Ev_Notify, Ev_Wait] s \<and>
    \<not> tb_paused (bs_limiter s) \<and> bs_notify_due s = 0 \<and>
    (\<forall>es s'. bp_run gov bytes s es s' \<longrightarrow> Ev_Unpause \<notin> set es \<longrightarrow> bs_pc s' = Gate_Wait)"
proof -
  define s where "s = \<lparr>bs_limiter = l\<lparr>tb_paused := False\<rparr>, bs_notify_due = 0, bs_pc = Gate_Wait, bs_now = now\<rparr>"
  have "bp_run gov bytes (bp_start l now) [Ev_Wait, Ev_Unpause, Ev_Notify, Ev_Wait] s"
  proof (rule run_wait)
    show "wait_step gov bytes (bp_start l now) = Some ((bp_start l now)\<lparr>bs_pc := Gate_Seen\<rparr>)"
      using assms by (simp add: wait_step_def bp_start_def)
    show "bp_run gov bytes ((bp_start l now)\<lparr>bs_pc := Gate_Seen\<rparr>) [Ev_Unpause, Ev_Notify, Ev_Wait] s"
      by (rule run_cons [OF step_unpause], rule run_cons [OF step_notify [of _ 0]], simp add: bp_start_def,
          rule run_wait [OF _ run_nil])
        (simp add: wait_step_def bp_start_def s_def wake_def)
  qed
  moreover have "bs_pc s' = Gate_Wait" if "bp_run gov bytes s es s'" "Ev_Unpause \<notin> set es" for es s'
  proof -
    have "count_list es Ev_Notify = 0"
      using notify_due_run [OF that(1)] that(2) by (simp add: s_def count_notin)
    then show ?thesis using waiting_run [OF that(1)] by (simp add: s_def waiting_def count_list_0_iff)
  qed
  ultimately show ?thesis by (intro exI [of _ s]) (auto simp: s_def)
qed

theorem lost_wakeup_witness:
  "\<exists>s. bp_run demo_gov 8 (bp_start (pause (limiter_new demo_gov 100)) 0) [Ev_Wait, Ev_Unpause, Ev_Notify, Ev_Wait] s \<and>
    \<not> tb_paused (bs_limiter s)"
  using lost_wakeup [of "pause (limiter_new demo_gov 100)" demo_gov 8 0] by (auto simp: pause_def)

text \<open>What the library documents of the delay it returns.\<close>

definition honours_wait :: "'l governor_ops \<Rightarrow> bool" where
  "honours_wait gov \<longleftrightarrow>
     (\<forall>l n t d l' t'. gov_check_n gov l n t = (NotUntil d, l') \<longrightarrow> t + d \<le> t' \<longrightarrow>
        fst (gov_check_n gov l' n t') \<in> {Granted, InsufficientCapacity})"

abbreviation (input) bp_at :: "wait_pc \<Rightarrow> 'l limiter \<Rightarrow> nat \<Rightarrow> 'l bp_state" where
  "bp_at pc l now \<equiv> \<lparr>bs_limiter = l, bs_notify_due = 0, bs_pc = pc, bs_now = now\<rparr>"

text \<open>A writer that was told to wait sleeps until then, finds the limiter not paused and is let through.\<close>

lemma sleep_then_return:
  assumes "honours_wait gov" and "\<not> tb_paused l" and rb: "gov_check_n gov b0 bytes now = (NotUntil d, tb_limiter l)"
  shows "\<exists>l'. bp_run gov bytes (bp_at (Sleep (now + d)) l now) [Ev_Tick d, Ev_Wait, Ev_Wait, Ev_Wait] (bp_at Returned l' (now + d))"
proof -
  obtain r' b' where rb': "gov_check_n gov (tb_limiter l) bytes (now + d) = (r', b')" by fastforce
  have r': "r' \<in> {Granted, InsufficientCapacity}"
    using assms(1) rb rb' unfolding honours_wait_def by (metis fst_conv order_refl)
  have woken: "wait_step gov bytes (bp_at (Sleep (now + d)) l (now + d)) = Some (bp_at Recheck l (now + d))"
    by (simp add: wait_step_def)
  have check: "wait_step gov bytes (bp_at Recheck l (now + d)) = Some (bp_at Acquire l (now + d))"
    using assms(2) by (simp add: wait_step_def)
  have grant: "wait_step gov bytes (bp_at Acquire l (now + d)) = Some (bp_at Returned (l\<lparr>tb_limiter := b'\<rparr>) (now + d))"
    using rb' r' by (auto simp: wait_step_def)
  have "bp_run gov bytes (bp_at (Sleep (now + d)) l (now + d)) [Ev_Wait, Ev_Wait, Ev_Wait] (bp_at Returned (l\<lparr>tb_limiter := b'\<rparr>) (now + d))"
    by (rule run_wait [OF woken run_wait [OF check run_wait [OF grant run_nil]]])
  then have "bp_run gov bytes (bp_at (Sleep (now + d)) l now) [Ev_Tick d, Ev_Wait, Ev_Wait, Ev_Wait] (bp_at Returned (l\<lparr>tb_limiter := b'\<rparr>) (now + d))"
    by (intro run_tick) simp
  then show ?thesis by blast
qed



end
