(* ===== verification/Connections.thy ===== *)
theory Connections
  imports Stric_Prelude
begin

text \<open>
  The transport node of \<^verbatim>\<open>stric-core\<close>: the connection registry (\<^verbatim>\<open>connection.rs\<close>,
  \<^verbatim>\<open>connection_wrapper.rs\<close>) and the symmetric node on top of it (\<^verbatim>\<open>node.rs\<close>, \<^verbatim>\<open>node_config.rs\<close>).
  A QUIC connection is a value of a type \<open>'c\<close> and the outcome of every call into the QUIC library
  is an argument. Tasks that a method spawns are returned as values.
\<close>

section \<open>Data\<close>

record ConnectionContext =
  cc_id :: u64
  cc_keep_alive :: bool
  cc_initiator_uni :: bool
  cc_initiator_bi :: bool
  cc_responder_uni :: bool
  cc_responder_bi :: bool

record ('c, 'm) ConnectionWrapper =
  cw_conn :: 'c
  cw_context :: ConnectionContext
  cw_metadata :: 'm

record ('c, 'm) ConnectionManager =
  cm_store :: "(u64, ('c, 'm) ConnectionWrapper) hmap"
  cm_default_conn_context :: ConnectionContext
  cm_idle_timeout :: nat

datatype ConnectionManagerError = IdNotFound u64

datatype 'e NodeStreamError = NSE_ConnectionManager ConnectionManagerError | NSE_Open 'e

text \<open>The task that \<^verbatim>\<open>set_keep_alive\<close> spawns: a connection and the ping interval.\<close>

type_synonym 'c keep_alive_task = "'c \<times> nat"

section \<open>The registry\<close>

text \<open>Times are in nanoseconds.\<close>

definition cm_new :: "ConnectionContext \<Rightarrow> nat option \<Rightarrow> ('c, 'm) ConnectionManager" where
  "cm_new default_conn_context idle_timeout =
     \<lparr>cm_store = [], cm_default_conn_context = default_conn_context,
      cm_idle_timeout = (case idle_timeout of Some t \<Rightarrow> t | None \<Rightarrow> 30 * 1000000000)\<rparr>"

text \<open>\<^verbatim>\<open>store.get_mut(&id)\<close> followed by an assignment to a field of the context.\<close>

definition modify_context ::
  "(ConnectionContext \<Rightarrow> ConnectionContext) \<Rightarrow> u64 \<Rightarrow> ('c, 'm) ConnectionManager \<Rightarrow>
   ConnectionManagerError + ('c, 'm) ConnectionManager"
where
  "modify_context f cid cm =
     (case hm_get (cm_store cm) cid of
        None \<Rightarrow> Inl (IdNotFound cid)
      | Some c \<Rightarrow> Inr (cm\<lparr>cm_store := hm_insert cid (c\<lparr>cw_context := f (cw_context c)\<rparr>) (cm_store cm)\<rparr>))"

definition set_keep_alive ::
  "u64 \<Rightarrow> bool \<Rightarrow> ('c, 'm) ConnectionManager \<Rightarrow>
   ConnectionManagerError + ('c, 'm) ConnectionManager \<times> 'c keep_alive_task list"
where
  "set_keep_alive cid val cm =
     (case hm_get (cm_store cm) cid of
        None \<Rightarrow> Inl (IdNotFound cid)
      | Some c \<Rightarrow>
          Inr (cm\<lparr>cm_store := hm_insert cid (c\<lparr>cw_context := (cw_context c)\<lparr>cc_keep_alive := val\<rparr>\<rparr>) (cm_store cm)\<rparr>,
               if val then [(cw_conn c, cm_idle_timeout cm div 2)] else []))"

text \<open>The spawned task: the stream it adds to the keep-alive pool, if one could be opened.\<close>

definition run_keep_alive_task :: "('c \<Rightarrow> 'e + 's) \<Rightarrow> 'c keep_alive_task \<Rightarrow> ('s \<times> nat) option" where
  "run_keep_alive_task open_uni task =
     (case open_uni (fst task) of Inr stream \<Rightarrow> Some (stream, snd task) | Inl _ \<Rightarrow> None)"

definition set_initiator_uni ::
  "u64 \<Rightarrow> bool \<Rightarrow> ('c, 'm) ConnectionManager \<Rightarrow> ConnectionManagerError + ('c, 'm) ConnectionManager"
where
  "set_initiator_uni cid val = modify_context (\<lambda>c. c\<lparr>cc_initiator_uni := val\<rparr>) cid"

definition set_initiator_bi ::
  "u64 \<Rightarrow> bool \<Rightarrow> ('c, 'm) ConnectionManager \<Rightarrow> ConnectionManagerError + ('c, 'm) ConnectionManager"
where
  "set_initiator_bi cid val = modify_context (\<lambda>c. c\<lparr>cc_initiator_bi := val\<rparr>) cid"

definition set_responder_uni ::
  "u64 \<Rightarrow> bool \<Rightarrow> ('c, 'm) ConnectionManager \<Rightarrow> ConnectionManagerError + ('c, 'm) ConnectionManager"
where
  "set_responder_uni cid val = modify_context (\<lambda>c. c\<lparr>cc_responder_uni := val\<rparr>) cid"

definition set_responder_bi ::
  "u64 \<Rightarrow> bool \<Rightarrow> ('c, 'm) ConnectionManager \<Rightarrow> ConnectionManagerError + ('c, 'm) ConnectionManager"
where
  "set_responder_bi cid val = modify_context (\<lambda>c. c\<lparr>cc_responder_bi := val\<rparr>) cid"

definition add_connection ::
  "('c, 'm) ConnectionWrapper \<Rightarrow> ('c, 'm) ConnectionManager \<Rightarrow> ('c, 'm) ConnectionManager"
where
  "add_connection wrapper cm = cm\<lparr>cm_store := hm_insert (cc_id (cw_context wrapper)) wrapper (cm_store cm)\<rparr>"

definition remove_connection ::
  "u64 \<Rightarrow> ('c, 'm) ConnectionManager \<Rightarrow> ('c, 'm) ConnectionWrapper option \<times> ('c, 'm) ConnectionManager"
where
  "remove_connection cid cm = (hm_get (cm_store cm) cid, cm\<lparr>cm_store := hm_remove cid (cm_store cm)\<rparr>)"

section \<open>The node\<close>

text \<open>
  A connection handler gets the wrapper mutably: it fails, or returns the wrapper as it left it.
\<close>

type_synonym ('c, 'm) connection_handler = "('c, 'm) ConnectionWrapper \<Rightarrow> string + ('c, 'm) ConnectionWrapper"

record ('c, 'm) QuicNode =
  qn_conn_manager :: "('c, 'm) ConnectionManager"
  qn_inbound_handler :: "('c, 'm) connection_handler option"
  qn_outbound_handler :: "('c, 'm) connection_handler option"

definition on_inbound :: "('c, 'm) connection_handler \<Rightarrow> ('c, 'm) QuicNode \<Rightarrow> ('c, 'm) QuicNode" where
  "on_inbound handler qn = qn\<lparr>qn_inbound_handler := Some handler\<rparr>"

definition on_outbound :: "('c, 'm) connection_handler \<Rightarrow> ('c, 'm) QuicNode \<Rightarrow> ('c, 'm) QuicNode" where
  "on_outbound handler qn = qn\<lparr>qn_outbound_handler := Some handler\<rparr>"

text \<open>
  What \<^verbatim>\<open>setup_connection\<close> leaves: the registry, the errors sent to the error channel, the
  keep-alive tasks. \<open>default_metadata\<close> is \<^verbatim>\<open>ConnectionMetadata::default()\<close>.
\<close>

definition setup_connection ::
  "('c \<Rightarrow> u64) \<Rightarrow> 'm \<Rightarrow> 'c \<Rightarrow> ('c, 'm) connection_handler option \<Rightarrow> ('c, 'm) ConnectionManager \<Rightarrow>
   ('c, 'm) ConnectionManager \<times> string list \<times> 'c keep_alive_task list"
where
  "setup_connection stable_id default_metadata connection handler cm =
     (let k = stable_id connection;
          context = (cm_default_conn_context cm)\<lparr>cc_id := k\<rparr>;
          wrapper = \<lparr>cw_conn = connection, cw_context = context, cw_metadata = default_metadata\<rparr>
      in case (case handler of None \<Rightarrow> Inr wrapper | Some func \<Rightarrow> func wrapper) of
           Inl e \<Rightarrow> (cm, [e], [])
         | Inr wrapper \<Rightarrow>
             (let keep_alive = cc_keep_alive (cw_context wrapper);
                  cm1 = add_connection wrapper cm
              in if keep_alive
                 then (case set_keep_alive k True cm1 of
                         Inl _ \<Rightarrow> (cm1, [], [])
                       | Inr (cm2, tasks) \<Rightarrow> (cm2, [], tasks))
                 else (cm1, [], [])))"

definition handle_incoming ::
  "('c \<Rightarrow> u64) \<Rightarrow> 'm \<Rightarrow> string + 'c \<Rightarrow> ('c, 'm) QuicNode \<Rightarrow>
   ('c, 'm) QuicNode \<times> string list \<times> 'c keep_alive_task list"
where
  "handle_incoming stable_id default_metadata incoming qn =
     (case incoming of
        Inl e \<Rightarrow> (qn, [e], [])
      | Inr connection \<Rightarrow>
          (let (cm, errs, tasks) =
             setup_connection stable_id default_metadata connection (qn_inbound_handler qn) (qn_conn_manager qn)
           in (qn\<lparr>qn_conn_manager := cm\<rparr>, errs, tasks)))"

text \<open>\<^verbatim>\<open>listen\<close>: every incoming connection is handled, in the order in which the tasks end.\<close>

fun listen ::
  "('c \<Rightarrow> u64) \<Rightarrow> 'm \<Rightarrow> (string + 'c) list \<Rightarrow> ('c, 'm) QuicNode \<Rightarrow>
   ('c, 'm) QuicNode \<times> string list \<times> 'c keep_alive_task list"
where
  "listen stable_id default_metadata [] qn = (qn, [], [])"
| "listen stable_id default_metadata (incoming # rest) qn =
     (let (qn1, errs1, tasks1) = handle_incoming stable_id default_metadata incoming qn;
          (qn2, errs2, tasks2) = listen stable_id default_metadata rest qn1
      in (qn2, errs1 @ errs2, tasks1 @ tasks2))"

text \<open>
  \<^verbatim>\<open>connect\<close> returns the identifier and spawns \<^verbatim>\<open>setup_connection\<close>, whose effect is the second
  component; \<open>outcome\<close> is what the endpoint gives for the address and the server name.
\<close>

definition quic_connect ::
  "('c \<Rightarrow> u64) \<Rightarrow> 'm \<Rightarrow> string + 'c \<Rightarrow> ('c, 'm) QuicNode \<Rightarrow>
   (string + u64) \<times> ('c, 'm) QuicNode \<times> string list \<times> 'c keep_alive_task list"
where
  "quic_connect stable_id default_metadata outcome qn =
     (case outcome of
        Inl e \<Rightarrow> (Inl e, qn, [], [])
      | Inr connection \<Rightarrow>
          (let (cm, errs, tasks) =
             setup_connection stable_id default_metadata connection (qn_outbound_handler qn) (qn_conn_manager qn)
           in (Inr (stable_id connection), qn\<lparr>qn_conn_manager := cm\<rparr>, errs, tasks)))"

definition get_unistream ::
  "('c \<Rightarrow> 'e + 's) \<Rightarrow> ('c, 'm) QuicNode \<Rightarrow> u64 \<Rightarrow> 'e NodeStreamError + 's"
where
  "get_unistream open_uni qn cid =
     (case hm_get (cm_store (qn_conn_manager qn)) cid of
        None \<Rightarrow> Inl (NSE_ConnectionManager (IdNotFound cid))
      | Some c \<Rightarrow> (case open_uni (cw_conn c) of Inl e \<Rightarrow> Inl (NSE_Open e) | Inr stream \<Rightarrow> Inr stream))"

record ('s, 'r) BiStream =
  bi_responder_initiated :: bool
  bi_recv_stream :: 'r
  bi_send_stream :: 's

definition bistream_new :: "bool \<Rightarrow> 's \<Rightarrow> 'r \<Rightarrow> ('s, 'r) BiStream" where
  "bistream_new responder_initiated send_stream recv_stream =
     \<lparr>bi_responder_initiated = responder_initiated, bi_recv_stream = recv_stream, bi_send_stream = send_stream\<rparr>"

definition is_responder_initiated :: "('s, 'r) BiStream \<Rightarrow> bool" where
  "is_responder_initiated b = bi_responder_initiated b"

definition get_bistream ::
  "('c \<Rightarrow> 'e + 's \<times> 'r) \<Rightarrow> ('c, 'm) QuicNode \<Rightarrow> u64 \<Rightarrow> 'e NodeStreamError + ('s, 'r) BiStream"
where
  "get_bistream open_bi qn cid =
     (case hm_get (cm_store (qn_conn_manager qn)) cid of
        None \<Rightarrow> Inl (NSE_ConnectionManager (IdNotFound cid))
      | Some c \<Rightarrow> (case open_bi (cw_conn c) of
                     Inl e \<Rightarrow> Inl (NSE_Open e)
                   | Inr (send_stream, recv_stream) \<Rightarrow> Inr (bistream_new True send_stream recv_stream)))"

section \<open>Configuration\<close>

record ('cert, 'key, 'roots, 'addr) NodeConfig =
  nc_certs :: "'cert list option"
  nc_key :: "'key option"
  nc_socket_addr :: 'addr
  nc_alpn_protocol_names :: "u8 list list"
  nc_error_channel_len :: nat
  nc_default_conn_context :: ConnectionContext
  nc_keep_alive_limit_per_thread :: u64
  nc_idle_timeout :: "nat option"
  nc_root_cert_store :: "'roots option"
  nc_danger_accept_invalid_certs :: bool

text \<open>
  What \<^verbatim>\<open>QuicNode::new\<close> hands to the TLS and QUIC libraries. A timeout of \<open>None\<close> leaves the
  library's default.
\<close>

datatype 'roots verifier = Danger_No_Verification | Root_Certificates 'roots

record ('cert, 'key) ServerSettings =
  svc_certs :: "'cert list"
  svc_key :: 'key
  svc_alpn_protocols :: "u8 list list"
  svc_max_idle_timeout :: "nat option"

record 'roots ClientSettings =
  clc_verifier :: "'roots verifier"
  clc_alpn_protocols :: "u8 list list"
  clc_max_idle_timeout :: "nat option"

text \<open>
  The fallible library calls, in the order of their use: \<^verbatim>\<open>with_single_cert\<close>,
  \<^verbatim>\<open>QuicServerConfig::try_from\<close>, the conversion of a timeout, \<^verbatim>\<open>QuicClientConfig::try_from\<close>,
  \<^verbatim>\<open>Endpoint::server\<close> and \<^verbatim>\<open>Endpoint::client\<close>.
\<close>

record ('cert, 'key, 'roots, 'addr, 'ep) quic_ops =
  qo_single_cert :: "'cert list \<Rightarrow> 'key \<Rightarrow> string + unit"
  qo_quic_server :: "'cert list \<Rightarrow> 'key \<Rightarrow> u8 list list \<Rightarrow> string + unit"
  qo_timeout :: "nat \<Rightarrow> string + unit"
  qo_empty_roots :: 'roots
  qo_quic_client :: "'roots verifier \<Rightarrow> u8 list list \<Rightarrow> string + unit"
  qo_server_endpoint :: "('cert, 'key) ServerSettings \<Rightarrow> 'addr \<Rightarrow> 'roots ClientSettings \<Rightarrow> string + 'ep"
  qo_client_endpoint :: "'addr \<Rightarrow> 'roots ClientSettings \<Rightarrow> string + 'ep"

definition set_timeout ::
  "('cert, 'key, 'roots, 'addr, 'ep) quic_ops \<Rightarrow> nat option \<Rightarrow> string + nat option"
where
  "set_timeout qo idle_timeout =
     (case idle_timeout of
        None \<Rightarrow> Inr None
      | Some t \<Rightarrow> res_bind (qo_timeout qo t) (\<lambda>_. Inr (Some t)))"

definition server_settings ::
  "('cert, 'key, 'roots, 'addr, 'ep) quic_ops \<Rightarrow> ('cert, 'key, 'roots, 'addr) NodeConfig \<Rightarrow>
   string + ('cert, 'key) ServerSettings option"
where
  "server_settings qo config =
     (case (nc_certs config, nc_key config) of
        (Some certs, Some key) \<Rightarrow>
          res_bind (qo_single_cert qo certs key) (\<lambda>_.
          res_bind (qo_quic_server qo certs key (nc_alpn_protocol_names config)) (\<lambda>_.
          res_bind (set_timeout qo (nc_idle_timeout config)) (\<lambda>timeout.
            Inr (Some \<lparr>svc_certs = certs, svc_key = key,
                       svc_alpn_protocols = nc_alpn_protocol_names config, svc_max_idle_timeout = timeout\<rparr>))))
      | _ \<Rightarrow> Inr None)"

definition client_settings ::
  "('cert, 'key, 'roots, 'addr, 'ep) quic_ops \<Rightarrow> ('cert, 'key, 'roots, 'addr) NodeConfig \<Rightarrow>
   string + 'roots ClientSettings"
where
  "client_settings qo config =
     (let verifier =
        (if nc_danger_accept_invalid_certs config then Danger_No_Verification
         else Root_Certificates (case nc_root_cert_store config of Some r \<Rightarrow> r | None \<Rightarrow> qo_empty_roots qo))
      in res_bind (qo_quic_client qo verifier (nc_alpn_protocol_names config)) (\<lambda>_.
         res_bind (set_timeout qo (nc_idle_timeout config)) (\<lambda>timeout.
           Inr \<lparr>clc_verifier = verifier, clc_alpn_protocols = nc_alpn_protocol_names config,
                clc_max_idle_timeout = timeout\<rparr>)))"

definition quic_new ::
  "('cert, 'key, 'roots, 'addr, 'ep) quic_ops \<Rightarrow> ('cert, 'key, 'roots, 'addr) NodeConfig \<Rightarrow>
   string + 'ep \<times> ('c, 'm) QuicNode"
where
  "quic_new qo config =
     res_bind (server_settings qo config) (\<lambda>server.
     res_bind (client_settings qo config) (\<lambda>client.
     res_bind (case server of
                 Some s \<Rightarrow> qo_server_endpoint qo s (nc_socket_addr config) client
               | None \<Rightarrow> qo_client_endpoint qo (nc_socket_addr config) client) (\<lambda>endpoint.
       Inr (endpoint,
            \<lparr>qn_conn_manager = cm_new (nc_default_conn_context config) (nc_idle_timeout config),
             qn_inbound_handler = None, qn_outbound_handler = None\<rparr>))))"

section \<open>Lemmas\<close>

text \<open>Every connection is filed under its own identifier.\<close>

definition cm_wf :: "('c, 'm) ConnectionManager \<Rightarrow> bool" where
  "cm_wf cm \<longleftrightarrow> hm_wf (cm_store cm) \<and>
     (\<forall>cid c. hm_get (cm_store cm) cid = Some c \<longrightarrow> cc_id (cw_context c) = cid)"

lemma cm_wf_new [simp]: "cm_wf (cm_new ctx t)"
  by (simp add: cm_wf_def cm_new_def)

lemma cm_wf_insert:
  assumes "cm_wf cm" and "cc_id (cw_context c) = cid"
  shows "cm_wf (cm\<lparr>cm_store := hm_insert cid c (cm_store cm)\<rparr>)"
  using assms by (simp add: cm_wf_def)

lemma cm_wf_modify:
  assumes "cm_wf cm" and "modify_context f cid cm = Inr cm'" and "\<And>c. cc_id (f c) = cc_id c"
  shows "cm_wf cm'"
proof -
  obtain c where "hm_get (cm_store cm) cid = Some c"
    "cm' = cm\<lparr>cm_store := hm_insert cid (c\<lparr>cw_context := f (cw_context c)\<rparr>) (cm_store cm)\<rparr>"
    using assms(2) by (auto simp: modify_context_def split: option.splits)
  with assms(1, 3) show ?thesis by (auto simp: cm_wf_def)
qed

lemma cm_wf_set_keep_alive:
  assumes "cm_wf cm" and "set_keep_alive cid v cm = Inr (cm', tasks)"
  shows "cm_wf cm'"
  using assms by (auto simp: set_keep_alive_def cm_wf_def split: option.splits if_splits)

lemma cm_wf_add [simp]: "cm_wf cm \<Longrightarrow> cm_wf (add_connection w cm)"
  by (simp add: add_connection_def cm_wf_def)

lemma cm_wf_remove [simp]: "cm_wf cm \<Longrightarrow> cm_wf (snd (remove_connection cid cm))"
  by (auto simp: remove_connection_def cm_wf_def)

lemma cm_wf_setup: "cm_wf cm \<Longrightarrow> cm_wf (fst (setup_connection sid md conn h cm))"
  by (auto simp: setup_connection_def Let_def split: option.splits sum.splits
      elim: cm_wf_set_keep_alive [OF cm_wf_add, rotated])

text \<open>The calls that reach the registry, and any sequence of them.\<close>

datatype ('c, 'm) registry_call =
    Setup 'c "('c, 'm) connection_handler option"
  | SetKeepAlive u64 bool
  | SetInitiatorUni u64 bool
  | SetInitiatorBi u64 bool
  | SetResponderUni u64 bool
  | SetResponderBi u64 bool
  | Remove u64

definition or_same :: "'s \<Rightarrow> 'e + 's \<Rightarrow> 's" where
  "or_same s r = (case r of Inl _ \<Rightarrow> s | Inr s' \<Rightarrow> s')"

fun registry_call_step ::
  "('c \<Rightarrow> u64) \<Rightarrow> 'm \<Rightarrow> ('c, 'm) registry_call \<Rightarrow> ('c, 'm) ConnectionManager \<Rightarrow> ('c, 'm) ConnectionManager"
where
  "registry_call_step sid md (Setup conn h) cm = fst (setup_connection sid md conn h cm)"
| "registry_call_step sid md (SetKeepAlive cid v) cm = or_same cm (map_sum (\<lambda>e. e) fst (set_keep_alive cid v cm))"
| "registry_call_step sid md (SetInitiatorUni cid v) cm = or_same cm (set_initiator_uni cid v cm)"
| "registry_call_step sid md (SetInitiatorBi cid v) cm = or_same cm (set_initiator_bi cid v cm)"
| "registry_call_step sid md (SetResponderUni cid v) cm = or_same cm (set_responder_uni cid v cm)"
| "registry_call_step sid md (SetResponderBi cid v) cm = or_same cm (set_responder_bi cid v cm)"
| "registry_call_step sid md (Remove cid) cm = snd (remove_connection cid cm)"

lemma cm_wf_or_same: "cm_wf cm \<Longrightarrow> (\<And>cm'. r = Inr cm' \<Longrightarrow> cm_wf cm') \<Longrightarrow> cm_wf (or_same cm r)"
  by (cases r) (simp_all add: or_same_def)

lemma cm_wf_or_same_modify:
  "cm_wf cm \<Longrightarrow> (\<And>c. cc_id (f c) = cc_id c) \<Longrightarrow> cm_wf (or_same cm (modify_context f cid cm))"
  by (intro cm_wf_or_same) (auto intro: cm_wf_modify)

lemma registry_call_step_wf: "cm_wf cm \<Longrightarrow> cm_wf (registry_call_step sid md call cm)"
proof (cases call)
  case (SetKeepAlive cid v)
  assume "cm_wf cm"
  then have "cm_wf cm'" if "map_sum (\<lambda>e. e) fst (set_keep_alive cid v cm) = Inr cm'" for cm'
    using that by (cases "set_keep_alive cid v cm") (auto intro: cm_wf_set_keep_alive)
  with \<open>cm_wf cm\<close> show ?thesis unfolding SetKeepAlive by (auto intro: cm_wf_or_same)
qed (auto simp: cm_wf_setup set_initiator_uni_def set_initiator_bi_def set_responder_uni_def
       set_responder_bi_def intro!: cm_wf_or_same_modify)

text \<open>A small instance: connections are their identifiers, metadata is an optional peer name.\<close>

definition demo_context :: ConnectionContext where
  "demo_context = \<lparr>cc_id = 0, cc_keep_alive = True, cc_initiator_uni = True, cc_initiator_bi = True,
     cc_responder_uni = False, cc_responder_bi = False\<rparr>"

definition demo_handler :: "(u64, string option) connection_handler" where
  "demo_handler w = Inr (w\<lparr>cw_metadata := Some ''peer''\<rparr>)"

definition demo_quic_ops :: "(unit, unit, nat, nat, nat) quic_ops" where
  "demo_quic_ops = \<lparr>qo_single_cert = (\<lambda>_ _. Inr ()), qo_quic_server = (\<lambda>_ _ _. Inr ()),
     qo_timeout = (\<lambda>_. Inr ()), qo_empty_roots = 0, qo_quic_client = (\<lambda>_ _. Inr ()),
     qo_server_endpoint = (\<lambda>_ a _. Inr a), qo_client_endpoint = (\<lambda>a _. Inr a)\<rparr>"

definition demo_config :: "(unit, unit, nat, nat) NodeConfig" where
  "demo_config = \<lparr>nc_certs = Some [()], nc_key = None, nc_socket_addr = 7, nc_alpn_protocol_names = [],
     nc_error_channel_len = 1, nc_default_conn_context = demo_context, nc_keep_alive_limit_per_thread = 0,
     nc_idle_timeout = None, nc_root_cert_store = None, nc_danger_accept_invalid_certs = False\<rparr>"

definition demo_qn :: "(u64, string option) QuicNode" where
  "demo_qn = \<lparr>qn_conn_manager = fst (setup_connection id None 5 None (cm_new demo_context None)),
     qn_inbound_handler = None, qn_outbound_handler = None\<rparr>"

lemma demo_qn_lookup: "\<exists>w. hm_get (cm_store (qn_conn_manager demo_qn)) 5 = Some w \<and> cw_conn w = 5"
  by (simp add: demo_qn_def setup_connection_def cm_new_def demo_context_def add_connection_def
      set_keep_alive_def Let_def)

section \<open>Properties\<close>


lemma setup_connection_registers:
  assumes r: "(case h of None \<Rightarrow> Inr \<lparr>cw_conn = conn, cw_context = (cm_default_conn_context cm)\<lparr>cc_id := sid conn\<rparr>, cw_metadata = md\<rparr>
      | Some func \<Rightarrow> func \<lparr>cw_conn = conn, cw_context = (cm_default_conn_context cm)\<lparr>cc_id := sid conn\<rparr>, cw_metadata = md\<rparr>) = Inr w'"
    and keeps: "cc_id (cw_context w') = sid conn" "cw_conn w' = conn"
  shows "\<exists>cm'. setup_connection sid md conn h cm =
        (cm', [], if cc_keep_alive (cw_context w') then [(conn, cm_idle_timeout cm div 2)] else []) \<and>
      hm_get (cm_store cm') = (hm_get (cm_store cm))(sid conn \<mapsto> w')"
proof -
  have same: "w'\<lparr>cw_context := cw_context w'\<lparr>cc_keep_alive := True\<rparr>\<rparr> = w'" if "cc_keep_alive (cw_context w')"
    using that by simp
  show ?thesis
    using keeps r same by (auto simp: setup_connection_def add_connection_def set_keep_alive_def Let_def)
qed

text \<open>
  C27: the outcome of setting up a connection, for a handler that leaves the connection and its
  identifier alone. If the handler fails, its error is reported and nothing is registered. If
  there is no handler or it succeeds, the wrapper is registered as the handler left it, with the
  node's default flags otherwise, nothing else in the registry changes, and pings at half the idle
  timeout are requested exactly if the keep-alive flag is set.
\<close>

theorem setup_connection_outcome:
  assumes w: "w = \<lparr>cw_conn = conn, cw_context = (cm_default_conn_context cm)\<lparr>cc_id := sid conn\<rparr>, cw_metadata = md\<rparr>"
    and r: "r = (case h of None \<Rightarrow> Inr w | Some func \<Rightarrow> func w)"
    and keeps: "\<forall>w'. r = Inr w' \<longrightarrow> cc_id (cw_context w') = sid conn \<and> cw_conn w' = conn"
  shows "case r of
      Inl e \<Rightarrow> setup_connection sid md conn h cm = (cm, [e], [])
    | Inr w' \<Rightarrow> \<exists>cm'. setup_connection sid md conn h cm =
          (cm', [], if cc_keep_alive (cw_context w') then [(conn, cm_idle_timeout cm div 2)] else []) \<and>
        hm_get (cm_store cm') = (hm_get (cm_store cm))(sid conn \<mapsto> w')"
proof (cases r)
  case (Inl e)
  then show ?thesis
    using r unfolding w by (simp add: setup_connection_def)
next
  case (Inr w')
  have "(case h of None \<Rightarrow> Inr \<lparr>cw_conn = conn, cw_context = (cm_default_conn_context cm)\<lparr>cc_id := sid conn\<rparr>, cw_metadata = md\<rparr>
      | Some func \<Rightarrow> func \<lparr>cw_conn = conn, cw_context = (cm_default_conn_context cm)\<lparr>cc_id := sid conn\<rparr>, cw_metadata = md\<rparr>) = Inr w'"
    using Inr r [unfolded w] by simp
  from setup_connection_registers [where sid = sid, OF this] show ?thesis using keeps Inr by simp
qed

theorem setup_connection_outcome_witness:
  "\<exists>cm'. setup_connection id None 5 (Some demo_handler) (cm_new demo_context (Some 10)) = (cm', [], [(5, 5)])"
  using setup_connection_outcome [OF refl refl, where h = "Some demo_handler" and conn = 5
      and cm = "cm_new demo_context (Some 10)" and sid = id and md = None]
  by (auto simp: demo_handler_def cm_new_def demo_context_def)

text \<open>
  The stream permissions of a connection have no effect on opening streams. Whatever the four
  permission flags are set to, \<^verbatim>\<open>get_unistream\<close> and \<^verbatim>\<open>get_bistream\<close> give the same result on every
  identifier; and every stream \<^verbatim>\<open>get_bistream\<close> opens says that the responder opened it.
\<close>

theorem stream_flags_unenforced:
  assumes "setter \<in> {set_initiator_uni, set_initiator_bi, set_responder_uni, set_responder_bi}"
    and "setter cid v (qn_conn_manager qn) = Inr cm'"
  shows "get_unistream open_uni (qn\<lparr>qn_conn_manager := cm'\<rparr>) k = get_unistream open_uni qn k \<and>
    get_bistream open_bi (qn\<lparr>qn_conn_manager := cm'\<rparr>) k = get_bistream open_bi qn k \<and>
    (\<forall>b. get_bistream open_bi qn k = Inr b \<longrightarrow> is_responder_initiated b)"
proof -
  have "map_option cw_conn (hm_get (cm_store cm') k) = map_option cw_conn (hm_get (cm_store (qn_conn_manager qn)) k)"
    using assms
    by (auto simp: set_initiator_uni_def set_initiator_bi_def set_responder_uni_def set_responder_bi_def
        modify_context_def split: option.splits)
  then show ?thesis
    by (cases "hm_get (cm_store cm') k"; cases "hm_get (cm_store (qn_conn_manager qn)) k")
      (auto simp: get_unistream_def get_bistream_def bistream_new_def is_responder_initiated_def split: sum.splits)
qed

theorem stream_flags_unenforced_witness:
  "\<exists>cm'. set_initiator_bi 5 False (qn_conn_manager demo_qn) = Inr cm' \<and>
    get_bistream (\<lambda>c. Inr (c, c) :: string + _) (demo_qn\<lparr>qn_conn_manager := cm'\<rparr>) 5 =
      Inr \<lparr>bi_responder_initiated = True, bi_recv_stream = 5, bi_send_stream = 5\<rparr>"
proof -
  obtain cm' where cm': "set_initiator_bi 5 False (qn_conn_manager demo_qn) = Inr cm'"
    using demo_qn_lookup by (auto simp: set_initiator_bi_def modify_context_def)
  have "get_bistream (\<lambda>c. Inr (c, c) :: string + _) (demo_qn\<lparr>qn_conn_manager := cm'\<rparr>) 5 =
      get_bistream (\<lambda>c. Inr (c, c)) demo_qn 5"
    using stream_flags_unenforced [where setter = set_initiator_bi, OF _ cm'] by blast
  also have "\<dots> = Inr \<lparr>bi_responder_initiated = True, bi_recv_stream = 5, bi_send_stream = 5\<rparr>"
    using demo_qn_lookup by (auto simp: get_bistream_def bistream_new_def)
  finally show ?thesis using cm' by blast
qed

text \<open>
  What a node is configured with when it starts. Certificate verification is off only if the
  configuration says so; otherwise the configured roots are used, or none. The endpoint accepts
  connections exactly if both a certificate chain and a key are given. Both roles get the
  configured protocols and idle timeout, and the registry starts empty.
\<close>

theorem quic_new_settings:
  assumes "quic_new qo config = Inr (ep, qn)"
  shows "\<exists>client.
    clc_verifier client = (if nc_danger_accept_invalid_certs config then Danger_No_Verification
       else Root_Certificates (case nc_root_cert_store config of Some r \<Rightarrow> r | None \<Rightarrow> qo_empty_roots qo)) \<and>
    clc_alpn_protocols client = nc_alpn_protocol_names config \<and>
    clc_max_idle_timeout client = nc_idle_timeout config \<and>
    (case (nc_certs config, nc_key config) of
       (Some certs, Some key) \<Rightarrow> qo_server_endpoint qo \<lparr>svc_certs = certs, svc_key = key,
          svc_alpn_protocols = nc_alpn_protocol_names config,
          svc_max_idle_timeout = nc_idle_timeout config\<rparr> (nc_socket_addr config) client = Inr ep
     | _ \<Rightarrow> qo_client_endpoint qo (nc_socket_addr config) client = Inr ep) \<and>
    cm_store (qn_conn_manager qn) = [] \<and>
    cm_idle_timeout (qn_conn_manager qn) = (case nc_idle_timeout config of Some t \<Rightarrow> t | None \<Rightarrow> 30000000000)"
proof -
  have timeout: "t = nc_idle_timeout config" if "set_timeout qo (nc_idle_timeout config) = Inr t" for t
    using that by (auto simp: set_timeout_def res_bind_eq_Inr split: option.splits)
  obtain server client where server: "server_settings qo config = Inr server"
    and client: "client_settings qo config = Inr client"
    and ep: "(case server of Some s \<Rightarrow> qo_server_endpoint qo s (nc_socket_addr config) client
       | None \<Rightarrow> qo_client_endpoint qo (nc_socket_addr config) client) = Inr ep"
    and qn: "qn = \<lparr>qn_conn_manager = cm_new (nc_default_conn_context config) (nc_idle_timeout config),
             qn_inbound_handler = None, qn_outbound_handler = None\<rparr>"
    using assms by (auto simp: quic_new_def res_bind_eq_Inr)
  have "(case (nc_certs config, nc_key config) of
       (Some certs, Some key) \<Rightarrow> qo_server_endpoint qo \<lparr>svc_certs = certs, svc_key = key,
          svc_alpn_protocols = nc_alpn_protocol_names config,
          svc_max_idle_timeout = nc_idle_timeout config\<rparr> (nc_socket_addr config) client = Inr ep
     | _ \<Rightarrow> qo_client_endpoint qo (nc_socket_addr config) client = Inr ep)"
    using server ep timeout
    by (auto simp: server_settings_def res_bind_eq_Inr split: option.splits)
  moreover have "clc_verifier client = (if nc_danger_accept_invalid_certs config then Danger_No_Verification
       else Root_Certificates (case nc_root_cert_store config of Some r \<Rightarrow> r | None \<Rightarrow> qo_empty_roots qo))"
    "clc_alpn_protocols client = nc_alpn_protocol_names config"
    "clc_max_idle_timeout client = nc_idle_timeout config"
    using client timeout by (auto simp: client_settings_def Let_def res_bind_eq_Inr)
  moreover have "cm_store (qn_conn_manager qn) = []"
    "cm_idle_timeout (qn_conn_manager qn) = (case nc_idle_timeout config of Some t \<Rightarrow> t | None \<Rightarrow> 30000000000)"
    by (simp_all add: qn cm_new_def split: option.split)
  ultimately show ?thesis by (intro exI [of _ client] conjI)
qed

theorem quic_new_settings_witness:
  "\<exists>qn client. quic_new demo_quic_ops demo_config = Inr (7, qn :: (u64, unit) QuicNode) \<and>
     clc_verifier client = Root_Certificates 0 \<and>
     qo_client_endpoint demo_quic_ops 7 client = Inr 7"
proof -
  obtain qn :: "(u64, unit) QuicNode" where qn: "quic_new demo_quic_ops demo_config = Inr (7, qn)"
    by (simp add: quic_new_def demo_quic_ops_def demo_config_def server_settings_def client_settings_def set_timeout_def)
  show ?thesis
    using quic_new_settings [OF qn] qn by (auto simp: demo_config_def demo_quic_ops_def)
qed

end
