(* ===== verification/Keep_Alive.thy ===== *)
theory Keep_Alive
  imports Stric_Prelude "HOL-Library.Multiset"
begin

text \<open>
  The keep-alive pool of \<^verbatim>\<open>stric-core/src/keep_alive.rs\<close>: a manager task that hands streams to
  worker tasks, and workers that ping their streams and give them back when they are underloaded.
  The state holds the manager, every worker ever spawned and the contents of the channels
  (without their capacity of 100); an event is one turn of one task, so every interleaving of the
  tasks is a sequence of events. Worker identifiers are natural numbers and times nanoseconds.
\<close>

section \<open>State\<close>

record 's ManagedStream =
  ms_stream :: 's
  ms_interval :: nat
  ms_last_ping :: nat

datatype 's PoolCommand =
    PC_AddStream 's nat
  | PC_WorkerUnderloaded nat "'s ManagedStream list"
  | PC_WorkerDropped nat

datatype 's WorkerCommand = WC_AddStream "'s ManagedStream" | WC_Drain | WC_Shutdown

text \<open>
  A worker accepts commands until it has returned; between sending its last message to the pool
  and returning it is \<open>Exiting\<close>.
\<close>

datatype worker_phase = Running | Exiting | Stopped

record 's KeepAliveWorker =
  kw_streams :: "'s ManagedStream list"
  kw_inbox :: "'s WorkerCommand list"
  kw_count :: nat
  kw_local_count :: nat
  kw_phase :: worker_phase

text \<open>
  \<open>kp_workers\<close> are the manager's handles, \<open>kp_tasks\<close> the workers by identifier. The last two fields
  are history: the streams dropped after a failed ping, and those still in the channel of a worker
  that has returned.
\<close>

record 's pool =
  kp_limit :: u64
  kp_queue :: "'s PoolCommand list"
  kp_workers :: "nat list"
  kp_next_worker_id :: nat
  kp_tasks :: "'s KeepAliveWorker list"
  kp_failed :: "'s list"
  kp_discarded :: "'s list"

definition pool_new :: "u64 \<Rightarrow> 's pool" where
  "pool_new limit = \<lparr>kp_limit = limit, kp_queue = [], kp_workers = [], kp_next_worker_id = 0,
     kp_tasks = [], kp_failed = [], kp_discarded = []\<rparr>"

definition pool_add_stream :: "'s \<Rightarrow> nat \<Rightarrow> 's pool \<Rightarrow> 's pool" where
  "pool_add_stream stream interval p = p\<lparr>kp_queue := kp_queue p @ [PC_AddStream stream interval]\<rparr>"

section \<open>The manager\<close>

definition has_capacity :: "u64 \<Rightarrow> 's KeepAliveWorker \<Rightarrow> bool" where
  "has_capacity limit w \<longleftrightarrow> limit = 0 \<or> (of_nat (kw_count w) :: u64) < limit"

definition spawn_worker :: "'s ManagedStream \<Rightarrow> 's pool \<Rightarrow> 's pool" where
  "spawn_worker stream p =
     p\<lparr>kp_next_worker_id := kp_next_worker_id p + 1,
       kp_workers := kp_workers p @ [kp_next_worker_id p],
       kp_tasks := kp_tasks p @ [\<lparr>kw_streams = [stream], kw_inbox = [], kw_count = 1, kw_local_count = 1,
                                   kw_phase = Running\<rparr>]\<rparr>"

definition handle_add_stream :: "'s ManagedStream \<Rightarrow> 's pool \<Rightarrow> 's pool" where
  "handle_add_stream stream p =
     (case find (\<lambda>i. has_capacity (kp_limit p) (kp_tasks p ! i)) (kp_workers p) of
        Some i \<Rightarrow>
          (let w = kp_tasks p ! i in
           if kw_phase w = Stopped then spawn_worker stream p
           else p\<lparr>kp_tasks := (kp_tasks p)[i := w\<lparr>kw_inbox := kw_inbox w @ [WC_AddStream stream]\<rparr>]\<rparr>)
      | None \<Rightarrow> spawn_worker stream p)"

definition handle_underloaded :: "nat \<Rightarrow> 's ManagedStream list \<Rightarrow> 's pool \<Rightarrow> 's pool" where
  "handle_underloaded worker_id streams p =
     fold handle_add_stream streams (p\<lparr>kp_workers := filter (\<lambda>i. i \<noteq> worker_id) (kp_workers p)\<rparr>)"

text \<open>One turn of \<^verbatim>\<open>PoolManager::run\<close>.\<close>

definition manager_step :: "nat \<Rightarrow> 's pool \<Rightarrow> 's pool option" where
  "manager_step now p =
     (case kp_queue p of
        [] \<Rightarrow> None
      | cmd # queue \<Rightarrow>
          (let p1 = p\<lparr>kp_queue := queue\<rparr> in
           Some (case cmd of
               PC_AddStream stream interval \<Rightarrow>
                 handle_add_stream \<lparr>ms_stream = stream, ms_interval = interval, ms_last_ping = now\<rparr> p1
             | PC_WorkerUnderloaded worker_id streams \<Rightarrow> handle_underloaded worker_id streams p1
             | PC_WorkerDropped worker_id \<Rightarrow>
                 p1\<lparr>kp_workers := filter (\<lambda>i. i \<noteq> worker_id) (kp_workers p1)\<rparr>)))"

section \<open>The workers\<close>

definition update_counts :: "'s KeepAliveWorker \<Rightarrow> 's KeepAliveWorker" where
  "update_counts w = w\<lparr>kw_local_count := length (kw_streams w), kw_count := length (kw_streams w)\<rparr>"

text \<open>
  One turn of \<^verbatim>\<open>run\<close> that takes the branch of the channel. \<^verbatim>\<open>recv\<close> returns \<^verbatim>\<open>None\<close> when the channel is
  empty and the manager has dropped its handle.
\<close>

definition worker_recv :: "nat \<Rightarrow> 's pool \<Rightarrow> 's pool option" where
  "worker_recv i p =
     (let w = kp_tasks p ! i in
      if \<not> (i < length (kp_tasks p) \<and> kw_phase w = Running) then None
      else case kw_inbox w of
          WC_AddStream s # inbox \<Rightarrow>
            Some (p\<lparr>kp_tasks := (kp_tasks p)[i :=
              update_counts (w\<lparr>kw_inbox := inbox, kw_streams := kw_streams w @ [s]\<rparr>)]\<rparr>)
        | WC_Drain # inbox \<Rightarrow>
            Some (p\<lparr>kp_tasks := (kp_tasks p)[i := w\<lparr>kw_inbox := inbox, kw_phase := Exiting\<rparr>],
                    kp_queue := kp_queue p @ [PC_WorkerDropped i]\<rparr>)
        | WC_Shutdown # inbox \<Rightarrow>
            Some (p\<lparr>kp_tasks := (kp_tasks p)[i := w\<lparr>kw_inbox := inbox, kw_phase := Exiting\<rparr>],
                    kp_queue := kp_queue p @ [PC_WorkerDropped i]\<rparr>)
        | [] \<Rightarrow>
            if i \<in> set (kp_workers p) then None
            else Some (p\<lparr>kp_tasks := (kp_tasks p)[i := w\<lparr>kw_phase := Exiting\<rparr>],
                         kp_queue := kp_queue p @ [PC_WorkerDropped i]\<rparr>))"

definition due :: "nat \<Rightarrow> 's ManagedStream \<Rightarrow> bool" where
  "due now s \<longleftrightarrow> now - ms_last_ping s \<ge> ms_interval s"

text \<open>
  The loop over the streams at a tick. \<open>write_ok s\<close> says whether writing \<^verbatim>\<open>ping\<close> to the stream
  succeeds. A stream whose write_ok fails is removed and the index stays.
\<close>

function tick_loop ::
  "('s \<Rightarrow> bool) \<Rightarrow> nat \<Rightarrow> nat \<Rightarrow> 's ManagedStream list \<Rightarrow> bool \<Rightarrow> 's ManagedStream list \<times> bool"
where
  "tick_loop write_ok now i streams changed =
     (if i < length streams then
        let s = streams ! i in
        if due now s then
          if \<not> write_ok (ms_stream s) then tick_loop write_ok now i (take i streams @ drop (Suc i) streams) True
          else tick_loop write_ok now (i + 1) (streams[i := s\<lparr>ms_last_ping := now\<rparr>]) changed
        else tick_loop write_ok now (i + 1) streams changed
      else (streams, changed))"
  by pat_completeness auto
termination
  by (relation "measure (\<lambda>(write_ok, now, i, streams, changed). length streams - i)") auto

declare tick_loop.simps [simp del]

text \<open>One turn of \<^verbatim>\<open>run\<close> that takes the branch of the timer.\<close>

definition worker_tick :: "('s \<Rightarrow> bool) \<Rightarrow> nat \<Rightarrow> nat \<Rightarrow> 's pool \<Rightarrow> 's pool option" where
  "worker_tick write_ok now i p =
     (let w = kp_tasks p ! i in
      if \<not> (i < length (kp_tasks p) \<and> kw_phase w = Running) then None
      else
        let (streams, changed) = tick_loop write_ok now 0 (kw_streams w) False;
            w1 = w\<lparr>kw_streams := streams\<rparr>;
            w2 = (if changed then update_counts w1 else w1);
            p1 = p\<lparr>kp_failed := kp_failed p @
                   map ms_stream (filter (\<lambda>s. due now s \<and> \<not> write_ok (ms_stream s)) (kw_streams w))\<rparr>
        in if kp_limit p > 0 \<and> kw_local_count w2 > 0 \<and> (of_nat (kw_local_count w2) :: u64) < kp_limit p div 2
           then Some (p1\<lparr>kp_tasks := (kp_tasks p)[i :=
                            (update_counts (w2\<lparr>kw_streams := []\<rparr>))\<lparr>kw_phase := Exiting\<rparr>],
                         kp_queue := kp_queue p @ [PC_WorkerUnderloaded i (kw_streams w2)]\<rparr>)
           else Some (p1\<lparr>kp_tasks := (kp_tasks p)[i := w2]\<rparr>))"

text \<open>The worker returns: its receiver, with what is still in the channel, and its streams are dropped.\<close>

fun inbox_stream :: "'s WorkerCommand \<Rightarrow> 's list" where
  "inbox_stream (WC_AddStream s) = [ms_stream s]"
| "inbox_stream WC_Drain = []"
| "inbox_stream WC_Shutdown = []"

definition worker_exit :: "nat \<Rightarrow> 's pool \<Rightarrow> 's pool option" where
  "worker_exit i p =
     (let w = kp_tasks p ! i in
      if \<not> (i < length (kp_tasks p) \<and> kw_phase w = Exiting) then None
      else Some (p\<lparr>kp_tasks := (kp_tasks p)[i := w\<lparr>kw_inbox := [], kw_streams := [], kw_phase := Stopped\<rparr>],
                   kp_discarded := kp_discarded p @ map ms_stream (kw_streams w) @ concat (map inbox_stream (kw_inbox w))\<rparr>))"

section \<open>Runs\<close>

datatype 's pool_event =
    Add 's nat
  | Manager nat
  | Recv nat
  | Tick "'s \<Rightarrow> bool" nat nat
  | Exit nat

fun pool_step :: "'s pool_event \<Rightarrow> 's pool \<Rightarrow> 's pool option" where
  "pool_step (Add s interval) p = Some (pool_add_stream s interval p)"
| "pool_step (Manager now) p = manager_step now p"
| "pool_step (Recv i) p = worker_recv i p"
| "pool_step (Tick write_ok now i) p = worker_tick write_ok now i p"
| "pool_step (Exit i) p = worker_exit i p"

fun pool_run :: "'s pool_event list \<Rightarrow> 's pool \<Rightarrow> 's pool option" where
  "pool_run [] p = Some p"
| "pool_run (e # es) p = Option.bind (pool_step e p) (pool_run es)"

fun added :: "'s pool_event \<Rightarrow> 's list" where
  "added (Add s interval) = [s]"
| "added _ = []"

text \<open>All streams the pool holds, wherever they are.\<close>

definition worker_streams :: "'s KeepAliveWorker \<Rightarrow> 's list" where
  "worker_streams w = map ms_stream (kw_streams w) @ concat (map inbox_stream (kw_inbox w))"

fun queued_streams :: "'s PoolCommand \<Rightarrow> 's list" where
  "queued_streams (PC_AddStream s interval) = [s]"
| "queued_streams (PC_WorkerUnderloaded i ss) = map ms_stream ss"
| "queued_streams (PC_WorkerDropped i) = []"

definition pool_streams :: "'s pool \<Rightarrow> 's list" where
  "pool_streams p = concat (map queued_streams (kp_queue p)) @ concat (map worker_streams (kp_tasks p))"

section \<open>Lemmas\<close>

definition pinged :: "nat \<Rightarrow> 's ManagedStream \<Rightarrow> 's ManagedStream" where
  "pinged now s = (if due now s then s\<lparr>ms_last_ping := now\<rparr> else s)"

lemma tick_loop_spec:
  "tick_loop write_ok now i streams changed =
     (take i streams @ map (pinged now) (filter (\<lambda>s. due now s \<longrightarrow> write_ok (ms_stream s)) (drop i streams)),
      changed \<or> (\<exists>s \<in> set (drop i streams). due now s \<and> \<not> write_ok (ms_stream s)))"
proof (induction write_ok now i streams changed rule: tick_loop.induct)
  case (1 write_ok now i streams changed)
  show ?case
  proof (cases "i < length streams")
    case True
    define s where "s = streams ! i"
    have drop: "drop i streams = s # drop (Suc i) streams"
      using True by (simp add: s_def Cons_nth_drop_Suc)
    consider (closed) "due now s" "\<not> write_ok (ms_stream s)" | (ok) "due now s" "write_ok (ms_stream s)"
      | (early) "\<not> due now s" by blast
    then show ?thesis
    proof cases
      case closed
      then show ?thesis
        using 1(1) [OF True s_def closed] True
        by (subst tick_loop.simps) (simp add: s_def [symmetric] Let_def drop)
    next
      case ok
      have "\<not> \<not> write_ok (ms_stream s)" using ok by simp
      with ok show ?thesis
        using 1(2) [OF True s_def ok(1)] True
        by (subst tick_loop.simps)
          (simp add: s_def [symmetric] Let_def drop take_Suc_conv_app_nth pinged_def)
    next
      case early
      then show ?thesis
        using 1(3) [OF True s_def early] True
        by (subst tick_loop.simps)
          (simp add: s_def [symmetric] Let_def drop take_Suc_conv_app_nth pinged_def)
    qed
  next
    case False
    then show ?thesis by (subst tick_loop.simps) simp
  qed
qed

lemma ms_stream_pinged [simp]: "ms_stream (pinged now s) = ms_stream s"
  by (simp add: pinged_def)

text \<open>The handles of the manager refer to workers.\<close>

definition pool_wf :: "'s pool \<Rightarrow> bool" where
  "pool_wf p \<longleftrightarrow> (\<forall>i \<in> set (kp_workers p). i < length (kp_tasks p)) \<and> kp_next_worker_id p = length (kp_tasks p)"

definition account :: "'s pool \<Rightarrow> 's multiset" where
  "account p = mset (pool_streams p) + mset (kp_failed p) + mset (kp_discarded p)"

lemma mset_concat_update:
  "i < length ts \<Longrightarrow>
     mset (concat (map f (ts[i := w]))) + mset (f (ts ! i)) = mset (concat (map f ts)) + mset (f w)"
  by (induction ts arbitrary: i) (auto simp: nth_Cons split: nat.split)

lemma mset_map_partition:
  "mset (map f (filter P xs)) + mset (map f (filter (\<lambda>x. \<not> P x) xs)) = mset (map f xs)"
  by (induction xs) simp_all

lemma account_update_task:
  assumes "i < length (kp_tasks p)"
  shows "account (p\<lparr>kp_tasks := (kp_tasks p)[i := w]\<rparr>) + mset (worker_streams (kp_tasks p ! i)) =
    account p + mset (worker_streams w)"
  using mset_concat_update [OF assms, of worker_streams w] by (simp add: account_def pool_streams_def ac_simps)

lemma account_queue: "account (p\<lparr>kp_queue := kp_queue p @ [c]\<rparr>) = account p + mset (queued_streams c)"
  by (simp add: account_def pool_streams_def ac_simps)

lemma spawn_worker_account:
  "account (spawn_worker s p) = add_mset (ms_stream s) (account p)"
  "pool_wf p \<Longrightarrow> pool_wf (spawn_worker s p)"
  by (auto simp: spawn_worker_def account_def pool_streams_def worker_streams_def pool_wf_def)

lemma handle_add_stream_account:
  assumes "pool_wf p"
  shows "account (handle_add_stream s p) = add_mset (ms_stream s) (account p) \<and> pool_wf (handle_add_stream s p)"
proof (cases "find (\<lambda>i. has_capacity (kp_limit p) (kp_tasks p ! i)) (kp_workers p)")
  case (Some i)
  define w where "w = kp_tasks p ! i"
  have "i \<in> set (kp_workers p)" using Some by (auto simp: find_Some_iff)
  then have i: "i < length (kp_tasks p)" using assms by (simp add: pool_wf_def)
  show ?thesis
  proof (cases "kw_phase w = Stopped")
    case True
    then show ?thesis
      using assms by (simp add: handle_add_stream_def Some w_def [symmetric] spawn_worker_account)
  next
    case False
    let ?w = "w\<lparr>kw_inbox := kw_inbox w @ [WC_AddStream s]\<rparr>"
    have "account (p\<lparr>kp_tasks := (kp_tasks p)[i := ?w]\<rparr>) + mset (worker_streams w) =
        add_mset (ms_stream s) (account p) + mset (worker_streams w)"
      using account_update_task [OF i, of ?w] by (simp add: w_def [symmetric] worker_streams_def)
    then have "account (p\<lparr>kp_tasks := (kp_tasks p)[i := ?w]\<rparr>) = add_mset (ms_stream s) (account p)"
      by simp
    then show ?thesis
      using False assms by (simp add: handle_add_stream_def Some w_def [symmetric] Let_def pool_wf_def)
  qed
qed (use assms in \<open>simp add: handle_add_stream_def spawn_worker_account\<close>)

lemma fold_add_stream_account:
  "pool_wf p \<Longrightarrow> account (fold handle_add_stream ss p) = account p + mset (map ms_stream ss) \<and>
     pool_wf (fold handle_add_stream ss p)"
  by (induction ss arbitrary: p) (simp_all add: handle_add_stream_account)

lemma drop_handles:
  "account (p\<lparr>kp_workers := ws\<rparr>) = account p"
  "set ws \<subseteq> set (kp_workers p) \<Longrightarrow> pool_wf p \<Longrightarrow> pool_wf (p\<lparr>kp_workers := ws\<rparr>)"
  by (auto simp: account_def pool_streams_def pool_wf_def)

lemma manager_step_account:
  assumes "pool_wf p" and "manager_step now p = Some p'"
  shows "account p' = account p \<and> pool_wf p'"
proof -
  obtain cmd queue where q: "kp_queue p = cmd # queue"
    using assms(2) by (auto simp: manager_step_def split: list.splits)
  define p1 where "p1 = p\<lparr>kp_queue := queue\<rparr>"
  have wf: "pool_wf p1" using assms(1) by (simp add: p1_def pool_wf_def)
  have acc: "account p = account p1 + mset (queued_streams cmd)"
    by (simp add: p1_def account_def pool_streams_def q ac_simps)
  have p': "p' = (case cmd of
               PC_AddStream stream interval \<Rightarrow>
                 handle_add_stream \<lparr>ms_stream = stream, ms_interval = interval, ms_last_ping = now\<rparr> p1
             | PC_WorkerUnderloaded worker_id streams \<Rightarrow> handle_underloaded worker_id streams p1
             | PC_WorkerDropped worker_id \<Rightarrow>
                 p1\<lparr>kp_workers := filter (\<lambda>i. i \<noteq> worker_id) (kp_workers p1)\<rparr>)"
    using assms(2) by (auto simp: manager_step_def q Let_def p1_def split: PoolCommand.splits)
  have sub: "set (filter (\<lambda>i. i \<noteq> k) (kp_workers p1)) \<subseteq> set (kp_workers p1)" for k by auto
  show ?thesis
    using handle_add_stream_account [OF wf] fold_add_stream_account [OF drop_handles(2) [OF sub wf]]
    by (cases cmd) (simp_all add: p' acc handle_underloaded_def drop_handles wf)
qed

lemma worker_recv_account:
  assumes "pool_wf p" and "worker_recv i p = Some p'"
  shows "account p' = account p \<and> pool_wf p'"
proof -
  define w where "w = kp_tasks p ! i"
  have i: "i < length (kp_tasks p)"
    using assms(2) by (auto simp: worker_recv_def Let_def split: if_splits)
  have "\<exists>w' q. p' = p\<lparr>kp_tasks := (kp_tasks p)[i := w'], kp_queue := kp_queue p @ q\<rparr> \<and>
      concat (map queued_streams q) = [] \<and> mset (worker_streams w') = mset (worker_streams w)"
  proof (cases "kw_inbox w")
    case Nil
    then show ?thesis
      using assms(2) unfolding worker_recv_def w_def [symmetric]
      by (intro exI [of _ "w\<lparr>kw_phase := Exiting\<rparr>"] exI [of _ "[PC_WorkerDropped i]"])
        (auto simp: Let_def worker_streams_def split: if_splits)
  next
    case (Cons c cs)
    show ?thesis
    proof (cases c)
      case (WC_AddStream x)
      then show ?thesis
        using assms(2) Cons unfolding worker_recv_def w_def [symmetric]
        by (intro exI [of _ "update_counts (w\<lparr>kw_inbox := cs, kw_streams := kw_streams w @ [x]\<rparr>)"] exI [of _ "[]"])
          (auto simp: Let_def worker_streams_def update_counts_def split: if_splits)
    next
      case WC_Drain
      then show ?thesis
        using assms(2) Cons unfolding worker_recv_def w_def [symmetric]
        by (intro exI [of _ "w\<lparr>kw_inbox := cs, kw_phase := Exiting\<rparr>"] exI [of _ "[PC_WorkerDropped i]"])
          (auto simp: Let_def worker_streams_def split: if_splits)
    next
      case WC_Shutdown
      then show ?thesis
        using assms(2) Cons unfolding worker_recv_def w_def [symmetric]
        by (intro exI [of _ "w\<lparr>kw_inbox := cs, kw_phase := Exiting\<rparr>"] exI [of _ "[PC_WorkerDropped i]"])
          (auto simp: Let_def worker_streams_def split: if_splits)
    qed
  qed
  then obtain w' q where p': "p' = p\<lparr>kp_tasks := (kp_tasks p)[i := w'], kp_queue := kp_queue p @ q\<rparr>"
    and q: "concat (map queued_streams q) = []" and w': "mset (worker_streams w') = mset (worker_streams w)"
    by blast
  have "account p' = account (p\<lparr>kp_tasks := (kp_tasks p)[i := w']\<rparr>)"
    using q by (simp add: p' account_def pool_streams_def)
  also have "\<dots> = account p"
    using account_update_task [OF i, of w'] w' by (simp add: w_def)
  finally show ?thesis using assms(1) by (simp add: p' pool_wf_def)
qed

lemma worker_tick_result:
  assumes "worker_tick write_ok now i p = Some p'"
  obtains w' q where "i < length (kp_tasks p)"
    "p' = p\<lparr>kp_failed := kp_failed p @
         map ms_stream (filter (\<lambda>s. due now s \<and> \<not> write_ok (ms_stream s)) (kw_streams (kp_tasks p ! i))),
       kp_tasks := (kp_tasks p)[i := w'], kp_queue := kp_queue p @ q\<rparr>"
    "concat (map queued_streams q) @ worker_streams w' =
       map ms_stream (filter (\<lambda>s. due now s \<longrightarrow> write_ok (ms_stream s)) (kw_streams (kp_tasks p ! i))) @
       concat (map inbox_stream (kw_inbox (kp_tasks p ! i)))"
proof -
  define w where "w = kp_tasks p ! i"
  define streams where "streams = map (pinged now) (filter (\<lambda>s. due now s \<longrightarrow> write_ok (ms_stream s)) (kw_streams w))"
  have "\<exists>changed. tick_loop write_ok now 0 (kw_streams w) False = (streams, changed)"
    by (simp add: tick_loop_spec streams_def)
  then obtain changed where loop: "tick_loop write_ok now 0 (kw_streams w) False = (streams, changed)" by blast
  define w2 where "w2 = (if changed then update_counts (w\<lparr>kw_streams := streams\<rparr>) else w\<lparr>kw_streams := streams\<rparr>)"
  have w2: "kw_streams w2 = streams" "kw_inbox w2 = kw_inbox w" by (simp_all add: w2_def update_counts_def)
  have names: "map ms_stream streams = map ms_stream (filter (\<lambda>s. due now s \<longrightarrow> write_ok (ms_stream s)) (kw_streams w))"
    by (simp add: streams_def)
  define under where "under \<longleftrightarrow> kp_limit p > 0 \<and> kw_local_count w2 > 0 \<and> (of_nat (kw_local_count w2) :: u64) < kp_limit p div 2"
  have i: "i < length (kp_tasks p)"
    using assms by (auto simp: worker_tick_def Let_def split: if_splits)
  have run: "kw_phase w = Running"
    using assms by (auto simp: worker_tick_def w_def Let_def split: if_splits)
  show thesis
  proof (cases under)
    case True
    show thesis
      by (rule that [where w' = "(update_counts (w2\<lparr>kw_streams := []\<rparr>))\<lparr>kw_phase := Exiting\<rparr>"
              and q = "[PC_WorkerUnderloaded i streams]", OF i])
        (use assms True i run names w2 in \<open>auto simp: worker_tick_def w_def [symmetric] loop Let_def
           w2_def [symmetric] under_def [symmetric] worker_streams_def update_counts_def\<close>)
  next
    case False
    show thesis
      by (rule that [where w' = w2 and q = "[]", OF i])
        (use assms False i run names w2 in \<open>auto simp: worker_tick_def w_def [symmetric] loop Let_def
           w2_def [symmetric] under_def [symmetric] worker_streams_def\<close>)
  qed
qed

lemma worker_tick_account:
  assumes "pool_wf p" and "worker_tick write_ok now i p = Some p'"
  shows "account p' = account p \<and> pool_wf p'"
proof (rule worker_tick_result [OF assms(2)])
  fix w' q
  let ?w = "kp_tasks p ! i"
  let ?ok = "\<lambda>s. due now s \<longrightarrow> write_ok (ms_stream s)"
  assume i: "i < length (kp_tasks p)"
    and p': "p' = p\<lparr>kp_failed := kp_failed p @ map ms_stream (filter (\<lambda>s. due now s \<and> \<not> write_ok (ms_stream s)) (kw_streams ?w)),
       kp_tasks := (kp_tasks p)[i := w'], kp_queue := kp_queue p @ q\<rparr>"
    and eq: "concat (map queued_streams q) @ worker_streams w' =
       map ms_stream (filter ?ok (kw_streams ?w)) @ concat (map inbox_stream (kw_inbox ?w))"
  define bad where "bad = mset (map ms_stream (filter (\<lambda>s. due now s \<and> \<not> write_ok (ms_stream s)) (kw_streams ?w)))"
  define W where "W = mset (worker_streams ?w)"
  define Q where "Q = mset (concat (map queued_streams q))"
  define A where "A = account (p\<lparr>kp_tasks := (kp_tasks p)[i := w']\<rparr>)"
  have "mset (map ms_stream (filter ?ok (kw_streams ?w))) + bad = mset (map ms_stream (kw_streams ?w))"
    using mset_map_partition [of ms_stream ?ok "kw_streams ?w"] by (simp add: bad_def)
  then have W: "Q + mset (worker_streams w') + bad = W"
    using arg_cong [OF eq, of mset] by (simp add: worker_streams_def Q_def W_def ac_simps)
  have A: "A + W = account p + mset (worker_streams w')"
    using account_update_task [OF i, of w'] by (simp add: A_def W_def)
  have "account p' = A + Q + bad"
    by (simp add: p' A_def Q_def account_def pool_streams_def bad_def ac_simps)
  then have "account p' + W = (A + W) + Q + bad" by (simp add: ac_simps)
  also have "\<dots> = account p + (Q + mset (worker_streams w') + bad)" unfolding A by (simp add: ac_simps)
  also have "\<dots> = account p + W" by (simp add: W)
  finally have "account p' = account p" by simp
  then show ?thesis using assms(1) by (simp add: p' pool_wf_def)
qed

lemma worker_exit_account:
  assumes "pool_wf p" and "worker_exit i p = Some p'"
  shows "account p' = account p \<and> pool_wf p'"
proof -
  define w where "w = kp_tasks p ! i"
  let ?w = "w\<lparr>kw_inbox := [], kw_streams := [], kw_phase := Stopped\<rparr>"
  have i: "i < length (kp_tasks p)" and p': "p' = p\<lparr>kp_tasks := (kp_tasks p)[i := ?w],
      kp_discarded := kp_discarded p @ worker_streams w\<rparr>"
    using assms(2) by (auto simp: worker_exit_def w_def worker_streams_def Let_def split: if_splits)
  have "account (p\<lparr>kp_tasks := (kp_tasks p)[i := ?w]\<rparr>) + mset (worker_streams w) = account p"
    using account_update_task [OF i, of ?w] by (simp add: w_def worker_streams_def)
  then show ?thesis
    using assms(1) by (simp add: p' account_def pool_streams_def pool_wf_def ac_simps)
qed

lemma pool_step_account:
  assumes "pool_wf p" and "pool_step e p = Some p'"
  shows "account p' = account p + mset (added e) \<and> pool_wf p'"
proof (cases e)
  case (Add s interval)
  then show ?thesis
    using assms account_queue [of p "PC_AddStream s interval"]
    by (auto simp: pool_add_stream_def pool_wf_def)
qed (use assms in \<open>auto dest: manager_step_account worker_recv_account worker_tick_account worker_exit_account\<close>)

lemma pool_run_account:
  assumes "pool_run es p = Some p'" and "pool_wf p"
  shows "account p' = account p + mset (concat (map added es)) \<and> pool_wf p'"
  using assms
proof (induction es arbitrary: p)
  case (Cons e es)
  obtain p1 where p1: "pool_step e p = Some p1" "pool_run es p1 = Some p'"
    using Cons.prems(1) by (auto simp: bind_eq_Some_conv)
  then show ?case
    using pool_step_account [OF Cons.prems(2) p1(1)] Cons.IH [OF p1(2)] by (simp add: ac_simps)
qed simp

lemma pool_new_account: "pool_wf (pool_new limit)" "account (pool_new limit) = {#}"
  by (simp_all add: pool_wf_def pool_new_def account_def pool_streams_def)

lemma pool_run_append: "pool_run (es @ fs) p = Option.bind (pool_run es p) (pool_run fs)"
  by (induction es arbitrary: p) (auto split: bind_splits)

lemmas pool_evals [evals] =
  pool_new_def pool_add_stream_def manager_step_def handle_add_stream_def handle_underloaded_def
  spawn_worker_def has_capacity_def worker_recv_def worker_tick_def worker_exit_def update_counts_def
  tick_loop_spec due_def pinged_def pool_streams_def worker_streams_def Let_def

text \<open>A pool whose only stream sits in its newest worker.\<close>

definition lone :: "u64 \<Rightarrow> nat \<Rightarrow> 's \<Rightarrow> 's pool \<Rightarrow> bool" where
  "lone limit k s p \<longleftrightarrow> kp_limit p = limit \<and> kp_queue p = [] \<and> kp_workers p = [k] \<and>
     kp_next_worker_id p = Suc k \<and> length (kp_tasks p) = Suc k \<and> kp_failed p = [] \<and> kp_discarded p = [] \<and>
     (\<exists>m. ms_stream m = s \<and>
        kp_tasks p ! k = \<lparr>kw_streams = [m], kw_inbox = [], kw_count = 1, kw_local_count = 1, kw_phase = Running\<rparr>)"

lemma half_of_four: "(4 :: u64) \<le> limit \<Longrightarrow> 1 < limit div 2 \<and> 0 < limit"
proof -
  assume "4 \<le> limit"
  then have "4 \<le> unat limit" by (simp add: word_le_nat_alt)
  then show ?thesis by (simp add: word_less_nat_alt unat_div)
qed

lemma lone_respawns:
  assumes "4 \<le> limit" and "lone limit k s p"
  shows "\<exists>p'. pool_run [Tick (\<lambda>_. True) now k, Exit k, Manager now] p = Some p' \<and> lone limit (Suc k) s p'"
proof -
  obtain m where m: "ms_stream m = s"
    "kp_tasks p ! k = \<lparr>kw_streams = [m], kw_inbox = [], kw_count = 1, kw_local_count = 1, kw_phase = Running\<rparr>"
    using assms(2) by (auto simp: lone_def)
  then show ?thesis
    using assms(2) half_of_four [OF assms(1)]
    by (simp add: lone_def worker_tick_def worker_exit_def manager_step_def handle_underloaded_def
        handle_add_stream_def spawn_worker_def tick_loop_spec update_counts_def Let_def nth_append)
qed

lemma lone_respawns_n:
  assumes "4 \<le> limit" and "lone limit k s p"
  shows "\<exists>es p'. pool_run es p = Some p' \<and> lone limit (k + n) s p' \<and> concat (map added es) = [] \<and>
    (\<forall>e \<in> set es. \<exists>i. e \<in> {Tick (\<lambda>_. True) now i, Exit i, Manager now})"
proof (induction n)
  case 0
  show ?case using assms(2) by (intro exI [of _ "[]"] exI [of _ p]) simp
next
  case (Suc n)
  obtain es p1 where p1: "pool_run es p = Some p1" "lone limit (k + n) s p1" "concat (map added es) = []"
    "\<forall>e \<in> set es. \<exists>i. e \<in> {Tick (\<lambda>_. True) now i, Exit i, Manager now}"
    using Suc.IH by blast
  let ?round = "[Tick (\<lambda>_. True) now (k + n), Exit (k + n), Manager now]"
  obtain p2 where p2: "pool_run ?round p1 = Some p2" "lone limit (Suc (k + n)) s p2"
    using lone_respawns [OF assms(1) p1(2)] by blast
  show ?case
  proof (intro exI conjI)
    show "pool_run (es @ ?round) p = Some p2" using p1(1) p2(1) by (simp add: pool_run_append)
    show "lone limit (k + Suc n) s p2" using p2(2) by simp
  qed (use p1(3, 4) in auto)
qed

section \<open>Properties\<close>



text \<open>
  A tick pings exactly the streams that are due. The loop with its index, which stays in place
  after a removal, visits every stream once: a due stream whose ping succeeds gets the new time, a
  due stream whose ping fails is removed, and the others are left alone, in the same order.
\<close>

theorem tick_pings_due:
  "tick_loop write_ok now 0 streams False =
     (map (pinged now) (filter (\<lambda>s. due now s \<longrightarrow> write_ok (ms_stream s)) streams),
      \<exists>s \<in> set streams. due now s \<and> \<not> write_ok (ms_stream s))"
  by (simp add: tick_loop_spec)

text \<open>
  A stream can be lost while every ping succeeds. A worker that gives up its streams returns
  with commands unread: a stream the manager has just sent to it is dropped.
\<close>

theorem queued_stream_lost:
  "\<exists>p. pool_run [Add a i, Manager 0, Add b i, Manager 0, Tick (\<lambda>_. True) 0 0, Exit 0, Manager 0] (pool_new 4) = Some p \<and>
     kp_failed p = [] \<and> kp_discarded p = [b] \<and> pool_streams p = [a]"
  by (simp add: pool_evals)

text \<open>
  A stream that is alone never comes to rest if the limit is at least four. Every tick finds its
  worker underloaded, so the worker hands the stream back and returns, and the manager, which has
  no other worker, starts a new one for it: at one and the same instant any number of workers can
  have been started for a single stream.
\<close>

theorem lone_stream_never_rests:
  assumes "4 \<le> limit"
  shows "\<exists>es p. pool_run es (pool_new limit) = Some p \<and> concat (map added es) = [s] \<and>
    (\<forall>e \<in> set es. e = Add s interval \<or> (\<exists>i. e \<in> {Tick (\<lambda>_. True) now i, Exit i, Manager now})) \<and>
    kp_next_worker_id p = Suc n \<and> kp_workers p = [n] \<and> pool_streams p = [s]"
proof -
  obtain p0 where p0: "pool_run [Add s interval, Manager now] (pool_new limit) = Some p0" "lone limit 0 s p0"
    by (simp add: pool_evals lone_def)
  obtain es p where es: "pool_run es p0 = Some p" "lone limit (0 + n) s p" "concat (map added es) = []"
    "\<forall>e \<in> set es. \<exists>i. e \<in> {Tick (\<lambda>_. True) now i, Exit i, Manager now}"
    using lone_respawns_n [OF assms p0(2)] by blast
  have run: "pool_run ([Add s interval, Manager now] @ es) (pool_new limit) = Some p"
    unfolding pool_run_append using p0(1) es(1) by simp
  have "account p = {#s#}"
    using pool_run_account [OF run pool_new_account(1)] es(3) by (simp add: pool_new_account)
  then have "mset (pool_streams p) = {#s#}" using es(2) by (simp add: account_def lone_def)
  then have "pool_streams p = [s]" by simp
  then show ?thesis
    using run es(2-4) by (intro exI [of _ "[Add s interval, Manager now] @ es"] exI [of _ p]) (auto simp: lone_def)
qed

theorem lone_stream_never_rests_witness:
  "\<exists>es p. pool_run es (pool_new 10) = Some p \<and> concat (map added es) = [''s''] \<and> kp_next_worker_id p = 1000"
  using lone_stream_never_rests [of 10 "''s''" 0 0 999] by auto

text \<open>
  The limit per worker is not enforced. The manager reads a worker's count before the worker has
  taken the streams sent to it, so a burst of additions puts more streams than the limit into one
  worker.
\<close>

theorem worker_limit_exceeded:
  "\<exists>p. pool_run [Add a i, Manager 0, Add b i, Manager 0, Add c i, Manager 0, Recv 0, Recv 0] (pool_new 2) = Some p \<and>
     kp_workers p = [0] \<and> unat (kp_limit p) < kw_count (kp_tasks p ! 0)"
  by (simp add: pool_evals)

end
