(* ===== verification/Flow_Node.thy ===== *)
theory Flow_Node
  imports Forwarding Reconciliation Registry Backpressure Connections
begin

text \<open>
  The node of the mesh (\<^verbatim>\<open>FlowNode\<close> of \<^verbatim>\<open>stric-flow/src/node.rs\<close>): its state, the control loop with
  every event, and the public operations on it. An operation returns the new state and the list of
  its effects in order: control messages put into the channel of a peer, events put into the
  node's own control queue, tasks spawned, handlers called. A send to a channel whose receiver is
  gone has no effect in the code either, so it needs no case of its own. Handling one event is one
  step; the clock is read through arguments.
\<close>

section \<open>State\<close>

text \<open>IP address bytes and port. Channels and QUIC connections are handles.\<close>

type_synonym SocketAddr = "u8 list \<times> u16"
type_synonym control_sender = nat
type_synonym conn = nat

record FlowConnectionMetadata =
  fm_peer_node_id :: "string option"

text \<open>The trait \<^verbatim>\<open>RoutingMetric\<close> and its default implementation; the node stores a metric and never calls it.\<close>

type_synonym RoutingMetric = "string \<Rightarrow> string \<Rightarrow> u32 \<Rightarrow> u64 \<Rightarrow> u32"

definition HopCountMetric :: RoutingMetric where
  "HopCountMetric node_a node_b base_hop_cost rtt_micros = base_hop_cost"

record ('g, 'l, 'any, 'h) FlowNode =
  fn_node_id :: string
  fn_core :: "(conn, FlowConnectionMetadata) ConnectionManager"
  fn_graph :: "'g GlobalGraph"
  fn_sessions :: "(string, Session) hmap"
  fn_merge_fns :: "(string, merge_fn) hmap"
  fn_topic_handlers :: "(string, 'h) hmap"
  fn_metric :: RoutingMetric
  fn_registry :: "'any MessageRegistry"
  fn_peer_writers :: "(string, control_sender) hmap"
  fn_local_subscriptions :: "string list"
  fn_last_epochs :: "(string, u64) hmap"
  fn_last_subscription_epochs :: "(string, u64) hmap"
  fn_flow_limiters :: "(string, 'l limiter) hmap"
  fn_peer_addresses :: "(string, SocketAddr \<times> string) hmap"
  fn_pending_connects :: "(SocketAddr, string) hmap"
  fn_reconnecting_peers :: "(string, unit) hmap"
  fn_node_last_seen :: "(string, nat) hmap"

datatype ControlEvent =
    PeerConnected string control_sender
  | PeerDisconnected string
  | ControlMsgReceived string ControlMessage

datatype ('any, 'h) effect =
    SendControl control_sender ControlMessage
  | Enqueue ControlEvent
  | SpawnReconnect string SocketAddr string
  | NotifyWaiters string
  | HandleMessage 'h string string 'any
  | SpawnForward conn string Envelope

text \<open>The libraries and the build profile; the readings of the clocks while one event is handled.\<close>

record ('g, 'l) platform =
  pf_graph :: "'g graph_ops"
  pf_gov :: "'l governor_ops"
  pf_checks :: bool

record clock =
  ck_instant :: "nat \<Rightarrow> nat"
  ck_unix_ms :: u64

type_synonym ('g, 'l, 'any, 'h) outcome = "(('g, 'l, 'any, 'h) FlowNode \<times> ('any, 'h) effect list) exec"

definition flow_alpn :: "u8 list" where
  "flow_alpn = map of_char ''stric-flow''"

definition default_alpn :: "('cert, 'key, 'roots, 'addr) NodeConfig \<Rightarrow> ('cert, 'key, 'roots, 'addr) NodeConfig" where
  "default_alpn config =
     (if nc_alpn_protocol_names config = [] then config\<lparr>nc_alpn_protocol_names := [flow_alpn]\<rparr> else config)"

definition flow_new ::
  "('g, 'l) platform \<Rightarrow> string \<Rightarrow> (conn, FlowConnectionMetadata) ConnectionManager \<Rightarrow> RoutingMetric \<Rightarrow>
   'any MessageRegistry \<Rightarrow> ('g, 'l, 'any, 'h) FlowNode"
where
  "flow_new pf node_id core metric registry =
     \<lparr>fn_node_id = node_id, fn_core = core, fn_graph = gg_new (pf_graph pf), fn_sessions = [],
      fn_merge_fns = [], fn_topic_handlers = [], fn_metric = metric, fn_registry = registry,
      fn_peer_writers = [], fn_local_subscriptions = [], fn_last_epochs = [],
      fn_last_subscription_epochs = [], fn_flow_limiters = [], fn_peer_addresses = [],
      fn_pending_connects = [], fn_reconnecting_peers = [], fn_node_last_seen = []\<rparr>"

section \<open>The control loop\<close>

definition get_peer_writers :: "('g, 'l, 'any, 'h) FlowNode \<Rightarrow> (string \<times> control_sender) list" where
  "get_peer_writers n = fn_peer_writers n"

text \<open>The loop that sends a message to all peers but two.\<close>

definition gossip ::
  "string \<Rightarrow> string \<Rightarrow> control_payload \<Rightarrow> ('g, 'l, 'any, 'h) FlowNode \<Rightarrow> ('any, 'h) effect list"
where
  "gossip from origin payload n =
     map (\<lambda>(peer, tx). SendControl tx (Some payload))
       (filter (\<lambda>(peer, tx). peer \<noteq> from \<and> peer \<noteq> origin) (get_peer_writers n))"

definition broadcast_control_message ::
  "ControlMessage \<Rightarrow> ('g, 'l, 'any, 'h) FlowNode \<Rightarrow> ('any, 'h) effect list"
where
  "broadcast_control_message msg n = map (\<lambda>(_, sender). SendControl sender msg) (get_peer_writers n)"

definition epoch_of :: "(string, u64) hmap \<Rightarrow> string \<Rightarrow> u64" where
  "epoch_of epochs k = (case hm_get epochs k of Some e \<Rightarrow> e | None \<Rightarrow> 0)"

definition is_fresh :: "(string, u64) hmap \<Rightarrow> string \<Rightarrow> u64 \<Rightarrow> bool" where
  "is_fresh epochs k epoch \<longleftrightarrow> \<not> hm_contains_key epochs k \<or> epoch > epoch_of epochs k"

definition on_peer_connected ::
  "string \<Rightarrow> control_sender \<Rightarrow> ('g, 'l, 'any, 'h) FlowNode \<Rightarrow> ('g, 'l, 'any, 'h) FlowNode"
where
  "on_peer_connected node_id tx n = n\<lparr>fn_peer_writers := hm_insert node_id tx (fn_peer_writers n)\<rparr>"

definition on_peer_disconnected ::
  "string \<Rightarrow> ('g, 'l, 'any, 'h) FlowNode \<Rightarrow> ('g, 'l, 'any, 'h) FlowNode \<times> ('any, 'h) effect list"
where
  "on_peer_disconnected node_id n =
     (let n1 = n\<lparr>fn_peer_writers := hm_remove node_id (fn_peer_writers n)\<rparr> in
      case hm_get (fn_peer_addresses n1) node_id of
        None \<Rightarrow> (n1, [])
      | Some (addr, server_name) \<Rightarrow>
          (n1\<lparr>fn_reconnecting_peers := hm_insert node_id () (fn_reconnecting_peers n1)\<rparr>,
           if hm_contains_key (fn_reconnecting_peers n1) node_id then []
           else [SpawnReconnect node_id addr server_name]))"

definition see_all ::
  "clock \<Rightarrow> nat \<Rightarrow> NodeDescriptor list \<Rightarrow> (string, nat) hmap \<Rightarrow> (string, nat) hmap"
where
  "see_all ck k nodes seen =
     fold (\<lambda>(i, node). hm_insert (nd_node_id node) (ck_instant ck i)) (enumerate k nodes) seen"

definition on_topology_update ::
  "('g, 'l) platform \<Rightarrow> clock \<Rightarrow> string \<Rightarrow> TopologyUpdate \<Rightarrow> ('g, 'l, 'any, 'h) FlowNode \<Rightarrow> ('g, 'l, 'any, 'h) outcome"
where
  "on_topology_update pf ck from update n =
     (let origin = tu_origin_node_id update;
          seen = hm_insert origin (ck_instant ck 1) (fn_node_last_seen n);
          n1 = n\<lparr>fn_node_last_seen := see_all ck 2 (tu_nodes_added update) seen\<rparr>
      in if is_fresh (fn_last_epochs n1) origin (tu_epoch update) then
           let n2 = n1\<lparr>fn_last_epochs := hm_insert origin (tu_epoch update) (fn_last_epochs n1)\<rparr> in
           exec_bind (apply_update (pf_graph pf) (fn_graph n2) update) (\<lambda>g.
             let n3 = n2\<lparr>fn_graph := g\<rparr> in
             Ret (n3, gossip from origin (CTopologyUpdate update) n3))
         else Ret (n1, []))"

text \<open>The capabilities built from the entries of a subscription update.\<close>

definition subscription_capabilities :: "SubscriptionEntry list \<Rightarrow> (string, string) hmap" where
  "subscription_capabilities entries =
     fold (\<lambda>entry caps. if se_action entry = SUBSCRIBE then hm_insert (''sub:'' @ se_pattern entry) '''' caps else caps)
       entries []"

definition on_subscription_update ::
  "('g, 'l) platform \<Rightarrow> clock \<Rightarrow> string \<Rightarrow> SubscriptionUpdate \<Rightarrow> ('g, 'l, 'any, 'h) FlowNode \<Rightarrow> ('g, 'l, 'any, 'h) outcome"
where
  "on_subscription_update pf ck from update n =
     (let n1 = n\<lparr>fn_node_last_seen := hm_insert (su_node_id update) (ck_instant ck 1) (fn_node_last_seen n)\<rparr>
      in if is_fresh (fn_last_subscription_epochs n1) (su_node_id update) (su_epoch update) then
           let n2 = n1\<lparr>fn_last_subscription_epochs :=
                        hm_insert (su_node_id update) (su_epoch update) (fn_last_subscription_epochs n1)\<rparr>;
               n3 = n2\<lparr>fn_graph := add_node (pf_graph pf) (fn_graph n2)
                        \<lparr>nd_node_id = su_node_id update, nd_role = NODE_ROLE_FLOW,
                         nd_capabilities = subscription_capabilities (su_entries update),
                         nd_last_seen = ck_unix_ms ck\<rparr>\<rparr>
           in Ret (n3, gossip from (su_node_id update) (CSubscriptionUpdate update) n3)
         else Ret (n1, []))"

definition on_ping :: "clock \<Rightarrow> string \<Rightarrow> Ping \<Rightarrow> ('g, 'l, 'any, 'h) FlowNode \<Rightarrow> ('any, 'h) effect list" where
  "on_ping ck from ping n =
     (case hm_get (fn_peer_writers n) from of
        None \<Rightarrow> []
      | Some tx \<Rightarrow> [SendControl tx (Some (CPong
          \<lparr>pong_ping_sent_at = ping_sent_at ping, pong_sent_at = ck_unix_ms ck\<rparr>))])"

definition saturating_sub :: "u64 \<Rightarrow> u64 \<Rightarrow> u64" where
  "saturating_sub a b = (if b \<le> a then a - b else 0)"

definition link_exists :: "('g, 'l) platform \<Rightarrow> 'g GlobalGraph \<Rightarrow> string \<Rightarrow> string \<Rightarrow> bool" where
  "link_exists pf gg node_a node_b =
     (case (gg_node_indices gg node_a, gg_node_indices gg node_b) of
        (Some a, Some b) \<Rightarrow> dg_find_edge (pf_graph pf) (gg_graph gg) a b \<noteq> None
      | _ \<Rightarrow> False)"

text \<open>The update a node announces its view with.\<close>

definition snapshot_update :: "string \<Rightarrow> u64 \<Rightarrow> NodeDescriptor list \<times> LinkDescriptor list \<Rightarrow> TopologyUpdate" where
  "snapshot_update node_id epoch ds =
     \<lparr>tu_origin_node_id = node_id, tu_epoch = epoch, tu_nodes_added = fst ds, tu_nodes_removed = [],
      tu_links_added = snd ds, tu_links_removed = []\<rparr>"

definition on_pong ::
  "('g, 'l) platform \<Rightarrow> clock \<Rightarrow> string \<Rightarrow> Pong \<Rightarrow> ('g, 'l, 'any, 'h) FlowNode \<Rightarrow> ('g, 'l, 'any, 'h) outcome"
where
  "on_pong pf ck from pong n =
     (let rtt = saturating_sub (ck_unix_ms ck) (pong_ping_sent_at pong);
          is_new_link = (\<not> link_exists pf (fn_graph n) (fn_node_id n) from)
      in exec_bind (rust_mul (pf_checks pf) rtt 1000) (\<lambda>rtt_micros.
         exec_bind (add_link (pf_graph pf) (fn_graph n)
             \<lparr>ld_node_a = fn_node_id n, ld_node_b = from, ld_hop_cost = 1, ld_rtt_micros = rtt_micros\<rparr>) (\<lambda>g.
           let n1 = n\<lparr>fn_graph := g\<rparr> in
           if is_new_link then
             exec_bind (rust_add (pf_checks pf) (epoch_of (fn_last_epochs n1) (fn_node_id n)) 1) (\<lambda>my_epoch.
               let n2 = n1\<lparr>fn_last_epochs := hm_insert (fn_node_id n) my_epoch (fn_last_epochs n1)\<rparr> in
               exec_bind (get_descriptors (pf_graph pf) (fn_graph n2)) (\<lambda>ds.
                 Ret (n2, broadcast_control_message
                        (Some (CTopologyUpdate (snapshot_update (fn_node_id n) my_epoch ds))) n2)))
           else Ret (n1, []))))"

definition resume :: "'l limiter \<Rightarrow> 'l limiter" where
  "resume l = l\<lparr>tb_paused := False\<rparr>"

definition on_backpressure ::
  "('g, 'l) platform \<Rightarrow> BackpressureSignal \<Rightarrow> ('g, 'l, 'any, 'h) FlowNode \<Rightarrow>
   ('g, 'l, 'any, 'h) FlowNode \<times> ('any, 'h) effect list"
where
  "on_backpressure pf signal n =
     (let flow_id = bp_flow_id signal;
          limiter = (case hm_get (fn_flow_limiters n) flow_id of
                       Some l \<Rightarrow> l | None \<Rightarrow> limiter_new (pf_gov pf) 0);
          put = (\<lambda>l. n\<lparr>fn_flow_limiters := hm_insert flow_id l (fn_flow_limiters n)\<rparr>)
      in if bp_action signal = BP_PAUSE then (put (pause limiter), [])
         else if bp_action signal = BP_RESUME then (put (resume limiter), [NotifyWaiters flow_id])
         else if bp_action signal = BP_THROTTLE
           then (put (set_rate (pf_gov pf) (bp_max_rate signal) (resume limiter)), [NotifyWaiters flow_id])
         else (put limiter, []))"

definition on_session_create ::
  "string \<Rightarrow> SessionCreate \<Rightarrow> ('g, 'l, 'any, 'h) FlowNode \<Rightarrow> ('g, 'l, 'any, 'h) FlowNode \<times> ('any, 'h) effect list"
where
  "on_session_create from create n =
     (if \<not> hm_contains_key (fn_sessions n) (sc_session_id create) then
        let session = \<lparr>ses_session_id = sc_session_id create, ses_creator_node = sc_creator_node create,
                       ses_flow_ids = sc_flow_ids create, ses_created_at = sc_created_at create,
                       ses_metadata = sc_metadata create, ses_state_data = [], ses_state_version = 0,
                       ses_state_timestamp = 0\<rparr>;
            n1 = n\<lparr>fn_sessions := hm_insert (sc_session_id create) session (fn_sessions n)\<rparr>
        in (n1, gossip from (sc_creator_node create) (CSessionControl (Some (SCreate create))) n1)
      else (n, []))"

definition on_session_close ::
  "string \<Rightarrow> SessionClose \<Rightarrow> ('g, 'l, 'any, 'h) FlowNode \<Rightarrow> ('g, 'l, 'any, 'h) FlowNode \<times> ('any, 'h) effect list"
where
  "on_session_close from close n =
     (let removed = hm_contains_key (fn_sessions n) (cl_session_id close);
          n1 = n\<lparr>fn_sessions := hm_remove (cl_session_id close) (fn_sessions n)\<rparr>
      in (n1, if removed \<or> cl_closed_by close = fn_node_id n
              then gossip from (cl_closed_by close) (CSessionControl (Some (SClose close))) n1 else []))"

text \<open>
  The state of a session after a synchronisation message, or \<open>None\<close> if it is not to change: merged
  by the function registered for the session, or replaced if the message is newer.
\<close>

definition merge_state :: "bool \<Rightarrow> merge_fn option \<Rightarrow> SessionStateSync \<Rightarrow> Session \<Rightarrow> Session option exec" where
  "merge_state checks merge sync session =
     (case merge of
        Some f \<Rightarrow>
          (case f (ses_state_data session) (ss_data sync) of
             Inr merged_data \<Rightarrow>
               exec_bind (rust_add checks (max (ses_state_version session) (ss_version sync)) 1) (\<lambda>v.
                 Ret (Some (session\<lparr>ses_state_data := merged_data, ses_state_version := v,
                   ses_state_timestamp := max (ses_state_timestamp session) (ss_timestamp sync)\<rparr>)))
           | Inl _ \<Rightarrow> Ret None)
      | None \<Rightarrow>
          Ret (if ss_timestamp sync > ses_state_timestamp session \<or>
                  ss_timestamp sync = ses_state_timestamp session \<and> ss_version sync > ses_state_version session
               then Some (session\<lparr>ses_state_data := ss_data sync, ses_state_version := ss_version sync,
                                  ses_state_timestamp := ss_timestamp sync\<rparr>)
               else None))"

definition on_state_sync ::
  "('g, 'l) platform \<Rightarrow> string \<Rightarrow> SessionStateSync \<Rightarrow> ('g, 'l, 'any, 'h) FlowNode \<Rightarrow> ('g, 'l, 'any, 'h) outcome"
where
  "on_state_sync pf from sync n =
     (case hm_get (fn_sessions n) (ss_session_id sync) of
        None \<Rightarrow> Ret (n, [])
      | Some session \<Rightarrow>
          exec_bind (merge_state (pf_checks pf) (hm_get (fn_merge_fns n) (ss_session_id sync)) sync session) (\<lambda>r.
            case r of
              None \<Rightarrow> Ret (n, [])
            | Some s \<Rightarrow>
                let n1 = n\<lparr>fn_sessions := hm_insert (ss_session_id sync) s (fn_sessions n)\<rparr>;
                    out = \<lparr>ss_session_id = ss_session_id sync, ss_sender = fn_node_id n, ss_mode = ss_mode sync,
                           ss_timestamp = ses_state_timestamp s, ss_version = ses_state_version s,
                           ss_data = ses_state_data s, ss_codec = ss_codec sync\<rparr>
                in Ret (n1, gossip from (ss_sender sync) (CSessionControl (Some (SStateSync out))) n1)))"

definition on_session_message ::
  "('g, 'l) platform \<Rightarrow> string \<Rightarrow> session_message \<Rightarrow> ('g, 'l, 'any, 'h) FlowNode \<Rightarrow> ('g, 'l, 'any, 'h) outcome"
where
  "on_session_message pf from sub_msg n =
     (case sub_msg of
        SCreate create \<Rightarrow> Ret (on_session_create from create n)
      | SJoin join \<Rightarrow> Ret (n, gossip from (sj_node_id join) (CSessionControl (Some (SJoin join))) n)
      | SLeave leave \<Rightarrow> Ret (n, gossip from (sl_node_id leave) (CSessionControl (Some (SLeave leave))) n)
      | SClose close \<Rightarrow> Ret (on_session_close from close n)
      | SStateSync state_sync \<Rightarrow> on_state_sync pf from state_sync n)"

definition on_control_message ::
  "('g, 'l) platform \<Rightarrow> clock \<Rightarrow> string \<Rightarrow> ControlMessage \<Rightarrow> ('g, 'l, 'any, 'h) FlowNode \<Rightarrow> ('g, 'l, 'any, 'h) outcome"
where
  "on_control_message pf ck from msg n0 =
     (let n = n0\<lparr>fn_node_last_seen := hm_insert from (ck_instant ck 0) (fn_node_last_seen n0)\<rparr> in
      case msg of
        None \<Rightarrow> Ret (n, [])
      | Some payload \<Rightarrow>
          (case payload of
             CTopologyUpdate update \<Rightarrow> on_topology_update pf ck from update n
           | CSubscriptionUpdate update \<Rightarrow> on_subscription_update pf ck from update n
           | CPing ping \<Rightarrow> Ret (n, on_ping ck from ping n)
           | CPong pong \<Rightarrow> on_pong pf ck from pong n
           | CBackpressure signal \<Rightarrow> Ret (on_backpressure pf signal n)
           | CSessionControl session_ctrl \<Rightarrow>
               (case session_ctrl of None \<Rightarrow> Ret (n, []) | Some sub_msg \<Rightarrow> on_session_message pf from sub_msg n)
           | _ \<Rightarrow> Ret (n, [])))"

text \<open>One iteration of \<^verbatim>\<open>run_control_loop\<close>, and a sequence of them.\<close>

definition handle_event ::
  "('g, 'l) platform \<Rightarrow> clock \<Rightarrow> ControlEvent \<Rightarrow> ('g, 'l, 'any, 'h) FlowNode \<Rightarrow> ('g, 'l, 'any, 'h) outcome"
where
  "handle_event pf ck event n =
     (case event of
        PeerConnected node_id tx \<Rightarrow> Ret (on_peer_connected node_id tx n, [])
      | PeerDisconnected node_id \<Rightarrow> Ret (on_peer_disconnected node_id n)
      | ControlMsgReceived from msg \<Rightarrow> on_control_message pf ck from msg n)"

fun run_control_loop ::
  "('g, 'l) platform \<Rightarrow> (clock \<times> ControlEvent) list \<Rightarrow> ('g, 'l, 'any, 'h) FlowNode \<Rightarrow> ('g, 'l, 'any, 'h) outcome"
where
  "run_control_loop pf [] n = Ret (n, [])"
| "run_control_loop pf ((ck, event) # events) n =
     exec_bind (handle_event pf ck event n) (\<lambda>(n1, out1).
       exec_bind (run_control_loop pf events n1) (\<lambda>(n2, out2). Ret (n2, out1 @ out2)))"

section \<open>Well-formed nodes\<close>

definition sessions_wf :: "(string, Session) hmap \<Rightarrow> bool" where
  "sessions_wf ss \<longleftrightarrow> hm_wf ss \<and> (\<forall>k s. hm_get ss k = Some s \<longrightarrow> ses_session_id s = k)"

definition maps_wf :: "('g, 'l, 'any, 'h) FlowNode \<Rightarrow> bool" where
  "maps_wf n \<longleftrightarrow> cm_wf (fn_core n) \<and> sessions_wf (fn_sessions n) \<and> hm_wf (fn_merge_fns n) \<and>
     hm_wf (fn_topic_handlers n) \<and> hm_wf (fn_peer_writers n) \<and> hm_wf (fn_last_epochs n) \<and>
     hm_wf (fn_last_subscription_epochs n) \<and> hm_wf (fn_flow_limiters n) \<and> hm_wf (fn_peer_addresses n) \<and>
     hm_wf (fn_pending_connects n) \<and> hm_wf (fn_reconnecting_peers n) \<and> hm_wf (fn_node_last_seen n)"

definition flow_wf ::
  "('g \<Rightarrow> string list) \<Rightarrow> ('g \<Rightarrow> nat \<Rightarrow> nat \<Rightarrow> LinkWeight option) \<Rightarrow> ('g \<Rightarrow> bool) \<Rightarrow>
   ('g, 'l, 'any, 'h) FlowNode \<Rightarrow> bool"
where
  "flow_wf wts edge ginv n \<longleftrightarrow> gg_wf wts edge ginv (fn_graph n) \<and> maps_wf n"

lemma sessions_wf_simps [simp]:
  "sessions_wf []"
  "sessions_wf ss \<Longrightarrow> ses_session_id s = k \<Longrightarrow> sessions_wf (hm_insert k s ss)"
  "sessions_wf ss \<Longrightarrow> sessions_wf (hm_remove k ss)"
  by (auto simp: sessions_wf_def)

lemma sessions_wf_id: "sessions_wf ss \<Longrightarrow> hm_get ss k = Some s \<Longrightarrow> ses_session_id s = k"
  by (simp add: sessions_wf_def)

lemma hm_wf_see_all [simp]: "hm_wf seen \<Longrightarrow> hm_wf (see_all ck k nodes seen)"
proof -
  have "hm_wf (fold (\<lambda>(i, node). hm_insert (nd_node_id node) (ck_instant ck i)) xs seen)" if "hm_wf seen" for xs seen
    using that by (induction xs arbitrary: seen) auto
  then show "hm_wf seen \<Longrightarrow> ?thesis" by (simp add: see_all_def)
qed

lemma merge_state_id:
  "merge_state checks f sync s = Ret (Some s') \<Longrightarrow> ses_session_id s' = ses_session_id s"
  by (auto simp: merge_state_def exec_bind_eq_Ret split: option.splits sum.splits if_splits)

lemma merge_state_wraps: "merge_state False f sync s \<noteq> Panic"
  by (simp add: merge_state_def split: option.split sum.split)

section \<open>The view of the mesh\<close>

text \<open>
  What the control messages of the mesh establish at a node: the topology by names and the epochs
  seen per origin. The control loop refines \<open>view_step\<close> on it.
\<close>

record view =
  v_topology :: topology
  v_epochs :: "string \<rightharpoonup> u64"
  v_sub_epochs :: "string \<rightharpoonup> u64"

definition view_of ::
  "('g \<Rightarrow> nat \<Rightarrow> nat \<Rightarrow> LinkWeight option) \<Rightarrow> ('g, 'l, 'any, 'h) FlowNode \<Rightarrow> view"
where
  "view_of edge n = \<lparr>v_topology = topology_of edge (fn_graph n), v_epochs = hm_get (fn_last_epochs n),
     v_sub_epochs = hm_get (fn_last_subscription_epochs n)\<rparr>"

definition newer :: "(string \<rightharpoonup> u64) \<Rightarrow> string \<Rightarrow> u64 \<Rightarrow> bool" where
  "newer m k e \<longleftrightarrow> (\<forall>e0. m k = Some e0 \<longrightarrow> e0 < e)"

lemma is_fresh_newer: "is_fresh m k e \<longleftrightarrow> newer (hm_get m) k e"
  by (cases "hm_get m k") (auto simp: is_fresh_def newer_def epoch_of_def hm_contains_key_def)

definition view_topology_update :: "TopologyUpdate \<Rightarrow> view \<Rightarrow> view" where
  "view_topology_update u v =
     (if newer (v_epochs v) (tu_origin_node_id u) (tu_epoch u)
      then v\<lparr>v_topology := topo_apply_update u (v_topology v),
             v_epochs := (v_epochs v)(tu_origin_node_id u \<mapsto> tu_epoch u)\<rparr>
      else v)"

definition view_subscription_update :: "u64 \<Rightarrow> SubscriptionUpdate \<Rightarrow> view \<Rightarrow> view" where
  "view_subscription_update now u v =
     (if newer (v_sub_epochs v) (su_node_id u) (su_epoch u)
      then v\<lparr>v_topology := topo_add_node \<lparr>nd_node_id = su_node_id u, nd_role = NODE_ROLE_FLOW,
               nd_capabilities = subscription_capabilities (su_entries u), nd_last_seen = now\<rparr> (v_topology v),
             v_sub_epochs := (v_sub_epochs v)(su_node_id u \<mapsto> su_epoch u)\<rparr>
      else v)"

definition view_pong :: "string \<Rightarrow> u64 \<Rightarrow> string \<Rightarrow> u64 \<Rightarrow> view \<Rightarrow> view" where
  "view_pong self now from sent_at v =
     (let v1 = v\<lparr>v_topology := topo_add_link \<lparr>ld_node_a = self, ld_node_b = from, ld_hop_cost = 1,
                   ld_rtt_micros = saturating_sub now sent_at * 1000\<rparr> (v_topology v)\<rparr>
      in if t_link (v_topology v) self from = None
         then v1\<lparr>v_epochs := (v_epochs v)(self \<mapsto> (case v_epochs v self of Some e \<Rightarrow> e | None \<Rightarrow> 0) + 1)\<rparr>
         else v1)"

definition view_step :: "string \<Rightarrow> clock \<Rightarrow> ControlEvent \<Rightarrow> view \<Rightarrow> view" where
  "view_step self ck event v =
     (case event of
        ControlMsgReceived from (Some (CTopologyUpdate u)) \<Rightarrow> view_topology_update u v
      | ControlMsgReceived from (Some (CSubscriptionUpdate u)) \<Rightarrow> view_subscription_update (ck_unix_ms ck) u v
      | ControlMsgReceived from (Some (CPong pong)) \<Rightarrow>
          view_pong self (ck_unix_ms ck) from (pong_ping_sent_at pong) v
      | _ \<Rightarrow> v)"

lemmas view_defs = view_of_def view_step_def view_topology_update_def view_subscription_update_def view_pong_def

text \<open>Handlers that leave the graph and the epochs alone.\<close>

definition same_view :: "('g, 'l, 'any, 'h) FlowNode \<Rightarrow> ('g, 'l, 'any, 'h) FlowNode \<Rightarrow> bool" where
  "same_view n n' \<longleftrightarrow> fn_graph n' = fn_graph n \<and> fn_last_epochs n' = fn_last_epochs n \<and>
     fn_last_subscription_epochs n' = fn_last_subscription_epochs n \<and> fn_node_id n' = fn_node_id n"

lemma on_peer_events:
  assumes "maps_wf n"
  shows "maps_wf (on_peer_connected p tx n) \<and> same_view n (on_peer_connected p tx n)"
    and "maps_wf (fst (on_peer_disconnected p n)) \<and> same_view n (fst (on_peer_disconnected p n))"
  using assms
  by (auto simp: on_peer_connected_def on_peer_disconnected_def maps_wf_def same_view_def Let_def split: option.splits)

lemma on_backpressure_view:
  assumes "maps_wf n"
  shows "maps_wf (fst (on_backpressure pf signal n)) \<and> same_view n (fst (on_backpressure pf signal n))"
  using assms by (auto simp: on_backpressure_def maps_wf_def same_view_def Let_def)

lemma on_session_message_view:
  assumes "maps_wf n" and "\<not> pf_checks pf"
  shows "\<exists>n' out. on_session_message pf from msg n = Ret (n', out) \<and> maps_wf n' \<and> same_view n n'"
proof (cases msg)
  case (SStateSync sync)
  show ?thesis
  proof (cases "hm_get (fn_sessions n) (ss_session_id sync)")
    case (Some s)
    define r where "r = merge_state False (hm_get (fn_merge_fns n) (ss_session_id sync)) sync s"
    have id: "ses_session_id s = ss_session_id sync"
      using assms(1) Some by (auto simp: maps_wf_def intro: sessions_wf_id)
    obtain o' where o': "r = Ret o'"
      using merge_state_wraps [of "hm_get (fn_merge_fns n) (ss_session_id sync)" sync s]
      unfolding r_def [symmetric] by (cases r) simp_all
    show ?thesis
    proof (cases o')
      case None
      then show ?thesis
        using assms Some o' by (simp add: SStateSync on_session_message_def on_state_sync_def r_def same_view_def)
    next
      case (Some s')
      then have "ses_session_id s' = ss_session_id sync"
        using o' id merge_state_id unfolding r_def by metis
      then show ?thesis
        using assms \<open>hm_get (fn_sessions n) _ = _\<close> o' Some
        by (simp add: SStateSync on_session_message_def on_state_sync_def r_def same_view_def maps_wf_def Let_def)
    qed
  qed (use assms in \<open>simp add: SStateSync on_session_message_def on_state_sync_def same_view_def\<close>)
qed (use assms in \<open>simp_all add: on_session_message_def on_session_create_def on_session_close_def
       maps_wf_def same_view_def Let_def\<close>)

context topology_graph
begin

lemma link_exists_topo:
  assumes "wf gg" and "pf_graph pf = ops"
  shows "link_exists pf gg a b \<longleftrightarrow> t_link (topo gg) a b \<noteq> None"
proof -
  have "inv (gg_graph gg)" using assms(1) by (simp add: gg_wf_def)
  then show ?thesis
    using assms(2) find_edge
    by (cases "gg_node_indices gg a"; cases "gg_node_indices gg b") (auto simp: link_exists_def topology_of_def)
qed

lemma on_topology_update_refines:
  assumes pf: "pf_graph pf = ops" and wf: "flow_wf wts edge inv n"
  obtains n' out where "on_topology_update pf ck from u n = Ret (n', out)" "flow_wf wts edge inv n'"
    "view_of edge n' = view_topology_update u (view_of edge n)" "fn_node_id n' = fn_node_id n"
    "out = (if newer (hm_get (fn_last_epochs n)) (tu_origin_node_id u) (tu_epoch u)
            then gossip from (tu_origin_node_id u) (CTopologyUpdate u) n else [])"
proof -
  obtain g where g: "apply_update ops (fn_graph n) u = Ret g" "wf g"
    "topo g = topo_apply_update u (topo (fn_graph n))"
    using apply_update_correct wf by (metis flow_wf_def)
  have "\<exists>n' out. on_topology_update pf ck from u n = Ret (n', out) \<and> flow_wf wts edge inv n' \<and>
      view_of edge n' = view_topology_update u (view_of edge n) \<and> fn_node_id n' = fn_node_id n \<and>
      out = (if newer (hm_get (fn_last_epochs n)) (tu_origin_node_id u) (tu_epoch u)
            then gossip from (tu_origin_node_id u) (CTopologyUpdate u) n else [])"
    using g wf pf
    by (simp add: on_topology_update_def Let_def is_fresh_newer view_of_def view_topology_update_def
        flow_wf_def maps_wf_def gossip_def get_peer_writers_def)
  then show thesis using that by blast
qed

lemma on_subscription_update_refines:
  assumes pf: "pf_graph pf = ops" and wf: "flow_wf wts edge inv n"
  obtains n' out where "on_subscription_update pf ck from u n = Ret (n', out)" "flow_wf wts edge inv n'"
    "view_of edge n' = view_subscription_update (ck_unix_ms ck) u (view_of edge n)" "fn_node_id n' = fn_node_id n"
    "out = (if newer (hm_get (fn_last_subscription_epochs n)) (su_node_id u) (su_epoch u)
            then gossip from (su_node_id u) (CSubscriptionUpdate u) n else [])"
proof -
  have gg: "wf (fn_graph n)" using wf by (simp add: flow_wf_def)
  have "\<exists>n' out. on_subscription_update pf ck from u n = Ret (n', out) \<and> flow_wf wts edge inv n' \<and>
      view_of edge n' = view_subscription_update (ck_unix_ms ck) u (view_of edge n) \<and> fn_node_id n' = fn_node_id n \<and>
      out = (if newer (hm_get (fn_last_subscription_epochs n)) (su_node_id u) (su_epoch u)
            then gossip from (su_node_id u) (CSubscriptionUpdate u) n else [])"
    using wf add_node_correct [OF gg]
    by (simp add: on_subscription_update_def Let_def is_fresh_newer view_of_def view_subscription_update_def
        flow_wf_def maps_wf_def gossip_def get_peer_writers_def pf)
  then show thesis using that by blast
qed

lemma on_pong_refines:
  assumes pf: "pf_graph pf = ops" "\<not> pf_checks pf" and wf: "flow_wf wts edge inv n"
  obtains n' out where "on_pong pf ck from pong n = Ret (n', out)" "flow_wf wts edge inv n'"
    "view_of edge n' = view_pong (fn_node_id n) (ck_unix_ms ck) from (pong_ping_sent_at pong) (view_of edge n)"
    "fn_node_id n' = fn_node_id n"
proof -
  have gg: "wf (fn_graph n)" using wf by (simp add: flow_wf_def)
  define l where "l = \<lparr>ld_node_a = fn_node_id n, ld_node_b = from, ld_hop_cost = (1 :: u32),
    ld_rtt_micros = saturating_sub (ck_unix_ms ck) (pong_ping_sent_at pong) * 1000\<rparr>"
  obtain g where g: "add_link ops (fn_graph n) l = Ret g" "wf g" "topo g = topo_add_link l (topo (fn_graph n))"
    by (rule add_link_correct [OF gg])
  obtain ns ls where ds: "get_descriptors ops g = Ret (ns, ls)"
    by (rule get_descriptors_correct [OF g(2)])
  note link = link_exists_topo [OF gg pf(1), of "fn_node_id n" "from"]
  have "\<exists>n' out. on_pong pf ck from pong n = Ret (n', out) \<and> flow_wf wts edge inv n' \<and>
      view_of edge n' = view_pong (fn_node_id n) (ck_unix_ms ck) from (pong_ping_sent_at pong) (view_of edge n) \<and>
      fn_node_id n' = fn_node_id n"
    using wf g ds
    by (cases "t_link (topo (fn_graph n)) (fn_node_id n) from")
      (simp_all add: on_pong_def Let_def pf link l_def [symmetric] view_of_def view_pong_def flow_wf_def maps_wf_def
        epoch_of_def)
  then show thesis using that by blast
qed

lemma same_view_refines:
  assumes "flow_wf wts edge inv n" and "maps_wf n'" and "same_view n n'"
  shows "flow_wf wts edge inv n' \<and> view_of edge n' = view_of edge n \<and> fn_node_id n' = fn_node_id n"
  using assms by (simp add: flow_wf_def same_view_def view_of_def)

lemma on_control_message_refines:
  assumes pf: "pf_graph pf = ops" "\<not> pf_checks pf" and wf: "flow_wf wts edge inv n0"
  shows "\<exists>n' out. on_control_message pf ck from msg n0 = Ret (n', out) \<and> flow_wf wts edge inv n' \<and>
    view_of edge n' = view_step (fn_node_id n0) ck (ControlMsgReceived from msg) (view_of edge n0) \<and>
    fn_node_id n' = fn_node_id n0"
proof -
  define n where "n = n0\<lparr>fn_node_last_seen := hm_insert from (ck_instant ck 0) (fn_node_last_seen n0)\<rparr>"
  have n: "flow_wf wts edge inv n" "view_of edge n = view_of edge n0" "fn_node_id n = fn_node_id n0" "maps_wf n"
    using wf by (simp_all add: n_def flow_wf_def maps_wf_def view_of_def)
  note same = same_view_refines [OF n(1)]
  have ret: "\<exists>n' out. Ret (n, eff) = Ret (n', out) \<and> flow_wf wts edge inv n' \<and> view_of edge n' = view_of edge n0 \<and>
      fn_node_id n' = fn_node_id n0" for eff
    using n by simp
  show ?thesis
  proof (cases msg)
    case None
    then show ?thesis using n by (simp add: on_control_message_def n_def [symmetric] view_step_def)
  next
    case (Some payload)
    show ?thesis
    proof (cases payload)
      case (CTopologyUpdate u)
      show ?thesis
        by (rule on_topology_update_refines [OF pf(1) n(1), of ck "from" u])
          (simp add: Some CTopologyUpdate on_control_message_def n_def [symmetric] view_step_def n)
    next
      case (CSubscriptionUpdate u)
      show ?thesis
        by (rule on_subscription_update_refines [OF pf(1) n(1), of ck "from" u])
          (simp add: Some CSubscriptionUpdate on_control_message_def n_def [symmetric] view_step_def n)
    next
      case (CPong pong)
      show ?thesis
        by (rule on_pong_refines [OF pf n(1), of ck "from" pong])
          (simp add: Some CPong on_control_message_def n_def [symmetric] view_step_def n)
    next
      case (CBackpressure signal)
      obtain n' out where "on_backpressure pf signal n = (n', out)" by fastforce
      with on_backpressure_view [OF n(4), of pf signal] same [of n'] show ?thesis
        by (simp add: Some CBackpressure on_control_message_def n_def [symmetric] view_step_def n)
    next
      case (CSessionControl ctrl)
      show ?thesis
      proof (cases ctrl)
        case None
        then show ?thesis
          using ret by (simp add: Some CSessionControl on_control_message_def n_def [symmetric] view_step_def)
      next
        case (Some m)
        obtain n' out where "on_session_message pf from m n = Ret (n', out)" "maps_wf n'" "same_view n n'"
          using on_session_message_view [OF n(4) pf(2)] by blast
        with same [of n'] show ?thesis
          by (simp add: \<open>msg = Some payload\<close> Some CSessionControl on_control_message_def n_def [symmetric] view_step_def n)
      qed
    qed (use ret in \<open>simp_all add: Some on_control_message_def n_def [symmetric] view_step_def\<close>)
  qed
qed

lemma handle_event_refines:
  assumes pf: "pf_graph pf = ops" "\<not> pf_checks pf" and wf: "flow_wf wts edge inv n"
  shows "\<exists>n' out. handle_event pf ck event n = Ret (n', out) \<and> flow_wf wts edge inv n' \<and>
    view_of edge n' = view_step (fn_node_id n) ck event (view_of edge n) \<and> fn_node_id n' = fn_node_id n"
proof (cases event)
  case (PeerConnected p tx)
  then show ?thesis
    using on_peer_events(1) [of n p tx] same_view_refines [OF wf, of "on_peer_connected p tx n"] wf
    by (simp add: handle_event_def view_step_def flow_wf_def)
next
  case (PeerDisconnected p)
  obtain n' out where "on_peer_disconnected p n = (n', out)" by fastforce
  then show ?thesis
    using on_peer_events(2) [of n p] same_view_refines [OF wf, of n'] wf
    by (simp add: PeerDisconnected handle_event_def view_step_def flow_wf_def)
next
  case (ControlMsgReceived p msg)
  then show ?thesis
    using on_control_message_refines [OF pf wf] by (simp add: handle_event_def)
qed

lemma run_control_loop_refines:
  assumes pf: "pf_graph pf = ops" "\<not> pf_checks pf" and wf: "flow_wf wts edge inv n"
  shows "\<exists>n' out. run_control_loop pf events n = Ret (n', out) \<and> flow_wf wts edge inv n' \<and>
    view_of edge n' = fold (\<lambda>(ck, event). view_step (fn_node_id n) ck event) events (view_of edge n) \<and>
    fn_node_id n' = fn_node_id n"
  using wf
proof (induction events arbitrary: n)
  case (Cons e events)
  obtain ck event where e: "e = (ck, event)" by fastforce
  obtain n1 out1 where n1: "handle_event pf ck event n = Ret (n1, out1)" "flow_wf wts edge inv n1"
    "view_of edge n1 = view_step (fn_node_id n) ck event (view_of edge n)" "fn_node_id n1 = fn_node_id n"
    using handle_event_refines [OF pf Cons.prems] by blast
  with Cons.IH [OF n1(2)] show ?case by (auto simp: e)
qed simp

end

lemma flow_wf_new:
  assumes "topology_graph (pf_graph pf) wts edge ginv" and "cm_wf core"
  shows "flow_wf wts edge ginv (flow_new pf node_id core metric registry)"
  using topology_graph.wf_new [OF assms(1)] assms(2) by (simp add: flow_wf_def flow_new_def maps_wf_def)

text \<open>A concrete platform and node.\<close>

definition demo_pf :: "bool \<Rightarrow> ((string, LinkWeight) vgraph, unit) platform" where
  "demo_pf checks = \<lparr>pf_graph = vgraph_ops, pf_gov = demo_gov, pf_checks = checks\<rparr>"

definition demo_flow :: "string \<Rightarrow> ((string, LinkWeight) vgraph, unit, bytes, nat) FlowNode" where
  "demo_flow node_id = flow_new (demo_pf False) node_id (cm_new demo_context None) HopCountMetric registry_new"

definition demo_clock :: clock where
  "demo_clock = \<lparr>ck_instant = (\<lambda>_. 0), ck_unix_ms = 7\<rparr>"

lemma demo_flow_wf: "flow_wf fst vg_edge vg_inv (demo_flow node_id)"
  unfolding demo_flow_def
  by (rule flow_wf_new) (simp_all add: demo_pf_def vtopo.topology_graph_axioms)

section \<open>Properties\<close>

text \<open>
  C2: the control loop keeps the node well-formed and maintains exactly the view that the messages
  define. In a release build no sequence of events, whatever peers send, makes the loop panic; the
  graph stays well-formed, sessions stay filed under their identifiers and no map gets duplicate
  keys; and the topology and the epochs are those obtained by applying each fresh topology update,
  each fresh subscription update and each heartbeat answer to the abstract view, all other events
  leaving it alone.
\<close>

theorem control_loop_refines:
  assumes "topology_graph (pf_graph pf) wts edge ginv" and "\<not> pf_checks pf" and "flow_wf wts edge ginv n"
  shows "\<exists>n' out. run_control_loop pf events n = Ret (n', out) \<and> flow_wf wts edge ginv n' \<and>
    view_of edge n' = fold (\<lambda>(ck, event). view_step (fn_node_id n) ck event) events (view_of edge n) \<and>
    fn_node_id n' = fn_node_id n"
  by (rule topology_graph.run_control_loop_refines [OF assms(1) refl assms(2, 3)])

theorem control_loop_refines_witness:
  "\<exists>n' out. run_control_loop (demo_pf False)
      [(demo_clock, PeerConnected ''b'' 1), (demo_clock, ControlMsgReceived ''b'' (Some (CTopologyUpdate demo_update)))]
      (demo_flow ''a'') = Ret (n', out) \<and>
    v_topology (view_of vg_edge n') = topo_apply_update demo_update topo_empty"
proof -
  have "view_of vg_edge (demo_flow ''a'') = \<lparr>v_topology = topo_empty, v_epochs = Map.empty, v_sub_epochs = Map.empty\<rparr>"
    by (simp add: demo_flow_def flow_new_def view_of_def demo_pf_def vtopo.topo_new fun_eq_iff)
  then show ?thesis
    using control_loop_refines [of "demo_pf False" fst vg_edge vg_inv "demo_flow ''a''"
      "[(demo_clock, PeerConnected ''b'' 1), (demo_clock, ControlMsgReceived ''b'' (Some (CTopologyUpdate demo_update)))]"]
      demo_flow_wf [of "''a''"] vtopo.topology_graph_axioms
    by (auto simp: demo_pf_def view_step_def view_topology_update_def newer_def)
qed

end
