(* ===== verification/Flow_Operations.thy ===== *)
theory Flow_Operations
  imports Flow_Node
begin

text \<open>
  The public operations of \<^verbatim>\<open>FlowNode\<close> on connections, subscriptions, sessions and backpressure, and
  the two background tasks that act on the node's state: garbage collection of sessions and
  reconnection to a lost peer (\<^verbatim>\<open>stric-flow/src/node.rs\<close>, errors from \<^verbatim>\<open>stric-flow/src/error.rs\<close>).
\<close>

datatype FlowError =
    FE_Transport "string NodeStreamError"
  | FE_Decode string
  | FE_Encode string
  | FE_Handshake string
  | FE_Identity string
  | FE_Session string
  | FE_Registry string
  | FE_Routing string
  | FE_Internal string
  | FE_Connection string
  | FE_Anyhow string

section \<open>Construction\<close>

text \<open>
  \<^verbatim>\<open>FlowNode::new\<close>: the transport is created with the protocol of the mesh unless the configuration
  names others, and the node starts empty. The connection handlers it installs are
  \<open>handle_new_connection\<close>, the tasks it starts are \<open>run_control_loop\<close> and, every ten seconds,
  \<open>gc_tick\<close>.
\<close>

definition flow_node_new ::
  "('g, 'l) platform \<Rightarrow> ('cert, 'key, 'roots, 'addr, 'ep) quic_ops \<Rightarrow> string \<Rightarrow> ('cert, 'key, 'roots, 'addr) NodeConfig \<Rightarrow>
   RoutingMetric \<Rightarrow> 'any MessageRegistry \<Rightarrow> FlowError + 'ep \<times> ('g, 'l, 'any, 'h) FlowNode"
where
  "flow_node_new pf qo node_id config metric registry =
     (case quic_new qo (default_alpn config) of
        Inl e \<Rightarrow> Inl (FE_Anyhow e)
      | Inr (endpoint, core_node) \<Rightarrow>
          Inr (endpoint, flow_new pf node_id (qn_conn_manager core_node) metric registry))"

lemma flow_node_new_wf:
  assumes "topology_graph (pf_graph pf) wts edge ginv"
    and "flow_node_new pf qo node_id config metric registry = Inr (endpoint, n)"
  shows "flow_wf wts edge ginv n" and "fn_node_id n = node_id" and "cm_store (fn_core n) = []"
proof -
  obtain core_node where core: "quic_new qo (default_alpn config) = Inr (endpoint, core_node)"
    and n: "n = flow_new pf node_id (qn_conn_manager core_node) metric registry"
    using assms(2) by (auto simp: flow_node_new_def split: sum.splits)
  have manager: "qn_conn_manager core_node =
      cm_new (nc_default_conn_context (default_alpn config)) (nc_idle_timeout (default_alpn config))"
    using core by (auto simp: quic_new_def res_bind_eq_Inr)
  then show "flow_wf wts edge ginv n" unfolding n by (intro flow_wf_new [OF assms(1)]) simp
  show "fn_node_id n = node_id" "cm_store (fn_core n) = []"
    using manager by (auto simp: n flow_new_def cm_new_def)
qed

section \<open>Connections and subscriptions\<close>

text \<open>\<open>result\<close> is what the transport's \<^verbatim>\<open>connect\<close> gives.\<close>

definition flow_connect ::
  "string + u64 \<Rightarrow> SocketAddr \<Rightarrow> string \<Rightarrow> ('g, 'l, 'any, 'h) FlowNode \<Rightarrow>
   (FlowError + u64) \<times> ('g, 'l, 'any, 'h) FlowNode"
where
  "flow_connect result addr server_name n =
     (let n1 = n\<lparr>fn_pending_connects := hm_insert addr server_name (fn_pending_connects n)\<rparr> in
      case result of
        Inr val \<Rightarrow> (Inr val, n1)
      | Inl e \<Rightarrow> (Inl (FE_Anyhow e), n1\<lparr>fn_pending_connects := hm_remove addr (fn_pending_connects n1)\<rparr>))"

definition subscribe_entries :: "string list \<Rightarrow> SubscriptionEntry list" where
  "subscribe_entries subs = map (\<lambda>pattern. \<lparr>se_flow_id = '''', se_pattern = pattern, se_action = SUBSCRIBE\<rparr>) subs"

text \<open>\<^verbatim>\<open>subscribe\<close> registers the handler and spawns \<open>subscribe_task\<close>.\<close>

definition subscribe ::
  "string \<Rightarrow> 'h \<Rightarrow> ('g, 'l, 'any, 'h) FlowNode \<Rightarrow> ('g, 'l, 'any, 'h) FlowNode"
where
  "subscribe topic_pattern handler n =
     n\<lparr>fn_topic_handlers := hm_insert topic_pattern handler (fn_topic_handlers n)\<rparr>"

definition subscribe_task ::
  "bool \<Rightarrow> string \<Rightarrow> ('g, 'l, 'any, 'h) FlowNode \<Rightarrow> ('g, 'l, 'any, 'h) outcome"
where
  "subscribe_task checks topic_pattern n =
     (let subs = hs_insert topic_pattern (fn_local_subscriptions n);
          n1 = n\<lparr>fn_local_subscriptions := subs\<rparr>
      in exec_bind (rust_add checks (epoch_of (fn_last_subscription_epochs n1) (fn_node_id n)) 1) (\<lambda>my_epoch.
           Ret (n1, [Enqueue (ControlMsgReceived (fn_node_id n) (Some (CSubscriptionUpdate
             \<lparr>su_node_id = fn_node_id n, su_entries = subscribe_entries subs, su_epoch = my_epoch\<rparr>)))])))"

definition peer_connections :: "('g, 'l, 'any, 'h) FlowNode \<Rightarrow> string list" where
  "peer_connections n =
     List.map_filter (\<lambda>(_, entry). fm_peer_node_id (cw_metadata entry)) (cm_store (fn_core n))"

section \<open>Sessions\<close>

definition register_merge_fn ::
  "string \<Rightarrow> merge_fn \<Rightarrow> ('g, 'l, 'any, 'h) FlowNode \<Rightarrow> ('g, 'l, 'any, 'h) FlowNode"
where
  "register_merge_fn session_id f n = n\<lparr>fn_merge_fns := hm_insert session_id f (fn_merge_fns n)\<rparr>"

text \<open>The clock is read twice: for the local session and for the message.\<close>

definition create_session ::
  "u64 \<Rightarrow> u64 \<Rightarrow> string \<Rightarrow> string list \<Rightarrow> (string, string) hmap \<Rightarrow> ('g, 'l, 'any, 'h) FlowNode \<Rightarrow>
   ('g, 'l, 'any, 'h) FlowNode \<times> ('any, 'h) effect list"
where
  "create_session now1 now2 session_id flow_ids metadata n =
     (let session = \<lparr>ses_session_id = session_id, ses_creator_node = fn_node_id n, ses_flow_ids = flow_ids,
                     ses_created_at = now1, ses_metadata = metadata, ses_state_data = [],
                     ses_state_version = 0, ses_state_timestamp = 0\<rparr>;
          n1 = n\<lparr>fn_sessions := hm_insert session_id session (fn_sessions n)\<rparr>
      in (n1, broadcast_control_message (Some (CSessionControl (Some (SCreate
            \<lparr>sc_session_id = session_id, sc_creator_node = fn_node_id n, sc_flow_ids = flow_ids,
             sc_created_at = now2, sc_metadata = metadata\<rparr>)))) n1))"

definition join_session :: "string \<Rightarrow> ('g, 'l, 'any, 'h) FlowNode \<Rightarrow> ('any, 'h) effect list" where
  "join_session session_id n = broadcast_control_message (Some (CSessionControl (Some (SJoin
     \<lparr>sj_session_id = session_id, sj_node_id = fn_node_id n\<rparr>)))) n"

definition leave_session :: "string \<Rightarrow> ('g, 'l, 'any, 'h) FlowNode \<Rightarrow> ('any, 'h) effect list" where
  "leave_session session_id n = broadcast_control_message (Some (CSessionControl (Some (SLeave
     \<lparr>sl_session_id = session_id, sl_node_id = fn_node_id n\<rparr>)))) n"

definition not_found :: "string \<Rightarrow> FlowError" where
  "not_found session_id = FE_Session (''Session '' @ session_id @ '' not found'')"

definition close_session ::
  "string \<Rightarrow> string \<Rightarrow> ('g, 'l, 'any, 'h) FlowNode \<Rightarrow>
   (FlowError + unit) \<times> ('g, 'l, 'any, 'h) FlowNode \<times> ('any, 'h) effect list"
where
  "close_session session_id reason n =
     (if hm_contains_key (fn_sessions n) session_id then
        let n1 = n\<lparr>fn_sessions := hm_remove session_id (fn_sessions n)\<rparr> in
        (Inr (), n1, broadcast_control_message (Some (CSessionControl (Some (SClose
           \<lparr>cl_session_id = session_id, cl_closed_by = fn_node_id n, cl_reason = reason\<rparr>)))) n1)
      else (Inl (not_found session_id), n, []))"

text \<open>The version and the timestamp are written before the merge function is called.\<close>

definition sync_session_state ::
  "bool \<Rightarrow> u64 \<Rightarrow> string \<Rightarrow> bytes \<Rightarrow> ('g, 'l, 'any, 'h) FlowNode \<Rightarrow>
   ((FlowError + unit) \<times> ('g, 'l, 'any, 'h) FlowNode \<times> ('any, 'h) effect list) exec"
where
  "sync_session_state checks now session_id data n =
     (case hm_get (fn_sessions n) session_id of
        None \<Rightarrow> Ret (Inl (not_found session_id), n, [])
      | Some session \<Rightarrow>
          exec_bind (rust_add checks (ses_state_version session) 1) (\<lambda>v.
            let s1 = session\<lparr>ses_state_version := v, ses_state_timestamp := now\<rparr>;
                put = (\<lambda>s. n\<lparr>fn_sessions := hm_insert session_id s (fn_sessions n)\<rparr>)
            in case (case hm_get (fn_merge_fns n) session_id of
                       Some f \<Rightarrow> f (ses_state_data s1) data
                     | None \<Rightarrow> Inr data) of
                 Inl e \<Rightarrow> Ret (Inl (FE_Session (''Local merge error: '' @ e)), put s1, [])
               | Inr new_data \<Rightarrow>
                   let n1 = put (s1\<lparr>ses_state_data := new_data\<rparr>) in
                   Ret (Inr (), n1, broadcast_control_message (Some (CSessionControl (Some (SStateSync
                     \<lparr>ss_session_id = session_id, ss_sender = fn_node_id n, ss_mode = SYNC_SNAPSHOT,
                      ss_timestamp = now, ss_version = v, ss_data = data, ss_codec = CODEC_RAW\<rparr>)))) n1)))"

definition get_session_state :: "string \<Rightarrow> ('g, 'l, 'any, 'h) FlowNode \<Rightarrow> bytes option" where
  "get_session_state session_id n = map_option ses_state_data (hm_get (fn_sessions n) session_id)"

definition session_ids :: "('g, 'l, 'any, 'h) FlowNode \<Rightarrow> string list" where
  "session_ids n = hm_keys (fn_sessions n)"

definition send_backpressure ::
  "string \<Rightarrow> i32 \<Rightarrow> u32 \<Rightarrow> ('g, 'l, 'any, 'h) FlowNode \<Rightarrow> ('any, 'h) effect list"
where
  "send_backpressure flow_id action max_rate n = broadcast_control_message (Some (CBackpressure
     \<lparr>bp_flow_id = flow_id, bp_topic_id = '''', bp_action = action, bp_max_rate = max_rate\<rparr>)) n"

section \<open>Background tasks\<close>

definition SESSION_TTL :: nat where
  "SESSION_TTL = 300 * 1000000000"

text \<open>One tick of the garbage collection task, every ten seconds.\<close>

definition gc_tick ::
  "nat \<Rightarrow> ('g, 'l, 'any, 'h) FlowNode \<Rightarrow> ('g, 'l, 'any, 'h) FlowNode \<times> ('any, 'h) effect list"
where
  "gc_tick now n =
     (let (kept, evicted) = gc_inactive_sessions (fn_sessions n) (fn_node_last_seen n) SESSION_TTL now in
      (n\<lparr>fn_sessions := kept\<rparr>,
       map (\<lambda>session_id. Enqueue (ControlMsgReceived (fn_node_id n) (Some (CSessionControl (Some (SClose
              \<lparr>cl_session_id = session_id, cl_closed_by = fn_node_id n,
               cl_reason = ''Session TTL expired (creator inactive)''\<rparr>)))))) evicted))"

definition is_connected :: "string \<Rightarrow> ('g, 'l, 'any, 'h) FlowNode \<Rightarrow> bool" where
  "is_connected node_id n \<longleftrightarrow> (\<exists>(_, entry) \<in> set (cm_store (fn_core n)). fm_peer_node_id (cw_metadata entry) = Some node_id)"

text \<open>
  The reconnection task. A round is one pass of its loop: whether the peer is connected at the
  top, the jitter drawn, whether it is connected after the delay, and the result of \<^verbatim>\<open>connect\<close>.
  The result is the delays slept and how the task ended, \<open>None\<close> if it is still trying after these
  rounds. When it ends the peer is taken out of \<^verbatim>\<open>reconnecting_peers\<close>.
\<close>

record round =
  ro_connected :: bool
  ro_jitter :: real
  ro_connected_after :: bool
  ro_connect :: "FlowError + u64"

datatype reconnected = Already_Connected | Connected_Meanwhile | Connected_Anew u64

fun reconnect_loop :: "bool \<Rightarrow> ExponentialBackoff \<Rightarrow> round list \<Rightarrow> (real list \<times> reconnected option) exec" where
  "reconnect_loop checks backoff [] = Ret ([], None)"
| "reconnect_loop checks backoff (r # rs) =
     (if ro_connected r then Ret ([], Some Already_Connected)
      else exec_bind (next_backoff checks (ro_jitter r) backoff) (\<lambda>(delay, backoff').
        if ro_connected_after r then Ret ([delay], Some Connected_Meanwhile)
        else case ro_connect r of
            Inr i \<Rightarrow> Ret ([delay], Some (Connected_Anew i))
          | Inl _ \<Rightarrow> exec_bind (reconnect_loop checks backoff' rs) (\<lambda>(delays, e). Ret (delay # delays, e))))"

definition reconnect_task :: "bool \<Rightarrow> round list \<Rightarrow> (real list \<times> reconnected option) exec" where
  "reconnect_task checks rounds = reconnect_loop checks (backoff_new 1000000000 60000000000) rounds"

definition reconnect_done :: "string \<Rightarrow> ('g, 'l, 'any, 'h) FlowNode \<Rightarrow> ('g, 'l, 'any, 'h) FlowNode" where
  "reconnect_done node_id n = n\<lparr>fn_reconnecting_peers := hm_remove node_id (fn_reconnecting_peers n)\<rparr>"

end
