(* ===== verification/Flow_Data.thy ===== *)
theory Flow_Data
  imports Flow_Node Topics Framing
begin

text \<open>
  The data plane of a node (\<^verbatim>\<open>publish\<close> and the data streams of \<^verbatim>\<open>handle_new_connection\<close> in
  \<^verbatim>\<open>stric-flow/src/node.rs\<close>): publishing computes a forwarding table and hands the envelope to the
  first hops; every node that receives an envelope relays it to the targets the table names for
  it and delivers it to a local handler.
\<close>

section \<open>Definitions\<close>

definition find_conn :: "string \<Rightarrow> ('g, 'l, 'any, 'h) FlowNode \<Rightarrow> conn option" where
  "find_conn next_hop n =
     map_option (\<lambda>(_, entry). cw_conn entry)
       (find (\<lambda>(_, entry). fm_peer_node_id (cw_metadata entry) = Some next_hop) (cm_store (fn_core n)))"

definition forward_all ::
  "string \<Rightarrow> Envelope \<Rightarrow> string list \<Rightarrow> ('g, 'l, 'any, 'h) FlowNode \<Rightarrow> ('any, 'h) effect list"
where
  "forward_all flow_id envelope send_to n =
     concat (map (\<lambda>next_hop. case find_conn next_hop n of
                      Some conn \<Rightarrow> [SpawnForward conn flow_id envelope]
                    | None \<Rightarrow> []) send_to)"

text \<open>The first handler, in the order of the map, whose pattern matches.\<close>

definition matched_handler :: "string \<Rightarrow> ('g, 'l, 'any, 'h) FlowNode \<Rightarrow> 'h option" where
  "matched_handler topic_id n =
     map_option snd (find (\<lambda>(pattern, _). match_topic pattern topic_id) (fn_topic_handlers n))"

definition deliver_local ::
  "string \<Rightarrow> string \<Rightarrow> string \<Rightarrow> bytes \<Rightarrow> ('g, 'l, 'any, 'h) FlowNode \<Rightarrow> ('any, 'h) effect list"
where
  "deliver_local flow_id topic_id message_type payload n =
     (case registry_decode (fn_registry n) message_type payload of
        Inl _ \<Rightarrow> []
      | Inr decoded \<Rightarrow>
          (case matched_handler topic_id n of
             Some handler \<Rightarrow> [HandleMessage handler flow_id topic_id decoded]
           | None \<Rightarrow> []))"

definition on_envelope :: "Envelope \<Rightarrow> ('g, 'l, 'any, 'h) FlowNode \<Rightarrow> ('any, 'h) effect list" where
  "on_envelope envelope n =
     (case env_header envelope of
        None \<Rightarrow> []
      | Some header \<Rightarrow>
          (case hm_get (rh_forwarding_table header) (fn_node_id n) of
             Some targets \<Rightarrow> forward_all (rh_flow_id header) envelope targets n
           | None \<Rightarrow> []) @
          deliver_local (rh_flow_id header) (rh_topic_id header) (env_message_type envelope) (env_payload envelope) n)"

text \<open>A unidirectional stream that a peer opened, with the bytes it carries.\<close>

definition on_data_stream ::
  "(bytes \<Rightarrow> string + Envelope) \<Rightarrow> bytes \<Rightarrow> ('g, 'l, 'any, 'h) FlowNode \<Rightarrow> ('any, 'h) effect list"
where
  "on_data_stream decode stream n =
     (case read_frame stream of
        Inl _ \<Rightarrow> []
      | Inr (bytes, _) \<Rightarrow> (case decode bytes of Inl _ \<Rightarrow> [] | Inr envelope \<Rightarrow> on_envelope envelope n))"

text \<open>The spawned task: wait for the limiter of the flow, if there is one, and write one frame.\<close>

datatype forward_step = WaitForBytes string u32 | WriteUni conn bytes

definition forward_task ::
  "(Envelope \<Rightarrow> bytes) \<Rightarrow> conn \<Rightarrow> string \<Rightarrow> Envelope \<Rightarrow> ('g, 'l, 'any, 'h) FlowNode \<Rightarrow> forward_step list"
where
  "forward_task encode conn flow_id envelope n =
     (case hm_get (fn_flow_limiters n) flow_id of
        Some limiter \<Rightarrow> [WaitForBytes flow_id (of_nat (length (encode envelope)))]
      | None \<Rightarrow> []) @
     [WriteUni conn (write_frame encode envelope)]"

text \<open>The nodes with a matching capability, in the order of the map.\<close>

definition matches_capability :: "string \<Rightarrow> string \<Rightarrow> bool" where
  "matches_capability topic_id cap \<longleftrightarrow> take 4 cap = ''sub:'' \<and> match_topic (drop 4 cap) topic_id"

definition subscribers_of :: "string \<Rightarrow> (string, NodeDescriptor) hmap \<Rightarrow> string list" where
  "subscribers_of topic_id node_metadata =
     fold (\<lambda>(node_id, desc) subs.
         fold (\<lambda>(cap, _) subs. if matches_capability topic_id cap then hs_insert node_id subs else subs)
           (nd_capabilities desc) subs)
       node_metadata []"

definition local_interested :: "string \<Rightarrow> ('g, 'l, 'any, 'h) FlowNode \<Rightarrow> bool" where
  "local_interested topic_id n \<longleftrightarrow> (\<exists>pattern \<in> set (fn_local_subscriptions n). match_topic pattern topic_id)"

text \<open>
  \<^verbatim>\<open>publish\<close>, with the random nonce and the time as arguments. \<open>None\<close> is a computation of the table
  that does not end.
\<close>

definition make_envelope ::
  "string \<Rightarrow> u64 \<Rightarrow> string \<Rightarrow> string \<Rightarrow> string \<Rightarrow> i32 \<Rightarrow> bytes \<Rightarrow> (string, ForwardingTargets) hmap \<Rightarrow>
   ('g, 'l, 'any, 'h) FlowNode \<Rightarrow> Envelope"
where
  "make_envelope nonce now flow_id topic_id message_type codec payload forwarding_table n =
     \<lparr>env_header = Some \<lparr>rh_source_node_id = fn_node_id n, rh_flow_id = flow_id, rh_topic_id = topic_id,
        rh_session_id = '''', rh_nonce = nonce, rh_timestamp = now, rh_deadline = 0,
        rh_delivery_mode = DELIVERY_GUARANTEED, rh_forwarding_table = forwarding_table\<rparr>,
      env_message_type = message_type, env_codec = codec, env_payload = payload\<rparr>"

definition publish ::
  "('g, 'l) platform \<Rightarrow> string \<Rightarrow> u64 \<Rightarrow> string \<Rightarrow> string \<Rightarrow> string \<Rightarrow> i32 \<Rightarrow> bytes \<Rightarrow>
   ('g, 'l, 'any, 'h) FlowNode \<Rightarrow> ('any, 'h) effect list exec option"
where
  "publish pf nonce now flow_id topic_id message_type codec payload n =
     (let subscribers = subscribers_of topic_id (gg_node_metadata (fn_graph n));
          delivered = (if local_interested topic_id n then deliver_local flow_id topic_id message_type payload n else [])
      in if subscribers = [] then Some (Ret delivered)
         else map_option (\<lambda>r. exec_bind r (\<lambda>forwarding_table.
                let envelope = make_envelope nonce now flow_id topic_id message_type codec payload forwarding_table n in
                Ret (delivered @
                  (case hm_get forwarding_table (fn_node_id n) of
                     Some targets \<Rightarrow> forward_all flow_id envelope targets n
                   | None \<Rightarrow> []))))
                (compute_forwarding_table (pf_checks pf) (pf_graph pf) (fn_graph n) (fn_node_id n) subscribers))"

end
