(* ===== verification/Flow_Handshake.thy ===== *)
theory Flow_Handshake
  imports Flow_Operations Flow_Data
begin

text \<open>
  The control stream of a connection (\<^verbatim>\<open>handle_new_connection\<close> in \<^verbatim>\<open>stric-flow/src/node.rs\<close>): the
  negotiation, the registration of the peer, and the loops that send pings, write to and read from the
  stream and accept data streams.
  A stream is the bytes the peer writes to it; the protobuf codec is a pair of functions.
\<close>

section \<open>Definitions\<close>

definition handshake_of :: "('g, 'l, 'any, 'h) FlowNode \<Rightarrow> ControlMessage" where
  "handshake_of n = Some (CHandshake
     \<lparr>fh_protocol_version = 1, fh_node_id = fn_node_id n, fh_role = NODE_ROLE_FLOW, fh_capabilities = [],
      fh_supported_codecs = [''protobuf'', ''json''], fh_subscribed_topics = fn_local_subscriptions n,
      fh_identity_mode = IDENTITY_TLS_DERIVED\<rparr>)"

definition accept_ack :: ControlMessage where
  "accept_ack = Some (CHandshakeAck \<lparr>ha_accepted = True, ha_reject_reason = '''', ha_protocol_version = 1\<rparr>)"

definition reject_ack :: ControlMessage where
  "reject_ack = Some (CHandshakeAck
     \<lparr>ha_accepted = False, ha_reject_reason = ''Unsupported protocol version'', ha_protocol_version = 1\<rparr>)"

datatype negotiation_error =
    Open_Failed
  | Write_Failed
  | Read_Failed frame_error
  | Decode_Failed string
  | Expected_Handshake
  | Version_Mismatch
  | Expected_Ack
  | Rejected string

text \<open>The next message of the stream.\<close>

definition read_message ::
  "(bytes \<Rightarrow> string + ControlMessage) \<Rightarrow> bytes \<Rightarrow> negotiation_error + ControlMessage \<times> bytes"
where
  "read_message decode input =
     (case read_frame input of
        Inl e \<Rightarrow> Inl (Read_Failed e)
      | Inr (buf, rest) \<Rightarrow> (case decode buf of Inl e \<Rightarrow> Inl (Decode_Failed e) | Inr m \<Rightarrow> Inr (m, rest)))"

text \<open>
  The messages written, and the error or the peer's identifier and the rest of the stream.
  \<open>opened\<close> says whether the stream could be opened or accepted, \<open>write_ok i\<close> whether the \<open>i\<close>-th write
  succeeds; the rejection is written without looking at the result.
\<close>

definition negotiate ::
  "(bytes \<Rightarrow> string + ControlMessage) \<Rightarrow> bool \<Rightarrow> (nat \<Rightarrow> bool) \<Rightarrow> bytes \<Rightarrow> ('g, 'l, 'any, 'h) FlowNode \<Rightarrow>
   ControlMessage list \<times> (negotiation_error + string \<times> bytes)"
where
  "negotiate decode opened write_ok input n =
     (if \<not> opened then ([], Inl Open_Failed)
      else if \<not> write_ok 0 then ([], Inl Write_Failed)
      else case read_message decode input of
          Inl e \<Rightarrow> ([handshake_of n], Inl e)
        | Inr (peer_msg, rest) \<Rightarrow>
            (case peer_msg of
               Some (CHandshake h) \<Rightarrow>
                 if fh_protocol_version h \<noteq> 1
                 then ([handshake_of n] @ (if write_ok 1 then [reject_ack] else []), Inl Version_Mismatch)
                 else if \<not> write_ok 1 then ([handshake_of n], Inl Write_Failed)
                 else ([handshake_of n, accept_ack],
                   case read_message decode rest of
                     Inl e \<Rightarrow> Inl e
                   | Inr (peer_ack, rest') \<Rightarrow>
                       (case peer_ack of
                          Some (CHandshakeAck a) \<Rightarrow>
                            if \<not> ha_accepted a then Inl (Rejected (ha_reject_reason a))
                            else Inr (fh_node_id h, rest')
                        | _ \<Rightarrow> Inl Expected_Ack))
             | _ \<Rightarrow> ([handshake_of n], Inl Expected_Handshake)))"

text \<open>
  What follows a successful negotiation: the peer's address is stored, the control loop learns the
  peer, and the node's view and subscriptions are the first messages to it.
\<close>

definition register_peer ::
  "('g, 'l) platform \<Rightarrow> SocketAddr \<Rightarrow> control_sender \<Rightarrow> string \<Rightarrow> ('g, 'l, 'any, 'h) FlowNode \<Rightarrow> ('g, 'l, 'any, 'h) outcome"
where
  "register_peer pf remote_addr tx peer_id n =
     (let server_name = (case hm_get (fn_pending_connects n) remote_addr of Some name \<Rightarrow> name | None \<Rightarrow> peer_id);
          n1 = n\<lparr>fn_pending_connects := hm_remove remote_addr (fn_pending_connects n),
                 fn_peer_addresses := hm_insert peer_id (remote_addr, server_name) (fn_peer_addresses n)\<rparr>
      in exec_bind (get_descriptors (pf_graph pf) (fn_graph n1)) (\<lambda>ds.
           Ret (n1,
             [Enqueue (PeerConnected peer_id tx),
              SendControl tx (Some (CTopologyUpdate (snapshot_update (fn_node_id n) 1 ds))),
              SendControl tx (Some (CSubscriptionUpdate
                \<lparr>su_node_id = fn_node_id n, su_entries = subscribe_entries (fn_local_subscriptions n),
                 su_epoch = epoch_of (fn_last_subscription_epochs n) (fn_node_id n)\<rparr>))])))"

text \<open>The connection handler: the messages written, and the state, the effects and the wrapper or the error.\<close>

definition handle_new_connection ::
  "('g, 'l) platform \<Rightarrow> (bytes \<Rightarrow> string + ControlMessage) \<Rightarrow> bool \<Rightarrow> (nat \<Rightarrow> bool) \<Rightarrow> bytes \<Rightarrow> SocketAddr \<Rightarrow>
   control_sender \<Rightarrow> (conn, FlowConnectionMetadata) ConnectionWrapper \<Rightarrow> ('g, 'l, 'any, 'h) FlowNode \<Rightarrow>
   (ControlMessage list \<times> ('g, 'l, 'any, 'h) FlowNode \<times> ('any, 'h) effect list \<times>
     (negotiation_error + (conn, FlowConnectionMetadata) ConnectionWrapper)) exec"
where
  "handle_new_connection pf decode opened write_ok input remote_addr tx wrapper n =
     (case negotiate decode opened write_ok input n of
        (written, Inl e) \<Rightarrow> Ret (written, n, [], Inl e)
      | (written, Inr (peer_id, rest)) \<Rightarrow>
          exec_bind (register_peer pf remote_addr tx peer_id n) (\<lambda>(n1, effects).
            Ret (written, n1, effects, Inr (wrapper\<lparr>cw_metadata := \<lparr>fm_peer_node_id = Some peer_id\<rparr>\<rparr>))))"

text \<open>
  The loop that sends a ping every second: at each tick the reading of the clock, and whether the
  channel to the writer loop still takes the message.
\<close>

definition ping_message :: "u64 \<Rightarrow> ControlMessage" where
  "ping_message now = Some (CPing \<lparr>ping_sent_at = now\<rparr>)"

fun ping_loop :: "(u64 \<times> bool) list \<Rightarrow> ControlMessage list" where
  "ping_loop [] = []"
| "ping_loop ((now, ok) # ticks) = (if ok then ping_message now # ping_loop ticks else [])"

text \<open>
  The writer loop takes the messages off the channel and ends at the first that cannot be written;
  a part of its frame may still have gone out.
\<close>

datatype write_outcome = Written | Broken nat

fun writer_loop :: "(ControlMessage \<Rightarrow> bytes) \<Rightarrow> (ControlMessage \<times> write_outcome) list \<Rightarrow> bytes" where
  "writer_loop encode [] = []"
| "writer_loop encode ((msg, outcome) # msgs) =
     (case outcome of
        Written \<Rightarrow> write_frame encode msg @ writer_loop encode msgs
      | Broken k \<Rightarrow> take k (write_frame encode msg))"

text \<open>
  The reader loop: the events it sends to the control loop. When the stream ends it removes the
  connection from the registry, before the last of them.
\<close>

definition reader_loop :: "(bytes \<Rightarrow> string + ControlMessage) \<Rightarrow> string \<Rightarrow> bytes \<Rightarrow> ControlEvent list" where
  "reader_loop decode peer_id input =
     List.map_filter (\<lambda>buf. case decode buf of Inr msg \<Rightarrow> Some (ControlMsgReceived peer_id msg) | Inl _ \<Rightarrow> None)
       (fst (read_frames input)) @ [PeerDisconnected peer_id]"

definition reader_cleanup :: "u64 \<Rightarrow> ('g, 'l, 'any, 'h) FlowNode \<Rightarrow> ('g, 'l, 'any, 'h) FlowNode" where
  "reader_cleanup conn_id n = n\<lparr>fn_core := snd (remove_connection conn_id (fn_core n))\<rparr>"

text \<open>
  The listener for data streams: one task per accepted stream, until accepting fails. Each task sees
  the node as it is when the task runs.
\<close>

fun data_listener ::
  "(bytes \<Rightarrow> string + Envelope) \<Rightarrow> (bytes option \<times> ('g, 'l, 'any, 'h) FlowNode) list \<Rightarrow> ('any, 'h) effect list list"
where
  "data_listener decode [] = []"
| "data_listener decode ((accepted, n) # streams) =
     (case accepted of
        None \<Rightarrow> []
      | Some recv \<Rightarrow> on_data_stream decode recv n # data_listener decode streams)"

section \<open>Lemmas\<close>

text \<open>Everything written, one frame per message.\<close>

definition write_frames :: "('m \<Rightarrow> bytes) \<Rightarrow> 'm list \<Rightarrow> bytes" where
  "write_frames encode msgs = concat (map (write_frame encode) msgs)"

lemma writer_loop_written:
  "writer_loop encode (map (\<lambda>m. (m, Written)) msgs @ rest) = write_frames encode msgs @ writer_loop encode rest"
  by (induction msgs) (simp_all add: write_frames_def)

text \<open>
  The pings sent are those of the ticks before the channel closed, and the streams served are those
  accepted before the connection ended, each by a task of its own.
\<close>

lemma ping_loop_until_closed:
  "ping_loop (map (\<lambda>now. (now, True)) ts @ (t, False) # ticks) = map ping_message ts"
  by (induction ts) simp_all

lemma data_listener_until_closed:
  "data_listener decode (map (\<lambda>(recv, n). (Some recv, n)) served @ (None, n') # streams) =
    map (\<lambda>(recv, n). on_data_stream decode recv n) served"
  by (induction served) auto

lemma read_message_written:
  assumes "decode (encode m) = Inr m" and "length (encode m) \<le> MAX_FRAME"
  shows "read_message decode (write_frame encode m @ rest) = Inr (m, rest)"
  using read_write_frame [of encode m rest] assms(2) assms(1) by (simp add: read_message_def)

lemma reconnect_append:
  assumes "\<forall>r \<in> set rs. \<not> ro_connected r \<and> \<not> ro_connected_after r \<and> (\<exists>e. ro_connect r = Inl e)"
  shows "reconnect_loop checks eb (rs @ tail) =
    exec_bind (backoff_delays checks (map ro_jitter rs) eb) (\<lambda>(ds, eb').
      exec_bind (reconnect_loop checks eb' tail) (\<lambda>(ds', e). Ret (ds @ ds', e)))"
  using assms
proof (induction rs arbitrary: eb)
  case Nil
  show ?case by (cases "reconnect_loop checks eb tail") auto
next
  case (Cons r rs)
  obtain e where r: "\<not> ro_connected r" "\<not> ro_connected_after r" "ro_connect r = Inl e"
    using Cons.prems by auto
  have "reconnect_loop checks eb' (rs @ tail) =
      exec_bind (backoff_delays checks (map ro_jitter rs) eb') (\<lambda>(ds, eb'').
        exec_bind (reconnect_loop checks eb'' tail) (\<lambda>(ds', e). Ret (ds @ ds', e)))" for eb'
    by (rule Cons.IH) (use Cons.prems in auto)
  then show ?case
    using r by (cases "next_backoff checks (ro_jitter r) eb") (auto simp: exec_bind_assoc case_prod_beta)
qed

text \<open>A codec for examples: messages are numbered and a message is the byte of its number.\<close>

definition demo_messages :: "ControlMessage list" where
  "demo_messages = [None, ping_message 0, accept_ack, handshake_of (demo_flow ''a''), handshake_of (demo_flow ''b'')]"

fun index_from :: "nat \<Rightarrow> 'a list \<Rightarrow> 'a \<Rightarrow> nat" where
  "index_from k [] y = k"
| "index_from k (x # xs) y = (if x = y then k else index_from (Suc k) xs y)"

definition demo_encode :: "ControlMessage \<Rightarrow> bytes" where
  "demo_encode m = [of_nat (index_from 0 demo_messages m)]"

definition demo_decode :: "bytes \<Rightarrow> string + ControlMessage" where
  "demo_decode bs = (case bs of
     [b] \<Rightarrow> if unat b < length demo_messages then Inr (demo_messages ! unat b) else Inl ''tag''
   | _ \<Rightarrow> Inl ''length'')"

lemma index_from_nth:
  "x \<in> set xs \<Longrightarrow> k \<le> index_from k xs x \<and> index_from k xs x < k + length xs \<and> xs ! (index_from k xs x - k) = x"
proof (induction xs arbitrary: k)
  case (Cons a xs)
  show ?case
  proof (cases "a = x")
    case False
    then have "Suc k \<le> index_from (Suc k) xs x \<and> index_from (Suc k) xs x < Suc k + length xs \<and>
        xs ! (index_from (Suc k) xs x - Suc k) = x"
      using Cons.IH [of "Suc k"] Cons.prems by simp
    moreover from this have "index_from (Suc k) xs x - k = Suc (index_from (Suc k) xs x - Suc k)"
      by (simp add: Suc_diff_Suc Suc_le_eq)
    ultimately show ?thesis using False by simp
  qed simp
qed simp

lemma demo_codec:
  assumes "m \<in> set demo_messages"
  shows "demo_decode (demo_encode m) = Inr m" and "length (demo_encode m) \<le> MAX_FRAME"
proof -
  have i: "index_from 0 demo_messages m < 5" "demo_messages ! index_from 0 demo_messages m = m"
    using index_from_nth [OF assms, of 0] by (simp_all add: demo_messages_def)
  then have "unat (of_nat (index_from 0 demo_messages m) :: u8) = index_from 0 demo_messages m"
    by (simp add: unat_of_nat)
  then show "demo_decode (demo_encode m) = Inr m"
    using i by (simp add: demo_decode_def demo_encode_def) (simp add: demo_messages_def)
  show "length (demo_encode m) \<le> MAX_FRAME" by (simp add: demo_encode_def MAX_FRAME_def)
qed

section \<open>Properties\<close>

text \<open>
  C11: two nodes that negotiate with each other agree. With a codec that decodes what it encodes, what
  each side writes is what the other side needs: both succeed, each learns the other's identifier,
  and each leaves the rest of the stream, the control messages, unread.
\<close>

theorem handshake_agreement:
  fixes a :: "('g, 'l, 'any, 'h) FlowNode" and b :: "('g2, 'l2, 'any2, 'h2) FlowNode"
  assumes "\<forall>m \<in> {handshake_of a, handshake_of b, accept_ack}.
      decode (encode m) = Inr m \<and> length (encode m) \<le> MAX_FRAME"
  shows "\<exists>wa wb. negotiate decode True (\<lambda>_. True) (write_frames encode wb @ rest_b) a = (wa, Inr (fn_node_id b, rest_b)) \<and>
    negotiate decode True (\<lambda>_. True) (write_frames encode wa @ rest_a) b = (wb, Inr (fn_node_id a, rest_a))"
proof (intro exI conjI)
  have codec: "decode (encode m) = Inr m" "length (encode m) \<le> MAX_FRAME"
    if "m \<in> {handshake_of a, handshake_of b, accept_ack}" for m
    using assms that by blast+
  have ack: "accept_ack = Some (CHandshakeAck \<lparr>ha_accepted = True, ha_reject_reason = '''', ha_protocol_version = 1\<rparr>)"
    by (rule accept_ack_def)
  have read: "read_message decode (write_frames encode [m, accept_ack] @ rest) = Inr (m, write_frame encode accept_ack @ rest)"
    "read_message decode (write_frame encode accept_ack @ rest) = Inr (accept_ack, rest)"
    if "m \<in> {handshake_of a, handshake_of b}" for m rest
  proof -
    have m: "decode (encode m) = Inr m" "length (encode m) \<le> MAX_FRAME"
      by (rule codec, use that in blast)+
    show "read_message decode (write_frames encode [m, accept_ack] @ rest) = Inr (m, write_frame encode accept_ack @ rest)"
      using read_message_written [of decode encode m, OF m] by (simp add: write_frames_def)
    show "read_message decode (write_frame encode accept_ack @ rest) = Inr (accept_ack, rest)"
      by (rule read_message_written; rule codec) simp_all
  qed
  show "negotiate decode True (\<lambda>_. True) (write_frames encode [handshake_of b, accept_ack] @ rest_b) a =
      ([handshake_of a, accept_ack], Inr (fn_node_id b, rest_b))"
    unfolding negotiate_def using read [of "handshake_of b" rest_b]
    by (simp add: ack) (simp add: handshake_of_def ack)
  show "negotiate decode True (\<lambda>_. True) (write_frames encode [handshake_of a, accept_ack] @ rest_a) b =
      ([handshake_of b, accept_ack], Inr (fn_node_id a, rest_a))"
    unfolding negotiate_def using read [of "handshake_of a" rest_a]
    by (simp add: ack) (simp add: handshake_of_def ack)
qed

theorem handshake_agreement_witness:
  "\<exists>wa wb. negotiate demo_decode True (\<lambda>_. True) (write_frames demo_encode wb @ []) (demo_flow ''a'') = (wa, Inr (''b'', [])) \<and>
    negotiate demo_decode True (\<lambda>_. True) (write_frames demo_encode wa @ []) (demo_flow ''b'') = (wb, Inr (''a'', []))"
proof -
  have "\<forall>m \<in> {handshake_of (demo_flow ''a''), handshake_of (demo_flow ''b''), accept_ack}.
      demo_decode (demo_encode m) = Inr m \<and> length (demo_encode m) \<le> MAX_FRAME"
    using demo_codec by (simp add: demo_messages_def)
  from handshake_agreement [OF this, of "[]" "[]"] show ?thesis by (simp add: demo_flow_def flow_new_def)
qed

text \<open>
  C13: only a peer that has completed the negotiation is registered. If handling a new connection
  gives a wrapper for the registry, then the peer sent a handshake of protocol version 1 followed by
  an accepting acknowledgement, this node sent its own, and the wrapper carries the identifier of
  that handshake. In every other case the node's state is unchanged and nothing is sent to its
  control loop; a peer that sends a handshake of another version is told so.
\<close>

theorem only_negotiated_peers:
  assumes "handle_new_connection pf decode opened write_ok input addr tx w n = Ret (written, n', effects, result)"
  shows "(\<forall>w'. result = Inr w' \<longrightarrow> (\<exists>h rest a rest'. read_message decode input = Inr (Some (CHandshake h), rest) \<and>
       fh_protocol_version h = 1 \<and> read_message decode rest = Inr (Some (CHandshakeAck a), rest') \<and> ha_accepted a \<and>
       w' = w\<lparr>cw_metadata := \<lparr>fm_peer_node_id = Some (fh_node_id h)\<rparr>\<rparr> \<and> written = [handshake_of n, accept_ack])) \<and>
    (\<forall>e. result = Inl e \<longrightarrow> n' = n \<and> effects = []) \<and>
    (\<forall>h rest. opened \<and> write_ok 0 \<and> write_ok 1 \<and> read_message decode input = Inr (Some (CHandshake h), rest) \<and>
       fh_protocol_version h \<noteq> 1 \<longrightarrow> result = Inl Version_Mismatch \<and> written = [handshake_of n, reject_ack])"
proof -
  obtain r where neg: "negotiate decode opened write_ok input n = (written, r)"
    and r: "result = map_sum id (\<lambda>(peer_id, rest). w\<lparr>cw_metadata := \<lparr>fm_peer_node_id = Some peer_id\<rparr>\<rparr>) r"
    "\<forall>e. r = Inl e \<longrightarrow> n' = n \<and> effects = []"
    using assms by (auto simp: handle_new_connection_def exec_bind_eq_Ret split: prod.splits sum.splits)
  have ok: "\<exists>h rest a rest'. read_message decode input = Inr (Some (CHandshake h), rest) \<and>
       fh_protocol_version h = 1 \<and> read_message decode rest = Inr (Some (CHandshakeAck a), rest') \<and> ha_accepted a \<and>
       peer_id = fh_node_id h \<and> written = [handshake_of n, accept_ack]" if "r = Inr (peer_id, tail)" for peer_id tail
    using neg unfolding that negotiate_def
    by (auto split: if_splits sum.splits prod.splits option.splits control_payload.splits)
  have bad: "r = Inl Version_Mismatch \<and> written = [handshake_of n, reject_ack]"
    if "opened" "write_ok 0" "write_ok 1" "read_message decode input = Inr (Some (CHandshake h), rest)"
      "fh_protocol_version h \<noteq> 1" for h rest
    using neg that by (simp add: negotiate_def)
  show ?thesis
  proof (intro conjI allI impI)
    fix w' assume "result = Inr w'"
    then obtain peer_id tail where "r = Inr (peer_id, tail)" "w' = w\<lparr>cw_metadata := \<lparr>fm_peer_node_id = Some peer_id\<rparr>\<rparr>"
      using r(1) by (cases r) auto
    with ok show "\<exists>h rest a rest'. read_message decode input = Inr (Some (CHandshake h), rest) \<and>
       fh_protocol_version h = 1 \<and> read_message decode rest = Inr (Some (CHandshakeAck a), rest') \<and> ha_accepted a \<and>
       w' = w\<lparr>cw_metadata := \<lparr>fm_peer_node_id = Some (fh_node_id h)\<rparr>\<rparr> \<and> written = [handshake_of n, accept_ack]"
      by blast
  next
    fix e assume "result = Inl e"
    then have "\<exists>e. r = Inl e" using r(1) by (cases r) auto
    then show "n' = n" "effects = []" using r(2) by blast+
  qed (use bad r(1) in auto)
qed

definition demo_wrapper :: "(conn, FlowConnectionMetadata) ConnectionWrapper" where
  "demo_wrapper = \<lparr>cw_conn = 3, cw_context = demo_context\<lparr>cc_id := 3\<rparr>, cw_metadata = \<lparr>fm_peer_node_id = None\<rparr>\<rparr>"

theorem only_negotiated_peers_witness:
  "\<exists>written n' effects. handle_new_connection (demo_pf False) demo_decode True (\<lambda>_. True) [] ([], 1) 0 demo_wrapper
     (demo_flow ''a'') = Ret (written, n', effects, Inl (Read_Failed UnexpectedEof)) \<and> n' = demo_flow ''a''"
proof -
  have h: "handle_new_connection (demo_pf False) demo_decode True (\<lambda>_. True) [] ([], 1) 0 demo_wrapper
     (demo_flow ''a'') = Ret ([handshake_of (demo_flow ''a'')], demo_flow ''a'', [], Inl (Read_Failed UnexpectedEof))"
    by (simp add: handle_new_connection_def negotiate_def read_message_def read_frame_def read_exact_def)
  from only_negotiated_peers [OF this] show ?thesis using h by blast
qed

text \<open>
  C14: the control channel delivers what was sent. If the codec decodes what it encodes and every
  message fits a frame, the reader loop of one side hands the messages that the writer loop of the
  other side wrote to its control loop, all of them, once and in order, as messages of that peer,
  and reports the peer as disconnected exactly after the last one. If writing fails at some message,
  even with a part of its frame sent, it is the messages before that one that arrive.
\<close>

theorem control_channel_roundtrip:
  assumes "\<forall>m \<in> set msgs. decode (encode m) = Inr m \<and> length (encode m) \<le> MAX_FRAME"
    and "rest = [] \<or> (\<exists>m k later. rest = (m, Broken k) # later \<and> length (encode m) \<le> MAX_FRAME \<and> k < length (write_frame encode m))"
  shows "reader_loop decode peer (writer_loop encode (map (\<lambda>m. (m, Written)) msgs @ rest)) =
    map (ControlMsgReceived peer) msgs @ [PeerDisconnected peer]"
proof -
  have "fst (read_frames (writer_loop encode rest)) = []"
    using assms(2)
  proof (elim disjE exE conjE)
    fix m k later
    assume "rest = (m, Broken k) # later" "length (encode m) \<le> MAX_FRAME" "k < length (write_frame encode m)"
    then show ?thesis by (simp add: read_frames.simps truncated_frame_rejected)
  qed (simp add: read_frames.simps read_frame_def read_exact_def)
  then have frames: "fst (read_frames (writer_loop encode (map (\<lambda>m. (m, Written)) msgs @ rest))) = map encode msgs"
    unfolding writer_loop_written write_frames_def using read_frames_write [of msgs encode] assms(1) by simp
  have "List.map_filter (\<lambda>buf. case decode buf of Inr msg \<Rightarrow> Some (ControlMsgReceived peer msg) | Inl _ \<Rightarrow> None)
      (map encode msgs) = map (ControlMsgReceived peer) msgs"
    using assms(1) by (induction msgs) (simp_all add: List.map_filter_simps)
  then show ?thesis by (simp add: reader_loop_def frames)
qed

theorem control_channel_roundtrip_witness:
  "reader_loop demo_decode ''a'' (writer_loop demo_encode
      [(ping_message 0, Written), (None, Written), (ping_message 0, Broken 3), (None, Written)]) =
     [ControlMsgReceived ''a'' (ping_message 0), ControlMsgReceived ''a'' None, PeerDisconnected ''a'']"
  using control_channel_roundtrip [of "[ping_message 0, None]" demo_decode demo_encode
      "[(ping_message 0, Broken 3), (None, Written)]" "''a''"] demo_codec
  by (simp add: demo_messages_def write_frame_def Let_def)



text \<open>
  C30: reconnection is persistent and backs off. As long as the peer is not connected and every attempt
  fails, the task keeps trying, waiting before the \<open>i\<close>-th attempt (counting from 0) about \<open>2^i\<close> seconds,
  at most about 60, within the jitter of a tenth, and never less than one second. It ends in the
  first round in which the peer is found connected or an attempt succeeds.
\<close>

theorem reconnect_persists:
  assumes "length rs < 2 ^ 32" and "\<forall>r \<in> set rs. -0.1 \<le> ro_jitter r \<and> ro_jitter r \<le> 0.1"
    and "\<forall>r \<in> set rs. \<not> ro_connected r \<and> \<not> ro_connected_after r \<and> (\<exists>e. ro_connect r = Inl e)"
  shows "\<exists>ds. reconnect_task checks rs = Ret (ds, None) \<and> length ds = length rs \<and>
    (\<forall>i < length rs. max 1 (0.9 * min 60 (2 ^ i)) \<le> ds ! i \<and> ds ! i \<le> max 1 (1.1 * min 60 (2 ^ i))) \<and>
    (\<forall>r tail. ro_connected r \<or> ro_connected_after r \<or> (\<exists>i. ro_connect r = Inr i) \<longrightarrow> length rs < 2 ^ 32 - 1 \<longrightarrow>
       (\<exists>ds' e. reconnect_task checks (rs @ r # tail) = Ret (ds @ ds', Some e)))"
proof -
  define eb where "eb = backoff_new 1000000000 60000000000"
  have start: "unat (eb_attempts eb) = 0" "eb_base eb = 1000000000" "eb_max eb = 60000000000"
    by (simp_all add: eb_def backoff_new_def)
  obtain ds eb' where ds: "backoff_delays checks (map ro_jitter rs) eb = Ret (ds, eb')" "length ds = length rs"
    "\<forall>i < length rs. ds ! i = max 1 (real (min 60000000000 (1000000000 * 2 ^ i)) / 1000000000 * (1 + ro_jitter (rs ! i)))"
    "unat (eb_attempts eb') = length rs"
    using backoff_delays_eq [of 60000000000 1000000000 eb "map ro_jitter rs" checks] assms(1) start
    by (auto simp: DURATION_MAX_def)
  have scale: "real (min 60000000000 (1000000000 * 2 ^ i)) / 1000000000 = min 60 (2 ^ i)" for i :: nat
  proof -
    have "real 60 \<le> real (2 ^ i) \<longleftrightarrow> (60 :: nat) \<le> 2 ^ i" by (rule of_nat_le_iff)
    then show ?thesis by (simp add: min_def)
  qed
  have bounds: "max 1 (0.9 * min 60 (2 ^ i)) \<le> ds ! i \<and> ds ! i \<le> max 1 (1.1 * min 60 (2 ^ i))" if "i < length rs" for i
  proof -
    have "rs ! i \<in> set rs" using that by simp
    then have "-0.1 \<le> ro_jitter (rs ! i)" "ro_jitter (rs ! i) \<le> 0.1" using assms(2) by blast+
    then have "0.9 * min 60 (2 ^ i) \<le> min 60 (2 ^ i) * (1 + ro_jitter (rs ! i))"
      "min 60 (2 ^ i) * (1 + ro_jitter (rs ! i)) \<le> 1.1 * min 60 (2 ^ i)"
      by (intro jitter_bounds; simp)+
    moreover have "ds ! i = max 1 (min 60 (2 ^ i) * (1 + ro_jitter (rs ! i)))" using ds(3) that unfolding scale by blast
    ultimately show ?thesis by (simp only: max.mono order_refl)
  qed
  have "\<exists>ds' e. reconnect_task checks (rs @ r # tail) = Ret (ds @ ds', Some e)"
    if r: "ro_connected r \<or> ro_connected_after r \<or> (\<exists>i. ro_connect r = Inr i)" and fits: "length rs < 2 ^ 32 - 1" for r tail
  proof -
    have "\<exists>d eb''. next_backoff checks (ro_jitter r) eb' = Ret (d, eb'')"
      using next_backoff_result(1) [of eb' checks "ro_jitter r"] ds(4) fits by auto
    then obtain ds' e where "reconnect_loop checks eb' (r # tail) = Ret (ds', Some e)"
      using r by (cases "ro_connected r"; cases "ro_connected_after r") (auto split: sum.splits)
    then show ?thesis
      using reconnect_append [OF assms(3), of checks eb "r # tail"] ds(1) by (simp add: reconnect_task_def eb_def [symmetric])
  qed
  moreover have "reconnect_task checks rs = Ret (ds, None)"
    using reconnect_append [OF assms(3), of checks eb "[]"] ds(1) by (simp add: reconnect_task_def eb_def [symmetric])
  ultimately show ?thesis using ds(2) bounds by blast
qed

theorem reconnect_persists_witness:
  "\<exists>ds. reconnect_task True [\<lparr>ro_connected = False, ro_jitter = 0, ro_connected_after = False, ro_connect = Inl (FE_Anyhow ''refused'')\<rparr>] =
     Ret (ds, None) \<and> length ds = 1"
  using reconnect_persists [of "[\<lparr>ro_connected = False, ro_jitter = 0, ro_connected_after = False, ro_connect = Inl (FE_Anyhow ''refused'')\<rparr>]" True]
  by fastforce

end
