(* ===== verification/Gossip.thy ===== *)
theory Gossip
  imports Flow_Handshake Flow_Data
begin

text \<open>
  How updates spread between nodes. Topology updates and subscription updates are filtered by the
  epoch last seen from their origin; what the filter guarantees is proved once, for both. The
  second part shows where the epochs that nodes use defeat the filter.
\<close>

section \<open>The filter by epochs\<close>

fun gossip_run :: "('u \<Rightarrow> 's \<Rightarrow> ('s \<times> 'e list) exec) \<Rightarrow> 'u list \<Rightarrow> 's \<Rightarrow> ('s \<times> 'e list list) exec" where
  "gossip_run handle [] s = Ret (s, [])"
| "gossip_run handle (u # us) s =
     exec_bind (handle u s) (\<lambda>(s1, out). exec_bind (gossip_run handle us s1) (\<lambda>(s2, outs). Ret (s2, out # outs)))"

locale epoch_gossip =
  fixes handle :: "'u \<Rightarrow> 's \<Rightarrow> ('s \<times> 'e list) exec"
    and key :: "'u \<Rightarrow> string"
    and epoch :: "'u \<Rightarrow> u64"
    and epochs :: "'s \<Rightarrow> string \<rightharpoonup> u64"
    and content :: "'s \<Rightarrow> 'c"
    and good :: "'s \<Rightarrow> bool"
  assumes fresh: "good s \<Longrightarrow> newer (epochs s) (key u) (epoch u) \<Longrightarrow>
      \<exists>s' out. handle u s = Ret (s', out) \<and> good s' \<and> epochs s' = (epochs s)(key u \<mapsto> epoch u)"
    and stale: "good s \<Longrightarrow> \<not> newer (epochs s) (key u) (epoch u) \<Longrightarrow>
      \<exists>s'. handle u s = Ret (s', []) \<and> good s' \<and> epochs s' = epochs s \<and> content s' = content s"
begin

lemma handle_step:
  assumes "good s"
  obtains s' out where "handle u s = Ret (s', out)" "good s'"
    "epochs s' = (if newer (epochs s) (key u) (epoch u) then (epochs s)(key u \<mapsto> epoch u) else epochs s)"
    "out \<noteq> [] \<longrightarrow> newer (epochs s) (key u) (epoch u)"
  using fresh [OF assms, of u] stale [OF assms, of u]
  by (cases "newer (epochs s) (key u) (epoch u)") auto

text \<open>What is known of an origin only grows, and covers every update handled.\<close>

lemma gossip_run_result:
  assumes "good s"
  shows "\<exists>s' outs. gossip_run handle us s = Ret (s', outs) \<and> length outs = length us \<and> good s' \<and>
    (\<forall>k e. epochs s k = Some e \<longrightarrow> (\<exists>e'. epochs s' k = Some e' \<and> e \<le> e')) \<and>
    (\<forall>u \<in> set us. \<exists>e. epochs s' (key u) = Some e \<and> epoch u \<le> e) \<and>
    (\<forall>i < length us. outs ! i \<noteq> [] \<longrightarrow> newer (epochs s) (key (us ! i)) (epoch (us ! i))) \<and>
    (\<forall>i j. i < j \<longrightarrow> j < length us \<longrightarrow> key (us ! i) = key (us ! j) \<longrightarrow> outs ! j \<noteq> [] \<longrightarrow>
       epoch (us ! i) < epoch (us ! j))"
  using assms
proof (induction us arbitrary: s)
  case (Cons u us)
  obtain s1 out where s1: "handle u s = Ret (s1, out)" "good s1"
    "epochs s1 = (if newer (epochs s) (key u) (epoch u) then (epochs s)(key u \<mapsto> epoch u) else epochs s)"
    "out \<noteq> [] \<longrightarrow> newer (epochs s) (key u) (epoch u)"
    by (rule handle_step [OF Cons.prems, of u])
  obtain s2 outs where s2: "gossip_run handle us s1 = Ret (s2, outs)" "length outs = length us" "good s2"
    and mono: "\<forall>k e. epochs s1 k = Some e \<longrightarrow> (\<exists>e'. epochs s2 k = Some e' \<and> e \<le> e')"
    and cover: "\<forall>x \<in> set us. \<exists>e. epochs s2 (key x) = Some e \<and> epoch x \<le> e"
    and sent: "\<forall>i < length us. outs ! i \<noteq> [] \<longrightarrow> newer (epochs s1) (key (us ! i)) (epoch (us ! i))"
    and incr: "\<forall>i j. i < j \<longrightarrow> j < length us \<longrightarrow> key (us ! i) = key (us ! j) \<longrightarrow> outs ! j \<noteq> [] \<longrightarrow>
       epoch (us ! i) < epoch (us ! j)"
    using Cons.IH [OF s1(2)] by (elim exE conjE) (rule that)
  have grow: "\<exists>e'. epochs s1 k = Some e' \<and> e \<le> e'" if "epochs s k = Some e" for k e
    using that s1(3) by (auto simp: newer_def)
  have here: "\<exists>e. epochs s1 (key u) = Some e \<and> epoch u \<le> e"
    using s1(3) by (auto simp: newer_def not_less)
  have older: "newer (epochs s) k e" if "newer (epochs s1) k e" for k e
    unfolding newer_def
  proof (intro allI impI)
    fix e0 assume "epochs s k = Some e0"
    then obtain e' where "epochs s1 k = Some e'" "e0 \<le> e'" using grow by blast
    with that show "e0 < e" by (auto simp: newer_def)
  qed
  have first: "epoch u < epoch (us ! j)" if "j < length us" "key u = key (us ! j)" "outs ! j \<noteq> []" for j
    using here sent [rule_format, OF that(1, 3)] that(2) by (auto simp: newer_def)
  show ?case
  proof (rule exI [of _ s2], rule exI [of _ "out # outs"], intro conjI allI impI ballI)
    show "gossip_run handle (u # us) s = Ret (s2, out # outs)" using s1(1) s2(1) by simp
    show "length (out # outs) = length (u # us)" "good s2" using s2 by simp_all
    show "\<exists>e'. epochs s2 k = Some e' \<and> e \<le> e'" if "epochs s k = Some e" for k e
      using grow [OF that] mono order_trans by blast
    show "\<exists>e. epochs s2 (key x) = Some e \<and> epoch x \<le> e" if x: "x \<in> set (u # us)" for x
    proof (cases "x = u")
      case True
      with here mono show ?thesis using order_trans by blast
    qed (use x cover in auto)
    show "newer (epochs s) (key ((u # us) ! i)) (epoch ((u # us) ! i))"
      if "i < length (u # us)" "(out # outs) ! i \<noteq> []" for i
      using that s1(4) sent older by (cases i) simp_all
    show "epoch ((u # us) ! i) < epoch ((u # us) ! j)"
      if "i < j" "j < length (u # us)" "key ((u # us) ! i) = key ((u # us) ! j)" "(out # outs) ! j \<noteq> []" for i j
      using that incr first by (cases i; cases j) simp_all
  qed
qed simp

end

text \<open>The two kinds of updates, with the readings of the clock and the peer they come from.\<close>

definition topology_handler ::
  "('g, 'l) platform \<Rightarrow> clock \<times> string \<times> TopologyUpdate \<Rightarrow> ('g, 'l, 'any, 'h) FlowNode \<Rightarrow> ('g, 'l, 'any, 'h) outcome"
where
  "topology_handler pf = (\<lambda>(ck, from, u). on_topology_update pf ck from u)"

definition subscription_handler ::
  "('g, 'l) platform \<Rightarrow> clock \<times> string \<times> SubscriptionUpdate \<Rightarrow> ('g, 'l, 'any, 'h) FlowNode \<Rightarrow> ('g, 'l, 'any, 'h) outcome"
where
  "subscription_handler pf = (\<lambda>(ck, from, u). on_subscription_update pf ck from u)"

locale flow_platform = topology_graph ops wts edge inv
  for ops :: "('g, string, LinkWeight) digraph_ops"
    and wts :: "'g \<Rightarrow> string list"
    and edge :: "'g \<Rightarrow> nat \<Rightarrow> nat \<Rightarrow> LinkWeight option"
    and inv :: "'g \<Rightarrow> bool" +
  fixes pf :: "('g, 'l) platform"
  assumes pf: "pf_graph pf = ops"

sublocale flow_platform \<subseteq> topology_filter: epoch_gossip "topology_handler pf"
  "\<lambda>(ck, from, u). tu_origin_node_id u" "\<lambda>(ck, from, u). tu_epoch u"
  "\<lambda>n. hm_get (fn_last_epochs n)" fn_graph "flow_wf wts edge inv"
proof unfold_locales
  fix n :: "('g, 'l, 'any, 'h) FlowNode" and x :: "clock \<times> string \<times> TopologyUpdate"
  assume wf: "flow_wf wts edge inv n"
  obtain ck p u where x: "x = (ck, p, u)" by (cases x)
  obtain n' out where n': "on_topology_update pf ck p u n = Ret (n', out)" "flow_wf wts edge inv n'"
    "view_of edge n' = view_topology_update u (view_of edge n)"
    by (rule on_topology_update_refines [OF pf wf])
  show "\<exists>n' out. topology_handler pf x n = Ret (n', out) \<and> flow_wf wts edge inv n' \<and>
      hm_get (fn_last_epochs n') = (hm_get (fn_last_epochs n))
        ((case x of (ck, from, u) \<Rightarrow> tu_origin_node_id u) \<mapsto> (case x of (ck, from, u) \<Rightarrow> tu_epoch u))"
    if "newer (hm_get (fn_last_epochs n)) (case x of (ck, from, u) \<Rightarrow> tu_origin_node_id u)
         (case x of (ck, from, u) \<Rightarrow> tu_epoch u)"
    using that n' arg_cong [OF n'(3), of v_epochs]
    by (simp add: x topology_handler_def view_of_def view_topology_update_def)
  show "\<exists>n'. topology_handler pf x n = Ret (n', []) \<and> flow_wf wts edge inv n' \<and>
      hm_get (fn_last_epochs n') = hm_get (fn_last_epochs n) \<and> fn_graph n' = fn_graph n"
    if "\<not> newer (hm_get (fn_last_epochs n)) (case x of (ck, from, u) \<Rightarrow> tu_origin_node_id u)
         (case x of (ck, from, u) \<Rightarrow> tu_epoch u)"
    using that wf
    by (simp add: x topology_handler_def on_topology_update_def is_fresh_newer Let_def flow_wf_def maps_wf_def)
qed

sublocale flow_platform \<subseteq> subscription_filter: epoch_gossip "subscription_handler pf"
  "\<lambda>(ck, from, u). su_node_id u" "\<lambda>(ck, from, u). su_epoch u"
  "\<lambda>n. hm_get (fn_last_subscription_epochs n)" fn_graph "flow_wf wts edge inv"
proof unfold_locales
  fix n :: "('g, 'l, 'any, 'h) FlowNode" and x :: "clock \<times> string \<times> SubscriptionUpdate"
  assume wf: "flow_wf wts edge inv n"
  obtain ck p u where x: "x = (ck, p, u)" by (cases x)
  obtain n' out where n': "on_subscription_update pf ck p u n = Ret (n', out)" "flow_wf wts edge inv n'"
    "view_of edge n' = view_subscription_update (ck_unix_ms ck) u (view_of edge n)"
    by (rule on_subscription_update_refines [OF pf wf])
  show "\<exists>n' out. subscription_handler pf x n = Ret (n', out) \<and> flow_wf wts edge inv n' \<and>
      hm_get (fn_last_subscription_epochs n') = (hm_get (fn_last_subscription_epochs n))
        ((case x of (ck, from, u) \<Rightarrow> su_node_id u) \<mapsto> (case x of (ck, from, u) \<Rightarrow> su_epoch u))"
    if "newer (hm_get (fn_last_subscription_epochs n)) (case x of (ck, from, u) \<Rightarrow> su_node_id u)
         (case x of (ck, from, u) \<Rightarrow> su_epoch u)"
    using that n' arg_cong [OF n'(3), of v_sub_epochs]
    by (simp add: x subscription_handler_def view_of_def view_subscription_update_def)
  show "\<exists>n'. subscription_handler pf x n = Ret (n', []) \<and> flow_wf wts edge inv n' \<and>
      hm_get (fn_last_subscription_epochs n') = hm_get (fn_last_subscription_epochs n) \<and> fn_graph n' = fn_graph n"
    if "\<not> newer (hm_get (fn_last_subscription_epochs n)) (case x of (ck, from, u) \<Rightarrow> su_node_id u)
         (case x of (ck, from, u) \<Rightarrow> su_epoch u)"
    using that wf
    by (simp add: x subscription_handler_def on_subscription_update_def is_fresh_newer Let_def flow_wf_def maps_wf_def)
qed

context flow_platform
begin

lemmas topology_gossip_result = topology_filter.gossip_run_result
lemmas subscription_gossip_result = subscription_filter.gossip_run_result

end

interpretation vflow: flow_platform vgraph_ops fst vg_edge vg_inv "demo_pf False"
  by unfold_locales (simp add: demo_pf_def)

section \<open>Where the epochs fall short\<close>

lemma set_fold_union:
  assumes "\<And>x s. set (f x s) = set s \<union> g x"
  shows "set (fold f xs s) = set s \<union> (\<Union>x \<in> set xs. g x)"
  by (induction xs arbitrary: s) (simp_all add: assms Un_assoc)

lemma set_subscribers_of:
  "set (subscribers_of topic md) =
     {k. \<exists>d. (k, d) \<in> set md \<and> (\<exists>cap \<in> fst ` set (nd_capabilities d). matches_capability topic cap)}"
proof -
  define P where "P d \<longleftrightarrow> (\<exists>cap \<in> fst ` set (nd_capabilities d). matches_capability topic cap)" for d :: NodeDescriptor
  define step where "step = (\<lambda>(node_id :: string, desc :: NodeDescriptor) subs.
         fold (\<lambda>(cap, _) subs. if matches_capability topic cap then hs_insert node_id subs else subs)
           (nd_capabilities desc) subs)"
  have caps: "set (fold (\<lambda>(cap, _) subs. if matches_capability topic cap then hs_insert k subs else subs) caps s) =
      set s \<union> (\<Union>c \<in> set caps. if matches_capability topic (fst c) then {k} else {})"
    for k :: string and caps :: "(string \<times> string) list" and s
    by (rule set_fold_union) (simp split: prod.split)
  have P: "(\<Union>c \<in> set (nd_capabilities d). if matches_capability topic (fst c) then {k} else {}) =
      (if P d then {k} else {})" for k :: string and d
    by (auto simp: P_def split: if_splits)
  have "set (step x s) = set s \<union> (if P (snd x) then {fst x} else {})" for x s
    unfolding step_def by (cases x) (simp only: caps P prod.case fst_conv snd_conv)
  then have "set (fold step md []) = set [] \<union> (\<Union>x \<in> set md. if P (snd x) then {fst x} else {})"
    by (rule set_fold_union)
  moreover have "(\<Union>x \<in> set md. if P (snd x) then {fst x} else {}) = {k. \<exists>d. (k, d) \<in> set md \<and> P d}"
    by (force split: if_splits)
  ultimately show ?thesis by (simp add: P_def subscribers_of_def step_def)
qed

lemma subscribers_of_get:
  "hm_wf md \<Longrightarrow> k \<in> set (subscribers_of topic md) \<longleftrightarrow>
     (\<exists>d. hm_get md k = Some d \<and> (\<exists>cap \<in> fst ` set (nd_capabilities d). matches_capability topic cap))"
  by (simp add: set_subscribers_of hm.entries_get)

lemma subscription_capabilities_keys:
  "fst ` set (subscription_capabilities es) = (\<lambda>e. ''sub:'' @ se_pattern e) ` {e \<in> set es. se_action e = SUBSCRIBE}"
proof -
  have keys: "fst ` set (hm_insert k v m) = insert k (fst ` set m)" for k :: string and v m
    by (simp add: hm_insert_def dom_update)
  have "fst ` set (fold (\<lambda>entry caps. if se_action entry = SUBSCRIBE
        then hm_insert (''sub:'' @ se_pattern entry) '''' caps else caps) es m) =
      (\<lambda>e. ''sub:'' @ se_pattern e) ` {e \<in> set es. se_action e = SUBSCRIBE} \<union> fst ` set m"
    for m :: "(string, string) hmap"
  proof (induction es arbitrary: m)
    case (Cons e es)
    have s: "{x \<in> set (e # es). se_action x = SUBSCRIBE} =
        (if se_action e = SUBSCRIBE then {e} else {}) \<union> {x \<in> set es. se_action x = SUBSCRIBE}" by auto
    show ?case unfolding s by (simp add: Cons.IH keys)
  qed simp
  then show ?thesis by (simp add: subscription_capabilities_def)
qed

lemma add_node_metadata [simp]:
  "gg_node_metadata (add_node ops gg d) = hm_insert (nd_node_id d) d (gg_node_metadata gg)"
  by (auto simp: add_node_def Let_def split: option.split prod.split)

lemma subscribe_entries_patterns [simp]:
  "se_pattern ` set (subscribe_entries subs) = set subs"
  "e \<in> set (subscribe_entries subs) \<Longrightarrow> se_action e = SUBSCRIBE"
  by (auto simp: subscribe_entries_def image_image)

lemma subscribe_entries_capabilities:
  "fst ` set (subscription_capabilities (subscribe_entries subs)) = (\<lambda>p. ''sub:'' @ p) ` set subs"
proof -
  have "{e \<in> set (subscribe_entries subs). se_action e = SUBSCRIBE} = set (subscribe_entries subs)" by auto
  then show ?thesis
    by (simp add: subscription_capabilities_keys subscribe_entries_def image_image)
qed

lemma fold_topo_add_node_meta:
  "a \<in> nd_node_id ` set ns \<Longrightarrow> t_meta (fold topo_add_node ns t) a = Some d \<Longrightarrow> d \<in> set ns \<and> nd_node_id d = a"
proof (induction ns arbitrary: t)
  case (Cons x ns)
  then show ?case
  proof (cases "a \<in> nd_node_id ` set ns")
    case False
    with Cons.prems(1) have x: "nd_node_id x = a" by auto
    have "t_meta (fold topo_add_node ns u) a = t_meta u a" for u
      using False by (induction ns arbitrary: u) (auto simp: topo_add_node_def)
    with Cons.prems(2) have "t_meta (topo_add_node x t) a = Some d" by simp
    with x show ?thesis by (auto simp: topo_add_node_def)
  qed auto
qed simp

lemma fold_topo_remove_node_meta:
  "t_meta (fold topo_remove_node ns t) a = Some d \<Longrightarrow> t_meta t a = Some d"
proof (induction ns arbitrary: t)
  case (Cons x ns)
  then have "t_meta (topo_remove_node x t) a = Some d" by simp
  then show ?case by (auto simp: topo_remove_node_def split: if_splits)
qed simp

lemma fold_topo_links_meta [simp]:
  "t_meta (fold topo_add_link ls t) = t_meta t"
  "t_meta (fold (\<lambda>r. topo_remove_link (lr_node_a r) (lr_node_b r)) rs t) = t_meta t"
  by (induction ls arbitrary: t) (auto simp: topo_add_link_def Let_def,
      induction rs arbitrary: t, auto simp: topo_remove_link_def)

lemma topo_apply_update_meta:
  assumes "a \<in> nd_node_id ` set (tu_nodes_added u)" and "t_meta (topo_apply_update u t) a = Some d"
  shows "d \<in> set (tu_nodes_added u)" "nd_node_id d = a"
  using fold_topo_add_node_meta [OF assms(1), of t d]
    fold_topo_remove_node_meta [of "tu_nodes_removed u" "fold topo_add_node (tu_nodes_added u) t" a d] assms(2)
  by (auto simp: topo_apply_update_def)

lemma on_pong_announces:
  assumes "on_pong pf ck p pong n = Ret (n', out)" and "SendControl tx (Some (CTopologyUpdate u)) \<in> set out"
  shows "tu_origin_node_id u = fn_node_id n"
    and "rust_add (pf_checks pf) (epoch_of (fn_last_epochs n) (fn_node_id n)) 1 = Ret (tu_epoch u)"
proof -
  have new: "\<not> link_exists pf (fn_graph n) (fn_node_id n) p"
  proof
    assume "link_exists pf (fn_graph n) (fn_node_id n) p"
    then have "out = []" using assms(1) by (auto simp: on_pong_def Let_def exec_bind_eq_Ret)
    with assms(2) show False by simp
  qed
  have "\<exists>e ds. rust_add (pf_checks pf) (epoch_of (fn_last_epochs n) (fn_node_id n)) 1 = Ret e \<and>
      out = broadcast_control_message (Some (CTopologyUpdate (snapshot_update (fn_node_id n) e ds))) n'"
    using assms(1) new by (auto simp: on_pong_def Let_def exec_bind_eq_Ret)
  then obtain e ds where "rust_add (pf_checks pf) (epoch_of (fn_last_epochs n) (fn_node_id n)) 1 = Ret e"
    and "out = broadcast_control_message (Some (CTopologyUpdate (snapshot_update (fn_node_id n) e ds))) n'"
    by blast
  then show "tu_origin_node_id u = fn_node_id n"
    and "rust_add (pf_checks pf) (epoch_of (fn_last_epochs n) (fn_node_id n)) 1 = Ret (tu_epoch u)"
    using assms(2) by (auto simp: broadcast_control_message_def snapshot_update_def)
qed

section \<open>Properties\<close>

text \<open>
  C8: a node handles every update of an origin at most once. Whatever topology updates and
  subscription updates arrive, in whatever order and from whichever peers, an update is applied and
  passed on only if its epoch is larger than the epochs of all updates of the same origin handled
  before, so no two forwarded updates of an origin have the same epoch; afterwards the stored epoch
  of every origin covers all its updates.
\<close>

theorem gossip_once:
  assumes "topology_graph (pf_graph pf) wts edge ginv" and "flow_wf wts edge ginv n"
  shows "(\<exists>n' outs. gossip_run (topology_handler pf) us n = Ret (n', outs) \<and> length outs = length us \<and>
      (\<forall>(ck, from, u) \<in> set us. \<exists>e. hm_get (fn_last_epochs n') (tu_origin_node_id u) = Some e \<and> tu_epoch u \<le> e) \<and>
      (\<forall>i j. i < j \<longrightarrow> j < length us \<longrightarrow>
         tu_origin_node_id (snd (snd (us ! i))) = tu_origin_node_id (snd (snd (us ! j))) \<longrightarrow> outs ! j \<noteq> [] \<longrightarrow>
         tu_epoch (snd (snd (us ! i))) < tu_epoch (snd (snd (us ! j))))) \<and>
    (\<exists>n' outs. gossip_run (subscription_handler pf) vs n = Ret (n', outs) \<and> length outs = length vs \<and>
      (\<forall>(ck, from, v) \<in> set vs. \<exists>e. hm_get (fn_last_subscription_epochs n') (su_node_id v) = Some e \<and> su_epoch v \<le> e) \<and>
      (\<forall>i j. i < j \<longrightarrow> j < length vs \<longrightarrow>
         su_node_id (snd (snd (vs ! i))) = su_node_id (snd (snd (vs ! j))) \<longrightarrow> outs ! j \<noteq> [] \<longrightarrow>
         su_epoch (snd (snd (vs ! i))) < su_epoch (snd (snd (vs ! j)))))"
  (is "(\<exists>n' outs. ?P n' outs) \<and> (\<exists>n' outs. ?Q n' outs)")
proof
  have fp: "flow_platform (pf_graph pf) wts edge ginv pf"
    by (intro flow_platform.intro flow_platform_axioms.intro assms refl)
  obtain n' outs where "?P n' outs"
    using flow_platform.topology_gossip_result [OF fp assms(2), of us]
    by (auto simp: case_prod_beta)
  then show "\<exists>n' outs. ?P n' outs" by blast
  obtain n' outs where "?Q n' outs"
    using flow_platform.subscription_gossip_result [OF fp assms(2), of vs]
    by (auto simp: case_prod_beta)
  then show "\<exists>n' outs. ?Q n' outs" by blast
qed

theorem gossip_once_witness:
  "\<exists>n' outs. gossip_run (topology_handler (demo_pf False))
      [(demo_clock, ''b'', demo_update), (demo_clock, ''c'', demo_update)] (demo_flow ''a'') = Ret (n', outs) \<and>
    outs ! 1 = []"
proof -
  have "topology_graph (pf_graph (demo_pf False)) fst vg_edge vg_inv"
    using vtopo.topology_graph_axioms by (simp add: demo_pf_def)
  from gossip_once [OF this demo_flow_wf,
      of "[(demo_clock, ''b'', demo_update), (demo_clock, ''c'', demo_update)]" "''a''" "[]"]
  obtain n' outs where "gossip_run (topology_handler (demo_pf False))
      [(demo_clock, ''b'', demo_update), (demo_clock, ''c'', demo_update)] (demo_flow ''a'') = Ret (n', outs)"
    and "\<not> outs ! 1 \<noteq> []"
    by fastforce
  then show ?thesis by blast
qed



text \<open>
  C36: a topology update can erase subscriptions. If a fresh topology update, from any node, carries a
  descriptor of a node without capabilities, as the sender may have heard of the node but not of
  its subscriptions, then afterwards the receiver counts that node as a subscriber of no topic. The
  epoch of the node's subscriptions is still stored, so hearing the same announcement again does
  not bring them back.
\<close>

theorem stale_descriptor_erases:
  assumes "topology_graph (pf_graph pf) wts edge ginv" and "flow_wf wts edge ginv n"
    and "newer (hm_get (fn_last_epochs n)) (tu_origin_node_id u) (tu_epoch u)"
    and "a \<in> nd_node_id ` set (tu_nodes_added u)"
    and "\<forall>d \<in> set (tu_nodes_added u). nd_node_id d = a \<longrightarrow> nd_capabilities d = []"
    and "su_node_id s = a" and "hm_get (fn_last_subscription_epochs n) a = Some (su_epoch s)"
  shows "\<exists>n1 out n2. on_topology_update pf ck1 from1 u n = Ret (n1, out) \<and>
    on_subscription_update pf ck2 from2 s n1 = Ret (n2, []) \<and>
    (\<forall>topic. a \<notin> set (subscribers_of topic (gg_node_metadata (fn_graph n1))) \<and>
             a \<notin> set (subscribers_of topic (gg_node_metadata (fn_graph n2))))"
proof -
  obtain n1 out where n1: "on_topology_update pf ck1 from1 u n = Ret (n1, out)" "flow_wf wts edge ginv n1"
    "view_of edge n1 = view_topology_update u (view_of edge n)"
    by (rule topology_graph.on_topology_update_refines [OF assms(1) refl assms(2)])
  have view: "topology_of edge (fn_graph n1) = topo_apply_update u (topology_of edge (fn_graph n))"
    "hm_get (fn_last_subscription_epochs n1) = hm_get (fn_last_subscription_epochs n)"
    using arg_cong [OF n1(3), of v_topology] arg_cong [OF n1(3), of v_sub_epochs] assms(3)
    by (simp_all add: view_of_def view_topology_update_def)
  have "nd_capabilities d = []" if "hm_get (gg_node_metadata (fn_graph n1)) a = Some d" for d
  proof -
    have "t_meta (topo_apply_update u (topology_of edge (fn_graph n))) a = Some d"
      using that unfolding view(1) [symmetric] by (simp add: topology_of_def)
    from topo_apply_update_meta [OF assms(4) this] show ?thesis using assms(5) by blast
  qed
  moreover have "hm_wf (gg_node_metadata (fn_graph n1))" using n1(2) by (simp add: flow_wf_def gg_wf_def)
  ultimately have none: "a \<notin> set (subscribers_of topic (gg_node_metadata (fn_graph n1)))" for topic
    by (auto simp: subscribers_of_get)
  have "on_subscription_update pf ck2 from2 s n1 =
      Ret (n1\<lparr>fn_node_last_seen := hm_insert a (ck_instant ck2 1) (fn_node_last_seen n1)\<rparr>, [])"
    using assms(6, 7) view(2) by (simp add: on_subscription_update_def is_fresh_newer newer_def)
  with n1(1) none show ?thesis by auto
qed

definition demo_subscription :: SubscriptionUpdate where
  "demo_subscription = \<lparr>su_node_id = ''s'', su_entries = subscribe_entries [''t''], su_epoch = 1\<rparr>"

theorem stale_descriptor_erases_witness:
  "\<exists>n0 n1 out n2. on_subscription_update (demo_pf False) demo_clock ''s'' demo_subscription (demo_flow ''z'') = Ret (n0, []) \<and>
     on_topology_update (demo_pf False) demo_clock ''a'' demo_update n0 = Ret (n1, out) \<and>
     on_subscription_update (demo_pf False) demo_clock ''s'' demo_subscription n1 = Ret (n2, []) \<and>
     ''s'' \<in> set (subscribers_of ''t'' (gg_node_metadata (fn_graph n0))) \<and>
     ''s'' \<notin> set (subscribers_of ''t'' (gg_node_metadata (fn_graph n1)))"
proof -
  have tg: "topology_graph (pf_graph (demo_pf False)) fst vg_edge vg_inv"
    using vtopo.topology_graph_axioms by (simp add: demo_pf_def)
  obtain n0 out0 where n0: "on_subscription_update (demo_pf False) demo_clock ''s'' demo_subscription (demo_flow ''z'') = Ret (n0, out0)"
    "flow_wf fst vg_edge vg_inv n0"
    by (rule topology_graph.on_subscription_update_refines [OF tg refl demo_flow_wf])
  have eval: "out0 = []" "fn_last_epochs n0 = []" "hm_get (fn_last_subscription_epochs n0) ''s'' = Some 1"
    "gg_node_metadata (fn_graph n0) = [(''s'', \<lparr>nd_node_id = ''s'', nd_role = 0,
       nd_capabilities = [(''sub:t'', '''')], nd_last_seen = 7\<rparr>)]"
    using n0(1)
    by (auto simp: on_subscription_update_def is_fresh_def Let_def demo_flow_def flow_new_def demo_subscription_def
        hm_contains_key_def gossip_def get_peer_writers_def subscription_capabilities_def subscribe_entries_def
        demo_clock_def gg_new_def hm_insert_def hm_get_def)
  have "''s'' \<in> set (subscribers_of ''t'' (gg_node_metadata (fn_graph n0)))"
    unfolding eval by (simp add: set_subscribers_of matches_capability_def match_topic_def match_loop_drop levels_match_def level_matches_def)
  then show ?thesis
    using stale_descriptor_erases [OF tg n0(2), of demo_update "''s''" demo_subscription demo_clock "''a''" demo_clock "''s''"] n0(1) eval
    by (auto simp: demo_update_def demo_node_def newer_def demo_subscription_def)
qed

text \<open>
  The first link a node announces is not heard by the peers it has greeted. The snapshot sent
  when a connection is made has the epoch 1, and so has the first update of a node that measures a
  new link: a peer that has handled the snapshot drops that update, without passing it on and
  without changing its graph.
\<close>

theorem first_link_update_ignored:
  assumes "topology_graph (pf_graph pf) wts edge ginv" and "flow_wf wts edge ginv b"
    and "hm_get (fn_last_epochs a) (fn_node_id a) = None"
    and "register_peer pf addr tx peer a = Ret (a1, greeting)"
    and "SendControl tx (Some (CTopologyUpdate snapshot)) \<in> set greeting"
    and "on_pong pf ck p pong (on_peer_connected peer tx a1) = Ret (a2, out)"
    and "SendControl tx' (Some (CTopologyUpdate upd)) \<in> set out"
  shows "\<exists>b1 out1 b2. on_topology_update pf ck1 from1 snapshot b = Ret (b1, out1) \<and>
    on_topology_update pf ck2 from2 upd b1 = Ret (b2, []) \<and> fn_graph b2 = fn_graph b1"
proof -
  have snap: "tu_origin_node_id snapshot = fn_node_id a" "tu_epoch snapshot = 1"
    and a1: "fn_last_epochs a1 = fn_last_epochs a" "fn_node_id a1 = fn_node_id a"
    using assms(4, 5) by (auto simp: register_peer_def Let_def exec_bind_eq_Ret snapshot_update_def)
  have upd: "tu_origin_node_id upd = fn_node_id a" "tu_epoch upd = 1"
    using on_pong_announces [OF assms(6, 7)] assms(3) a1
    by (simp_all add: on_peer_connected_def epoch_of_def rust_add_def split: if_splits)
  obtain b1 out1 where b1: "on_topology_update pf ck1 from1 snapshot b = Ret (b1, out1)"
    "view_of edge b1 = view_topology_update snapshot (view_of edge b)"
    by (rule topology_graph.on_topology_update_refines [OF assms(1) refl assms(2)])
  have "\<not> newer (hm_get (fn_last_epochs b1)) (fn_node_id a) 1"
    using arg_cong [OF b1(2), of v_epochs] snap
    by (auto simp: view_of_def view_topology_update_def newer_def split: if_splits)
  then have "on_topology_update pf ck2 from2 upd b1 =
      Ret (b1\<lparr>fn_node_last_seen := see_all ck2 2 (tu_nodes_added upd)
        (hm_insert (fn_node_id a) (ck_instant ck2 1) (fn_node_last_seen b1))\<rparr>, [])"
    using upd by (simp add: on_topology_update_def is_fresh_newer)
  with b1(1) show ?thesis by auto
qed

theorem first_link_update_ignored_witness:
  "\<exists>a1 greeting snapshot a2 out tx upd b1 out1 b2.
     register_peer (demo_pf False) ([127, 0, 0, 1], 1) 5 ''b'' (demo_flow ''a'') = Ret (a1, greeting) \<and>
     on_pong (demo_pf False) demo_clock ''b'' \<lparr>pong_ping_sent_at = 0, pong_sent_at = 0\<rparr>
       (on_peer_connected ''b'' 5 a1) = Ret (a2, out) \<and>
     SendControl tx (Some (CTopologyUpdate upd)) \<in> set out \<and>
     on_topology_update (demo_pf False) demo_clock ''a'' snapshot (demo_flow ''b'') = Ret (b1, out1) \<and>
     on_topology_update (demo_pf False) demo_clock ''a'' upd b1 = Ret (b2, [])"
proof -
  have tg: "topology_graph (pf_graph (demo_pf False)) fst vg_edge vg_inv"
    using vtopo.topology_graph_axioms by (simp add: demo_pf_def)
  obtain a1 greeting snapshot where a1: "register_peer (demo_pf False) ([127, 0, 0, 1], 1) 5 ''b'' (demo_flow ''a'') = Ret (a1, greeting)"
    "SendControl 5 (Some (CTopologyUpdate snapshot)) \<in> set greeting"
    "a1 = (demo_flow ''a'')\<lparr>fn_peer_addresses := [(''b'', ([127, 0, 0, 1], 1), ''b'')]\<rparr>"
    by (auto simp: register_peer_def demo_flow_def flow_new_def demo_pf_def evals)
  obtain a2 out upd where out: "on_pong (demo_pf False) demo_clock ''b'' \<lparr>pong_ping_sent_at = 0, pong_sent_at = 0\<rparr>
       (on_peer_connected ''b'' 5 a1) = Ret (a2, out)" "SendControl 5 (Some (CTopologyUpdate upd)) \<in> set out"
    by (auto simp: a1(3) on_pong_def on_peer_connected_def demo_flow_def flow_new_def demo_pf_def link_exists_def
        saturating_sub_def broadcast_control_message_def get_peer_writers_def evals)
  show ?thesis
    using first_link_update_ignored [OF tg demo_flow_wf _ a1(1, 2) out, where ?ck1.0 = demo_clock and ?ck2.0 = demo_clock
        and ?from1.0 = "''a''" and ?from2.0 = "''a''"] a1(1) out
    by (fastforce simp: demo_flow_def flow_new_def)
qed

end
