(* ===== verification/Sessions.thy ===== *)
theory Sessions
  imports Gossip "HOL-Library.Product_Lexorder" "HOL-Library.Multiset"
begin

text \<open>
  Shared sessions across nodes: how creation, closing and state changes made at one node arrive at
  another, when the states of two nodes converge and when they do not, and what garbage collection
  does to the sessions of the node that runs it.
\<close>

section \<open>Last writer wins\<close>

definition stamp_of :: "SessionStateSync \<Rightarrow> u64 \<times> u64" where
  "stamp_of m = (ss_timestamp m, ss_version m)"

definition session_stamp :: "Session \<Rightarrow> u64 \<times> u64" where
  "session_stamp s = (ses_state_timestamp s, ses_state_version s)"

definition adopt :: "SessionStateSync \<Rightarrow> Session \<Rightarrow> Session" where
  "adopt m s = (if session_stamp s < stamp_of m
     then s\<lparr>ses_state_data := ss_data m, ses_state_version := ss_version m, ses_state_timestamp := ss_timestamp m\<rparr>
     else s)"

lemma merge_state_lww:
  "merge_state checks None m s = Ret (if session_stamp s < stamp_of m then Some (adopt m s) else None)"
  by (auto simp: merge_state_def adopt_def session_stamp_def stamp_of_def less_prod_def')

text \<open>The part of a session that synchronisation changes.\<close>

definition state_of :: "Session \<Rightarrow> (u64 \<times> u64) \<times> bytes" where
  "state_of s = (session_stamp s, ses_state_data s)"

definition adopt_state :: "SessionStateSync \<Rightarrow> (u64 \<times> u64) \<times> bytes \<Rightarrow> (u64 \<times> u64) \<times> bytes" where
  "adopt_state m st = (if fst st < stamp_of m then (stamp_of m, ss_data m) else st)"

lemma state_of_adopt [simp]: "state_of (adopt m s) = adopt_state m (state_of s)"
  by (simp add: adopt_def adopt_state_def state_of_def session_stamp_def stamp_of_def)

lemma fold_adopt_stamp: "fst (fold adopt_state ms st) = Max (insert (fst st) (stamp_of ` set ms))"
proof (induction ms arbitrary: st)
  case (Cons m ms)
  have "fst (adopt_state m st) = max (fst st) (stamp_of m)"
    by (auto simp: adopt_state_def max_def)
  then show ?case
    by (cases "ms = []") (simp_all add: Cons.IH max.assoc Max_insert)
qed simp

text \<open>The result of a sequence of messages: the state they started from, or that of the newest message.\<close>

lemma fold_adopt_cases:
  "(fold adopt_state ms st = st \<and> (\<forall>m \<in> set ms. stamp_of m \<le> fst st)) \<or>
   (\<exists>m \<in> set ms. fold adopt_state ms st = (stamp_of m, ss_data m) \<and> fst st < stamp_of m \<and>
      (\<forall>m' \<in> set ms. stamp_of m' \<le> stamp_of m))"
proof (induction ms arbitrary: st)
  case (Cons m ms)
  show ?case
  proof (cases "fst st < stamp_of m")
    case True
    then have "adopt_state m st = (stamp_of m, ss_data m)" by (simp add: adopt_state_def)
    then show ?thesis using Cons.IH [of "(stamp_of m, ss_data m)"] True by fastforce
  next
    case False
    then have "adopt_state m st = st" by (simp add: adopt_state_def)
    then show ?thesis using Cons.IH [of st] False by fastforce
  qed
qed simp

lemma fold_adopt_set:
  assumes "set ms' = set ms" and inj: "inj_on stamp_of (set ms)"
  shows "fold adopt_state ms' st = fold adopt_state ms st"
  using fold_adopt_cases [of ms st] fold_adopt_cases [of ms' st]
proof (elim disjE bexE conjE)
  fix m m'
  assume m: "m \<in> set ms" "fold adopt_state ms st = (stamp_of m, ss_data m)"
      "\<forall>k \<in> set ms. stamp_of k \<le> stamp_of m"
    and m': "m' \<in> set ms'" "fold adopt_state ms' st = (stamp_of m', ss_data m')"
      "\<forall>k \<in> set ms'. stamp_of k \<le> stamp_of m'"
  have "stamp_of m' = stamp_of m" using m m' assms(1) by (simp add: order_antisym)
  then have "m' = m" using m(1) m'(1) assms by (auto dest: inj_onD)
  then show ?thesis using m m' by simp
qed (use assms(1) in \<open>force simp: not_less [symmetric]\<close>)+

definition sync_handler ::
  "('g, 'l) platform \<Rightarrow> string \<times> SessionStateSync \<Rightarrow> ('g, 'l, 'any, 'h) FlowNode \<Rightarrow> ('g, 'l, 'any, 'h) outcome"
where
  "sync_handler pf = (\<lambda>(from, m). on_state_sync pf from m)"

lemma sync_step:
  assumes "hm_get (fn_sessions n) sid = Some s" and "hm_get (fn_merge_fns n) sid = None" and "ss_session_id m = sid"
  shows "\<exists>n' out. on_state_sync pf from m n = Ret (n', out) \<and> hm_get (fn_sessions n') sid = Some (adopt m s) \<and>
    fn_merge_fns n' = fn_merge_fns n"
  using assms by (cases "session_stamp s < stamp_of m")
    (simp_all add: on_state_sync_def merge_state_lww adopt_def Let_def)

lemma sync_run:
  assumes "hm_get (fn_sessions n) sid = Some s" and "hm_get (fn_merge_fns n) sid = None"
    and "\<forall>x \<in> set xs. ss_session_id (snd x) = sid"
  shows "\<exists>n' outs s'. gossip_run (sync_handler pf) xs n = Ret (n', outs) \<and> hm_get (fn_sessions n') sid = Some s' \<and>
    state_of s' = fold adopt_state (map snd xs) (state_of s)"
  using assms
proof (induction xs arbitrary: n s)
  case (Cons x xs)
  obtain p m where x: "x = (p, m)" by fastforce
  obtain n1 out where n1: "on_state_sync pf p m n = Ret (n1, out)" "hm_get (fn_sessions n1) sid = Some (adopt m s)"
    "fn_merge_fns n1 = fn_merge_fns n"
    using sync_step [OF Cons.prems(1, 2)] Cons.prems(3) x by fastforce
  obtain n' outs s' where "gossip_run (sync_handler pf) xs n1 = Ret (n', outs)" "hm_get (fn_sessions n') sid = Some s'"
    "state_of s' = fold adopt_state (map snd xs) (state_of (adopt m s))"
    using Cons.IH [OF n1(2)] n1(3) Cons.prems(2, 3) by auto
  then show ?case using n1(1) by (simp add: x sync_handler_def)
qed simp

section \<open>Properties\<close>


definition demo_host :: "string \<Rightarrow> ((string, LinkWeight) vgraph, unit, bytes, nat) FlowNode" where
  "demo_host a = fst (create_session 0 0 ''s'' [] [] (demo_flow a))"

definition demo_sync :: "u64 \<Rightarrow> u64 \<Rightarrow> bytes \<Rightarrow> SessionStateSync" where
  "demo_sync t v d = \<lparr>ss_session_id = ''s'', ss_sender = ''x'', ss_mode = 0, ss_timestamp = t, ss_version = v,
     ss_data = d, ss_codec = CODEC_RAW\<rparr>"

lemma demo_host_session:
  "\<exists>s. hm_get (fn_sessions (demo_host a)) ''s'' = Some s \<and> state_of s = ((0, 0), []) \<and> session_stamp s = (0, 0)"
  "hm_get (fn_merge_fns (demo_host a)) ''s'' = None"
  by (simp_all add: demo_host_def create_session_def demo_flow_def flow_new_def Let_def state_of_def session_stamp_def)


text \<open>
  Two messages with the same timestamp and version make nodes disagree for good. A node keeps the
  one that arrives first, so two nodes that receive them in different orders end up with different
  data, and neither accepts the other's state afterwards.
\<close>

theorem equal_stamps_diverge:
  assumes "hm_get (fn_sessions n1) sid = Some s1" and "hm_get (fn_sessions n2) sid = Some s2"
    and "hm_get (fn_merge_fns n1) sid = None" and "hm_get (fn_merge_fns n2) sid = None"
    and "ss_session_id m = sid" and "ss_session_id m' = sid"
    and "session_stamp s1 < stamp_of m" and "session_stamp s2 < stamp_of m"
    and "stamp_of m' = stamp_of m" and "ss_data m' \<noteq> ss_data m"
  shows "\<exists>n1' o1 n2' o2.
    gossip_run (sync_handler pf) [(p, m), (q, m')] n1 = Ret (n1', o1) \<and>
    gossip_run (sync_handler pf) [(q, m'), (p, m)] n2 = Ret (n2', o2) \<and>
    get_session_state sid n1' = Some (ss_data m) \<and> get_session_state sid n2' = Some (ss_data m')"
proof -
  obtain n1' o1 s1' where r1: "gossip_run (sync_handler pf) [(p, m), (q, m')] n1 = Ret (n1', o1)"
    "hm_get (fn_sessions n1') sid = Some s1'" "state_of s1' = fold adopt_state [m, m'] (state_of s1)"
    using sync_run [OF assms(1, 3), of "[(p, m), (q, m')]" pf] assms(5, 6) by auto
  obtain n2' o2 s2' where r2: "gossip_run (sync_handler pf) [(q, m'), (p, m)] n2 = Ret (n2', o2)"
    "hm_get (fn_sessions n2') sid = Some s2'" "state_of s2' = fold adopt_state [m', m] (state_of s2)"
    using sync_run [OF assms(2, 4), of "[(q, m'), (p, m)]" pf] assms(5, 6) by auto
  have "ses_state_data s1' = ss_data m" "ses_state_data s2' = ss_data m'"
    using r1(3) r2(3) assms(7-9) by (simp_all add: adopt_state_def state_of_def)
  then show ?thesis using r1 r2 by (simp add: get_session_state_def)
qed

theorem equal_stamps_diverge_witness:
  "\<exists>n1' o1 n2' o2.
    gossip_run (sync_handler (demo_pf False)) [(''p'', demo_sync 1 1 [1]), (''q'', demo_sync 1 1 [2])] (demo_host ''a'') = Ret (n1', o1) \<and>
    gossip_run (sync_handler (demo_pf False)) [(''q'', demo_sync 1 1 [2]), (''p'', demo_sync 1 1 [1])] (demo_host ''b'') = Ret (n2', o2) \<and>
    get_session_state ''s'' n1' = Some [1] \<and> get_session_state ''s'' n2' = Some [2]"
proof -
  obtain s1 s2 where "hm_get (fn_sessions (demo_host ''a'')) ''s'' = Some s1" "hm_get (fn_sessions (demo_host ''b'')) ''s'' = Some s2"
    "session_stamp s1 = (0, 0)" "session_stamp s2 = (0, 0)"
    using demo_host_session(1) [of "''a''"] demo_host_session(1) [of "''b''"] by auto
  with equal_stamps_diverge [OF this(1, 2) demo_host_session(2) demo_host_session(2),
      of "demo_sync 1 1 [1]" "demo_sync 1 1 [2]" "demo_pf False" "''p''" "''q''"]
  show ?thesis by (simp add: demo_sync_def stamp_of_def)
qed





text \<open>
  A session created at one node exists at its peer once the message has arrived, with the same
  creator, flows and metadata and an empty state, and with the creation time of the message, which
  need not be the creator's; after it is closed at the creator and the message has arrived, both
  nodes have forgotten it and the peer's other sessions are as before.
\<close>

theorem session_lifecycle:
  assumes "\<not> hm_contains_key (fn_sessions b) sid" and "hm_get (fn_peer_writers a) (fn_node_id b) = Some tx"
  shows "\<exists>a1 out1 create b1 o1 s a2 out2 close b2 o2.
    create_session t1 t2 sid flows meta a = (a1, out1) \<and>
    SendControl tx (Some (CSessionControl (Some (SCreate create)))) \<in> set out1 \<and>
    on_session_create (fn_node_id a) create b = (b1, o1) \<and>
    hm_get (fn_sessions a1) sid = Some s \<and> hm_get (fn_sessions b1) sid = Some (s\<lparr>ses_created_at := t2\<rparr>) \<and>
    ses_creator_node s = fn_node_id a \<and> state_of s = ((0, 0), []) \<and>
    close_session sid reason a1 = (Inr (), a2, out2) \<and>
    SendControl tx (Some (CSessionControl (Some (SClose close)))) \<in> set out2 \<and>
    on_session_close (fn_node_id a) close b1 = (b2, o2) \<and>
    hm_get (fn_sessions a2) sid = None \<and> hm_get (fn_sessions b2) = hm_get (fn_sessions b)"
proof -
  define create where "create = \<lparr>sc_session_id = sid, sc_creator_node = fn_node_id a, sc_flow_ids = flows,
     sc_created_at = t2, sc_metadata = meta\<rparr>"
  define close where "close = \<lparr>cl_session_id = sid, cl_closed_by = fn_node_id a, cl_reason = reason\<rparr>"
  define s where "s = \<lparr>ses_session_id = sid, ses_creator_node = fn_node_id a, ses_flow_ids = flows, ses_created_at = t1,
     ses_metadata = meta, ses_state_data = [], ses_state_version = 0, ses_state_timestamp = 0\<rparr>"
  define a1 where "a1 = a\<lparr>fn_sessions := hm_insert sid s (fn_sessions a)\<rparr>"
  define b1 where "b1 = b\<lparr>fn_sessions := hm_insert sid (s\<lparr>ses_created_at := t2\<rparr>) (fn_sessions b)\<rparr>"
  have peer: "(fn_node_id b, tx) \<in> set (fn_peer_writers a)"
    using assms(2) by (rule hm_get_in)
  have c1: "create_session t1 t2 sid flows meta a = (a1, map (\<lambda>(_, tx). SendControl tx
      (Some (CSessionControl (Some (SCreate create))))) (fn_peer_writers a))"
    by (simp add: create_session_def create_def s_def a1_def broadcast_control_message_def get_peer_writers_def)
  obtain o1 where c2: "on_session_create (fn_node_id a) create b = (b1, o1)"
    using assms(1) by (simp add: on_session_create_def create_def b1_def s_def Let_def)
  obtain a2 where c3: "close_session sid reason a1 = (Inr (), a2, map (\<lambda>(_, tx). SendControl tx
      (Some (CSessionControl (Some (SClose close))))) (fn_peer_writers a))" "hm_get (fn_sessions a2) sid = None"
    by (simp add: close_session_def close_def a1_def broadcast_control_message_def get_peer_writers_def Let_def)
  obtain b2 o2 where c4: "on_session_close (fn_node_id a) close b1 = (b2, o2)"
    "hm_get (fn_sessions b2) = (hm_get (fn_sessions b))(sid := None)"
    by (simp add: on_session_close_def close_def b1_def Let_def)
  moreover have "(hm_get (fn_sessions b))(sid := None) = hm_get (fn_sessions b)"
    using assms(1) by (auto simp: hm_contains_key_def)
  moreover have "SendControl tx (Some (CSessionControl (Some (SCreate create)))) \<in> set (map (\<lambda>(_, tx). SendControl tx
      (Some (CSessionControl (Some (SCreate create))))) (fn_peer_writers a))"
    "SendControl tx (Some (CSessionControl (Some (SClose close)))) \<in> set (map (\<lambda>(_, tx). SendControl tx
      (Some (CSessionControl (Some (SClose close))))) (fn_peer_writers a))"
    using peer by force+
  moreover have "hm_get (fn_sessions a1) sid = Some s" "hm_get (fn_sessions b1) sid = Some (s\<lparr>ses_created_at := t2\<rparr>)"
    "ses_creator_node s = fn_node_id a" "state_of s = ((0, 0), [])"
    by (simp_all add: a1_def b1_def s_def state_of_def session_stamp_def)
  ultimately show ?thesis using c1 c2 c3 by metis
qed

theorem session_lifecycle_witness:
  "\<exists>a1 out1 create b1 o1. create_session 1 2 ''k'' [] [] (on_peer_connected ''b'' 4 (demo_flow ''a'')) = (a1, out1) \<and>
    SendControl 4 (Some (CSessionControl (Some (SCreate create)))) \<in> set out1 \<and>
    on_session_create ''a'' create (demo_flow ''b'') = (b1, o1) \<and> hm_get (fn_sessions b1) ''k'' \<noteq> None"
proof -
  have ids: "fn_node_id (on_peer_connected ''b'' 4 (demo_flow ''a'')) = ''a''"
    by (simp add: on_peer_connected_def demo_flow_def flow_new_def)
  show ?thesis
    using session_lifecycle [of "demo_flow ''b''" "''k''" "on_peer_connected ''b'' 4 (demo_flow ''a'')" 4 1 2 "[]" "[]" "[]"]
    unfolding ids
    by (fastforce simp: on_peer_connected_def demo_flow_def flow_new_def hm_contains_key_def)
qed

text \<open>
  One message with the largest version breaks a session that has a merge function. If the merge
  succeeds, a build with overflow checks panics, which ends the control loop of the receiving node;
  a release build stores the merged data under version 0.
\<close>

theorem largest_version_overflows:
  assumes "hm_get (fn_sessions n) sid = Some s" and "hm_get (fn_merge_fns n) sid = Some f"
    and "ss_session_id m = sid" and "ss_version m = - 1" and "f (ses_state_data s) (ss_data m) = Inr d"
  shows "(pf_checks pf \<longrightarrow> handle_event pf ck (ControlMsgReceived p (Some (CSessionControl (Some (SStateSync m))))) n = Panic) \<and>
    (\<not> pf_checks pf \<longrightarrow> (\<exists>n' out s'.
       handle_event pf ck (ControlMsgReceived p (Some (CSessionControl (Some (SStateSync m))))) n = Ret (n', out) \<and>
       hm_get (fn_sessions n') sid = Some s' \<and> ses_state_version s' = 0 \<and> ses_state_data s' = d))"
proof -
  have top: "max v (- 1 :: u64) = - 1" for v by (simp add: max_def word_order.extremum_unique)
  have "overflows (- 1 :: u64) 1" by (simp add: overflows_def unsigned_minus_1_eq_mask mask_eq_exp_minus_1)
  then show ?thesis
    using assms
    by (simp add: handle_event_def on_control_message_def on_session_message_def on_state_sync_def merge_state_def
        rust_add_def top Let_def)
qed

theorem largest_version_overflows_witness:
  "handle_event (demo_pf True) demo_clock (ControlMsgReceived ''x''
     (Some (CSessionControl (Some (SStateSync (demo_sync 0 (- 1) []))))))
     (register_merge_fn ''s'' (\<lambda>x y. Inr (x @ y)) (demo_host ''a'')) = Panic"
proof -
  obtain s where "hm_get (fn_sessions (register_merge_fn ''s'' (\<lambda>x y. Inr (x @ y)) (demo_host ''a''))) ''s'' = Some s"
    using demo_host_session(1) [of "''a''"] by (auto simp: register_merge_fn_def)
  from largest_version_overflows [OF this, of "\<lambda>x y. Inr (x @ y)" "demo_sync 0 (- 1) []" _ "demo_pf True" demo_clock "''x''"]
  show ?thesis by (simp add: register_merge_fn_def demo_sync_def demo_pf_def)
qed

end
