(* ===== verification/Mesh.thy ===== *)
theory Mesh
  imports Sessions
begin

text \<open>
  Several nodes together. The first part follows one published message through the mesh: the
  envelopes in flight, the nodes that have received it, any order of arrivals. The second part
  follows the control messages that nodes pass on without remembering them.
\<close>

section \<open>Data messages\<close>

text \<open>
  \<open>nodes u\<close> is the node named \<open>u\<close>, \<open>link u c\<close> the node at the other end of its connection \<open>c\<close>. An
  envelope handed to a connection arrives there.
\<close>

definition arrivals ::
  "(string \<Rightarrow> conn \<Rightarrow> string) \<Rightarrow> string \<Rightarrow> ('any, 'h) effect list \<Rightarrow> (string \<times> Envelope) list"
where
  "arrivals link u effects =
     concat (map (\<lambda>e. case e of SpawnForward c flow env \<Rightarrow> [(link u c, env)] | _ \<Rightarrow> []) effects)"

definition handled :: "('any, 'h) effect list \<Rightarrow> ('any, 'h) effect list" where
  "handled effects = filter (\<lambda>e. case e of HandleMessage _ _ _ _ \<Rightarrow> True | _ \<Rightarrow> False) effects"

type_synonym ('any, 'h) data_state = "(string \<times> Envelope) list \<times> (string \<times> ('any, 'h) effect list) list"

inductive data_step ::
  "(string \<Rightarrow> ('g, 'l, 'any, 'h) FlowNode) \<Rightarrow> (string \<Rightarrow> conn \<Rightarrow> string) \<Rightarrow>
   ('any, 'h) data_state \<Rightarrow> ('any, 'h) data_state \<Rightarrow> bool"
  for nodes :: "string \<Rightarrow> ('g, 'l, 'any, 'h) FlowNode" and link :: "string \<Rightarrow> conn \<Rightarrow> string"
where
  arrive: "data_step nodes link (xs @ (u, env) # ys, trace)
     (xs @ ys @ arrivals link u (on_envelope env (nodes u)), trace @ [(u, handled (on_envelope env (nodes u)))])"

inductive_cases data_stepE: "data_step nodes link s s'"

abbreviation data_run ::
  "(string \<Rightarrow> ('g, 'l, 'any, 'h) FlowNode) \<Rightarrow> (string \<Rightarrow> conn \<Rightarrow> string) \<Rightarrow>
   ('any, 'h) data_state \<Rightarrow> ('any, 'h) data_state \<Rightarrow> bool"
where
  "data_run nodes link \<equiv> (data_step nodes link)\<^sup>*\<^sup>*"

text \<open>Relaying along a tree of children lists, in the abstract.\<close>

definition relay_inv :: "(string \<Rightarrow> string list) \<Rightarrow> string \<Rightarrow> string list \<Rightarrow> string list \<Rightarrow> bool" where
  "relay_inv ch s us trace \<longleftrightarrow> distinct (trace @ us) \<and> s \<notin> set (trace @ us) \<and>
     set trace \<union> set us = (\<Union>v \<in> insert s (set trace). set (ch v)) \<and>
     set trace \<union> set us \<subseteq> {(p, c). c \<in> set (ch p)}\<^sup>+ `` {s}"

locale relay_tree =
  fixes ch :: "string \<Rightarrow> string list" and s :: string
  assumes distinct_children: "distinct (ch v)"
    and one_parent: "c \<in> set (ch p) \<Longrightarrow> c \<in> set (ch p') \<Longrightarrow> p = p'"
    and root: "s \<notin> set (ch v)"
begin

abbreviation edges :: "(string \<times> string) set" where
  "edges \<equiv> {(p, c). c \<in> set (ch p)}"

lemma relay_start: "relay_inv ch s (ch s) []"
  using distinct_children root by (auto simp: relay_inv_def)

lemma relay_step:
  assumes inv: "relay_inv ch s (xs @ u # ys) trace"
  shows "relay_inv ch s (xs @ ys @ ch u) (trace @ [u])"
proof -
  have d: "distinct (trace @ xs @ u # ys)" and s: "s \<notin> set (trace @ xs @ u # ys)"
    and kids: "set trace \<union> set (xs @ u # ys) = (\<Union>v \<in> insert s (set trace). set (ch v))"
    and reach: "set trace \<union> set (xs @ u # ys) \<subseteq> edges\<^sup>+ `` {s}"
    using inv unfolding relay_inv_def by blast+
  have u: "u \<notin> insert s (set trace)" using d s by auto
  have new: "c \<notin> set trace \<union> set (xs @ u # ys)" if "c \<in> set (ch u)" for c
    using kids one_parent [OF that] u by auto
  have "distinct (trace @ [u] @ xs @ ys @ ch u)"
    using d new distinct_children by auto
  moreover have "s \<notin> set (trace @ [u] @ xs @ ys @ ch u)" using s root by auto
  moreover have "set (trace @ [u]) \<union> set (xs @ ys @ ch u) = (\<Union>v \<in> insert s (set (trace @ [u])). set (ch v))"
    using kids by auto
  moreover have "set (trace @ [u]) \<union> set (xs @ ys @ ch u) \<subseteq> edges\<^sup>+ `` {s}"
    using reach by (auto intro: trancl_into_trancl)
  ultimately show ?thesis unfolding relay_inv_def by (metis append.assoc)
qed

lemma relay_end:
  assumes "relay_inv ch s [] trace"
  shows "distinct trace" and "set trace = edges\<^sup>+ `` {s}"
proof -
  have trace: "set trace = (\<Union>v \<in> insert s (set trace). set (ch v))" "set trace \<subseteq> edges\<^sup>+ `` {s}"
    using assms by (simp_all add: relay_inv_def)
  show "distinct trace" using assms by (simp add: relay_inv_def)
  have "v \<in> set trace" if "(s, v) \<in> edges\<^sup>+" for v
    using that by induction (use trace(1) in auto)
  then show "set trace = edges\<^sup>+ `` {s}" using trace(2) by blast
qed

text \<open>The number of arrivals is bounded, and while something is in flight there is a step.\<close>

lemma relay_bound:
  assumes "relay_inv ch s us trace" and "finite (edges\<^sup>+ `` {s})"
  shows "length trace + length us \<le> card (edges\<^sup>+ `` {s})"
proof -
  have "length trace + length us = card (set (trace @ us))"
    using assms(1) by (metis distinct_card length_append relay_inv_def)
  also have "\<dots> \<le> card (edges\<^sup>+ `` {s})"
    by (rule card_mono [OF assms(2)]) (use assms(1) in \<open>auto simp: relay_inv_def\<close>)
  finally show ?thesis .
qed

end

text \<open>The targets a forwarding table names for a node.\<close>

definition targets_of :: "(string, ForwardingTargets) hmap \<Rightarrow> string \<Rightarrow> string list" where
  "targets_of t u = (case hm_get t u of Some ts \<Rightarrow> ts | None \<Rightarrow> [])"

lemma tree_edges_targets: "tree_edges t = {(p, c). c \<in> set (targets_of t p)}"
proof -
  have "b \<in> set (targets_of t a) \<longleftrightarrow> (\<exists>ts. hm_get t a = Some ts \<and> b \<in> set ts)" for a b
    by (cases "hm_get t a") (simp_all add: targets_of_def)
  then show ?thesis by (simp add: tree_edges_def)
qed

text \<open>A mesh in which every link of the topology is a connection that leads to the named node.\<close>

definition wired ::
  "(string \<Rightarrow> ('g, 'l, 'any, 'h) FlowNode) \<Rightarrow> (string \<Rightarrow> conn \<Rightarrow> string) \<Rightarrow> topology \<Rightarrow> bool"
where
  "wired nodes link topo \<longleftrightarrow> (\<forall>u. fn_node_id (nodes u) = u) \<and>
     (\<forall>u v. t_link topo u v \<noteq> None \<longrightarrow> (\<exists>c. find_conn v (nodes u) = Some c \<and> link u c = v))"

lemma arrivals_append [simp]: "arrivals link u (xs @ ys) = arrivals link u xs @ arrivals link u ys"
  by (simp add: arrivals_def)

lemma arrivals_Nil [simp]: "arrivals link u [] = []"
  by (simp add: arrivals_def)

lemma arrivals_deliver [simp]: "arrivals link u (deliver_local f tp mt pl n) = []"
  by (auto simp: arrivals_def deliver_local_def split: sum.split option.split)

lemma arrivals_forward_all:
  assumes "\<forall>v \<in> set ts. \<exists>c. find_conn v n = Some c \<and> link u c = v"
  shows "arrivals link u (forward_all flow env ts n) = map (\<lambda>v. (v, env)) ts"
  using assms
proof (induction ts)
  case (Cons v ts)
  then obtain c where "find_conn v n = Some c" "link u c = v" by auto
  with Cons show ?case by (simp add: forward_all_def arrivals_def)
qed (simp add: forward_all_def arrivals_def)

lemma handled_Nil [simp]: "handled [] = []"
  by (simp add: handled_def)

lemma handled_append [simp]: "handled (xs @ ys) = handled xs @ handled ys"
  by (simp add: handled_def)

lemma handled_deliver [simp]: "handled (deliver_local f tp mt pl n) = deliver_local f tp mt pl n"
  by (simp add: handled_def deliver_local_def split: sum.split option.split)

lemma handled_forward_all [simp]: "handled (forward_all f env ts n) = []"
  by (auto simp: handled_def forward_all_def filter_concat split: option.split)

lemma handled_on_envelope:
  assumes "env_header env = Some h"
  shows "handled (on_envelope env n) =
    deliver_local (rh_flow_id h) (rh_topic_id h) (env_message_type env) (env_payload env) n"
  using assms by (simp add: on_envelope_def split: option.split)

lemma arrivals_on_envelope:
  assumes "env_header env = Some h" and "fn_node_id n = u"
    and "\<forall>v \<in> set (targets_of (rh_forwarding_table h) u). \<exists>c. find_conn v n = Some c \<and> link u c = v"
  shows "arrivals link u (on_envelope env n) = map (\<lambda>v. (v, env)) (targets_of (rh_forwarding_table h) u)"
  using assms arrivals_forward_all [of _ n link u]
  by (cases "hm_get (rh_forwarding_table h) u") (simp_all add: on_envelope_def targets_of_def)

definition flight_of :: "Envelope \<Rightarrow> string list \<Rightarrow> (string \<times> Envelope) list" where
  "flight_of env us = map (\<lambda>u. (u, env)) us"

text \<open>Every state of the mesh on the way of one envelope is a state of the relay.\<close>

definition data_inv ::
  "(string \<Rightarrow> ('g, 'l, 'any, 'h) FlowNode) \<Rightarrow> Envelope \<Rightarrow> (string \<Rightarrow> string list) \<Rightarrow> string \<Rightarrow>
   ('any, 'h) data_state \<Rightarrow> bool"
where
  "data_inv nodes env ch s st \<longleftrightarrow> (\<exists>us. fst st = flight_of env us \<and> relay_inv ch s us (map fst (snd st))) \<and>
     (\<forall>(u, hs) \<in> set (snd st). hs = handled (on_envelope env (nodes u)))"

lemma flight_of_split:
  assumes "flight_of env us = xs @ (u, e) # ys"
  obtains us1 us2 where "us = us1 @ u # us2" "e = env" "xs = flight_of env us1" "ys = flight_of env us2"
  using assms by (auto simp: flight_of_def map_eq_append_conv Cons_eq_map_conv map_eq_Cons_conv)

context relay_tree
begin

lemma data_inv_step:
  assumes "\<forall>u. arrivals link u (on_envelope env (nodes u)) = flight_of env (ch u)"
    and "data_step nodes link st st'" and "data_inv nodes env ch s st"
  shows "data_inv nodes env ch s st' \<and> length (snd st') = Suc (length (snd st))"
  using assms(2)
proof cases
  case (arrive xs u e ys trace)
  obtain us where us: "xs @ (u, e) # ys = flight_of env us" "relay_inv ch s us (map fst trace)"
    and hs: "\<forall>(u, hs) \<in> set trace. hs = handled (on_envelope env (nodes u))"
    using assms(3) arrive(1) by (auto simp: data_inv_def)
  obtain us1 us2 where split: "us = us1 @ u # us2" "e = env" "xs = flight_of env us1" "ys = flight_of env us2"
    by (rule flight_of_split [OF us(1) [symmetric]])
  have "relay_inv ch s (us1 @ us2 @ ch u) (map fst trace @ [u])"
    using us(2) relay_step unfolding split(1) by blast
  moreover have "fst st' = flight_of env (us1 @ us2 @ ch u)"
    using assms(1) arrive(2) by (simp add: split flight_of_def)
  ultimately show ?thesis
    using hs arrive unfolding data_inv_def split(2) by auto
qed

lemma data_inv_run:
  assumes "\<forall>u. arrivals link u (on_envelope env (nodes u)) = flight_of env (ch u)"
    and "data_run nodes link st st'" and "data_inv nodes env ch s st"
  shows "data_inv nodes env ch s st'"
  using assms(2, 3) by induction (use data_inv_step [OF assms(1)] in blast)+

lemma data_run_completes:
  assumes "\<forall>u. arrivals link u (on_envelope env (nodes u)) = flight_of env (ch u)"
    and "finite (edges\<^sup>+ `` {s})" and "data_inv nodes env ch s st"
  shows "\<exists>trace. data_run nodes link st ([], trace)"
  using assms(3)
proof (induction "card (edges\<^sup>+ `` {s}) - length (snd st)" arbitrary: st rule: less_induct)
  case less
  obtain us where us: "fst st = flight_of env us" "relay_inv ch s us (map fst (snd st))"
    using less.prems by (auto simp: data_inv_def)
  show ?case
  proof (cases us)
    case Nil
    then have "st = ([], snd st)" using us(1) by (cases st) (simp add: flight_of_def)
    then show ?thesis by (metis rtranclp.rtrancl_refl)
  next
    case (Cons u us')
    define st' where "st' = ([] @ flight_of env us' @ arrivals link u (on_envelope env (nodes u)),
       snd st @ [(u, handled (on_envelope env (nodes u)))])"
    have "st = ([] @ (u, env) # flight_of env us', snd st)"
      using us(1) Cons by (cases st) (simp add: flight_of_def)
    then have step: "data_step nodes link st st'"
      unfolding st'_def by (metis data_step.arrive)
    have "length (snd st) < card (edges\<^sup>+ `` {s})"
      using relay_bound [OF us(2) assms(2)] Cons by simp
    with data_inv_step [OF assms(1) step less.prems] less.hyps [of st']
    obtain trace where "data_run nodes link st' ([], trace)" by fastforce
    with step show ?thesis by (meson converse_rtranclp_into_rtranclp)
  qed
qed

end

section \<open>One message on its way through the mesh\<close>

text \<open>The table of a publication, and the tree it spans.\<close>

definition table_of ::
  "bool \<Rightarrow> ('g, string, LinkWeight) digraph_ops \<Rightarrow> 'g GlobalGraph \<Rightarrow> string \<Rightarrow> string list \<Rightarrow>
   (string, ForwardingTargets) hmap"
where
  "table_of checks ops gg source subs =
     (case compute_forwarding_table checks ops gg source subs of Some (Ret t) \<Rightarrow> t | _ \<Rightarrow> [])"

locale publication = topology_graph ops wts edge inv
  for ops :: "('g, string, LinkWeight) digraph_ops" and wts :: "'g \<Rightarrow> string list"
    and edge :: "'g \<Rightarrow> nat \<Rightarrow> nat \<Rightarrow> LinkWeight option" and inv :: "'g \<Rightarrow> bool" +
  fixes checks :: bool and gg :: "'g GlobalGraph" and source :: string and subs :: "string list"
  assumes graph_wf: "gg_wf wts edge inv gg"
    and costs_fit: "fits_u32 (mesh_cost (topology_of edge gg)) source"
begin

abbreviation table :: "(string, ForwardingTargets) hmap" where
  "table \<equiv> table_of checks ops gg source subs"

lemma table_computed: "compute_forwarding_table checks ops gg source subs = Some (Ret table)"
  using forwarding_table_is_tree [OF graph_wf costs_fit, of checks subs] by (auto simp: table_of_def)

lemma table_tree:
  "tree_wf table"
  "(p, v) \<in> tree_edges table \<Longrightarrow> t_link (topo gg) p v \<noteq> None \<and> v \<noteq> source"
  "(p, v) \<in> tree_edges table \<Longrightarrow> (p', v) \<in> tree_edges table \<Longrightarrow> p' = p"
  using forwarding_table_is_tree [OF graph_wf costs_fit, of checks subs] unfolding table_computed by simp_all

lemma table_reaches:
  assumes "sub \<in> set subs" and "walk (mesh_cost (topo gg)) source sub k" and "sub \<noteq> source"
  shows "(source, sub) \<in> (tree_edges table)\<^sup>+"
proof -
  obtain k' where "shortest (mesh_cost (topo gg)) source sub k'"
    using shortest_exists [OF assms(2)] by blast
  then have "walk (restrict_cost (mesh_cost (topo gg)) (tree_edges table)) source sub k'"
    using forwarding_table_delivers_all [OF graph_wf costs_fit, of checks subs] assms(1)
    unfolding table_computed by simp
  from walk_restrict_reach [OF this] show ?thesis using assms(3) by (simp add: rtrancl_eq_or_trancl)
qed

lemma finite_table: "finite ((tree_edges table)\<^sup>+ `` {source})"
proof -
  have "tree_edges table \<subseteq> (\<Union>(p, ts) \<in> set table. {p} \<times> set ts)"
    by (auto simp: tree_edges_def dest: hm_get_in)
  then have "finite (tree_edges table)" by (rule finite_subset) auto
  then show ?thesis by (metis finite_Image finite_trancl)
qed

end

sublocale publication \<subseteq> tree: relay_tree "targets_of (table_of checks ops gg source subs)" source
proof
  have edges: "(p, c) \<in> tree_edges (table_of checks ops gg source subs)"
    if "c \<in> set (targets_of (table_of checks ops gg source subs) p)" for p c
    using that by (simp add: tree_edges_targets)
  show "distinct (targets_of (table_of checks ops gg source subs) v)" for v
    using table_tree(1) by (auto simp: targets_of_def tree_wf_def split: option.split)
  show "p = p'" if "c \<in> set (targets_of (table_of checks ops gg source subs) p)"
    "c \<in> set (targets_of (table_of checks ops gg source subs) p')" for c p p'
    using table_tree(3) edges that by blast
  show "source \<notin> set (targets_of (table_of checks ops gg source subs) v)" for v
    using table_tree(2) edges by blast
qed

interpretation vpub: publication vgraph_ops fst vg_edge vg_inv True "mesh_after demo_update" "''s''" "[''b'']"
  by unfold_locales (use mesh_after_correct(1) demo_fits in simp_all)

context publication
begin

lemma relay_all:
  fixes nodes :: "string \<Rightarrow> ('gr, 'l, 'any, 'h) FlowNode"
  assumes wired: "wired nodes link (topo gg)"
    and header: "env_header env = Some h" and carries: "rh_forwarding_table h = table"
  shows "\<exists>trace. data_run nodes link (flight_of env (targets_of table source), []) ([], trace)"
    and "data_run nodes link (flight_of env (targets_of table source), []) (flight, trace) \<Longrightarrow>
      distinct (map fst trace) \<and> source \<notin> fst ` set trace \<and>
      (\<forall>(u, hs) \<in> set trace. hs = deliver_local (rh_flow_id h) (rh_topic_id h) (env_message_type env) (env_payload env) (nodes u)) \<and>
      (flight = [] \<longrightarrow> fst ` set trace = (tree_edges table)\<^sup>+ `` {source})"
proof -
  have conns: "\<forall>v \<in> set (targets_of table u). \<exists>c. find_conn v (nodes u) = Some c \<and> link u c = v" for u
    using wired table_tree(2) by (auto simp: wired_def tree_edges_targets)
  have relay: "\<forall>u. arrivals link u (on_envelope env (nodes u)) = flight_of env (targets_of table u)"
    using arrivals_on_envelope [OF header, where link = link] conns wired
    unfolding carries flight_of_def wired_def by blast
  have start: "data_inv nodes env (targets_of table) source (flight_of env (targets_of table source), [])"
    using tree.relay_start by (auto simp: data_inv_def)
  show "\<exists>trace. data_run nodes link (flight_of env (targets_of table source), []) ([], trace)"
    using tree.data_run_completes [OF relay _ start] finite_table by (simp add: tree_edges_targets)
  assume run: "data_run nodes link (flight_of env (targets_of table source), []) (flight, trace)"
  obtain us where us: "flight = flight_of env us" "relay_inv (targets_of table) source us (map fst trace)"
    and hs: "\<forall>(u, hs) \<in> set trace. hs = handled (on_envelope env (nodes u))"
    using tree.data_inv_run [OF relay run start] by (auto simp: data_inv_def)
  have "fst ` set trace = (tree_edges table)\<^sup>+ `` {source}" if "flight = []"
  proof -
    have "us = []" using that us(1) by (simp add: flight_of_def)
    then show ?thesis using tree.relay_end(2) [of "map fst trace"] us(2) by (simp add: tree_edges_targets)
  qed
  moreover have "distinct (map fst trace)" "source \<notin> fst ` set trace"
    using us(2) by (auto simp: relay_inv_def)
  ultimately show "distinct (map fst trace) \<and> source \<notin> fst ` set trace \<and>
      (\<forall>(u, hs) \<in> set trace. hs = deliver_local (rh_flow_id h) (rh_topic_id h) (env_message_type env) (env_payload env) (nodes u)) \<and>
      (flight = [] \<longrightarrow> fst ` set trace = (tree_edges table)\<^sup>+ `` {source})"
    using hs unfolding handled_on_envelope [OF header] by simp
qed

end

lemma publish_effects:
  assumes "compute_forwarding_table (pf_checks pf) (pf_graph pf) (fn_graph n) (fn_node_id n)
      (subscribers_of topic (gg_node_metadata (fn_graph n))) = Some (Ret t)"
    and "subscribers_of topic (gg_node_metadata (fn_graph n)) \<noteq> []"
    and "\<forall>v \<in> set (targets_of t (fn_node_id n)). \<exists>c. find_conn v n = Some c \<and> link (fn_node_id n) c = v"
  shows "\<exists>effects. publish pf nonce now flow topic message_type codec payload n = Some (Ret effects) \<and>
    handled effects = (if local_interested topic n then deliver_local flow topic message_type payload n else []) \<and>
    arrivals link (fn_node_id n) effects =
      flight_of (make_envelope nonce now flow topic message_type codec payload t n) (targets_of t (fn_node_id n))"
proof -
  let ?env = "make_envelope nonce now flow topic message_type codec payload t n"
  have "arrivals link (fn_node_id n) (forward_all flow ?env (targets_of t (fn_node_id n)) n) =
      flight_of ?env (targets_of t (fn_node_id n))"
    using arrivals_forward_all [of _ n link "fn_node_id n"] assms(3) by (simp add: flight_of_def)
  moreover have "handled (forward_all flow ?env ts n) = []" for ts by simp
  ultimately show ?thesis
    using assms(1,2) by (cases "hm_get t (fn_node_id n)")
      (simp_all add: publish_def Let_def targets_of_def flight_of_def)
qed

lemma publish_relayed:
  fixes nodes :: "string \<Rightarrow> ('g, 'l, 'any, 'h) FlowNode"
  assumes "topology_graph (pf_graph pf) wts edge ginv" and "gg_wf wts edge ginv (fn_graph (nodes s))"
    and "fits_u32 (mesh_cost (topology_of edge (fn_graph (nodes s)))) s"
    and "wired nodes link (topology_of edge (fn_graph (nodes s)))"
  shows "\<exists>effects. publish pf nonce now flow topic message_type codec payload (nodes s) = Some (Ret effects) \<and>
    handled effects = (if local_interested topic (nodes s) then deliver_local flow topic message_type payload (nodes s) else []) \<and>
    (\<exists>trace. data_run nodes link (arrivals link s effects, []) ([], trace)) \<and>
    (\<forall>flight trace. data_run nodes link (arrivals link s effects, []) (flight, trace) \<longrightarrow>
       distinct (map fst trace) \<and> s \<notin> fst ` set trace \<and>
       (\<forall>(u, hs) \<in> set trace. hs = deliver_local flow topic message_type payload (nodes u)) \<and>
       (flight = [] \<longrightarrow> (\<forall>sub k. sub \<in> set (subscribers_of topic (gg_node_metadata (fn_graph (nodes s)))) \<and> sub \<noteq> s \<and>
          walk (mesh_cost (topology_of edge (fn_graph (nodes s)))) s sub k \<longrightarrow> sub \<in> fst ` set trace)))"
proof -
  let ?gg = "fn_graph (nodes s)"
  let ?subs = "subscribers_of topic (gg_node_metadata ?gg)"
  have ident: "fn_node_id (nodes s) = s" using assms(4) by (simp add: wired_def)
  have pub: "publication (pf_graph pf) wts edge ginv ?gg s"
    using assms(1-3) by (simp add: publication_def publication_axioms_def)
  note computed = publication.table_computed [OF pub, of "pf_checks pf" ?subs]
  show ?thesis
  proof (cases "?subs = []")
    case True
    have "\<not> data_step nodes link ([], []) st" for st
      by (auto elim!: data_stepE)
    then have "data_run nodes link ([], []) st \<longleftrightarrow> st = ([], [])" for st
      by (metis converse_rtranclpE rtranclp.rtrancl_refl)
    with True show ?thesis by (simp add: publish_def)
  next
    case False
    define t where "t = table_of (pf_checks pf) (pf_graph pf) ?gg s ?subs"
    have conns: "\<forall>v \<in> set (targets_of t s). \<exists>c. find_conn v (nodes s) = Some c \<and> link s c = v"
      using assms(4) publication.table_tree(2) [OF pub, of s _ "pf_checks pf" ?subs]
      by (auto simp: t_def wired_def tree_edges_targets)
    obtain effects where eff: "publish pf nonce now flow topic message_type codec payload (nodes s) = Some (Ret effects)"
      "handled effects = (if local_interested topic (nodes s) then deliver_local flow topic message_type payload (nodes s) else [])"
      "arrivals link s effects = flight_of (make_envelope nonce now flow topic message_type codec payload t (nodes s)) (targets_of t s)"
      using publish_effects [of pf "nodes s" topic t link] computed False conns unfolding ident t_def by blast
    define env where "env = make_envelope nonce now flow topic message_type codec payload t (nodes s)"
    obtain h where h: "env_header env = Some h" "rh_forwarding_table h = t" "rh_flow_id h = flow" "rh_topic_id h = topic"
      "env_message_type env = message_type" "env_payload env = payload"
      by (simp add: env_def make_envelope_def)
    note relay = publication.relay_all [OF pub assms(4) h(1), of "pf_checks pf" ?subs, folded t_def, OF h(2), unfolded h(3-6)]
    have "sub \<in> fst ` set trace"
      if "data_run nodes link (flight_of env (targets_of t s), []) ([], trace)" and "sub \<in> set ?subs" and "sub \<noteq> s"
        and "walk (mesh_cost (topology_of edge ?gg)) s sub k" for trace sub k
      using relay(2) [OF that(1)] publication.table_reaches [OF pub that(2,4,3), of "pf_checks pf"] by (simp add: t_def)
    with relay eff show ?thesis unfolding env_def [symmetric] by (intro exI [of _ effects]) auto
  qed
qed

section \<open>Properties\<close>

text \<open>A mesh of three nodes in a line, where the last one subscribes.\<close>

definition relay_update :: TopologyUpdate where
  "relay_update = demo_update\<lparr>tu_nodes_added := [demo_node ''s'', demo_node ''a'',
     (demo_node ''b'')\<lparr>nd_capabilities := [(''sub:t'', '''')]\<rparr>]\<rparr>"

definition demo_wrapper_to :: "conn \<Rightarrow> string \<Rightarrow> (conn, FlowConnectionMetadata) ConnectionWrapper" where
  "demo_wrapper_to c v = \<lparr>cw_conn = c, cw_context = demo_context, cw_metadata = \<lparr>fm_peer_node_id = Some v\<rparr>\<rparr>"

definition relay_nodes :: "string \<Rightarrow> ((string, LinkWeight) vgraph, unit, bytes, nat) FlowNode" where
  "relay_nodes u = (let n = demo_flow u in
     n\<lparr>fn_graph := mesh_after relay_update, fn_core := (fn_core n)\<lparr>cm_store :=
       [(0, demo_wrapper_to 0 ''s''), (1, demo_wrapper_to 1 ''a''), (2, demo_wrapper_to 2 ''b'')]\<rparr>\<rparr>)"

definition relay_link :: "string \<Rightarrow> conn \<Rightarrow> string" where
  "relay_link u c = [''s'', ''a'', ''b''] ! c"

lemma relay_topology:
  "t_link (topo_apply_update relay_update topo_empty) u v = t_link (topo_apply_update demo_update topo_empty) u v"
  "aggregator_penalty (topo_apply_update relay_update topo_empty) v = 0"
  by (simp_all add: topo_apply_update_def topo_add_link_def topo_add_node_def aggregator_penalty_def
      topo_empty_def relay_update_def demo_update_def demo_node_def Let_def)

lemma relay_cost: "mesh_cost (topo_apply_update relay_update topo_empty) = mesh_cost (topo_apply_update demo_update topo_empty)"
  by (simp add: mesh_cost_def fun_eq_iff relay_topology demo_topology)

lemma relay_wired: "wired relay_nodes relay_link (topology_of vg_edge (mesh_after relay_update))"
  by (auto simp: wired_def relay_nodes_def Let_def demo_flow_def flow_new_def mesh_after_correct relay_topology
      demo_topology find_conn_def demo_wrapper_to_def relay_link_def split: if_splits)

lemma relay_subscriber: "''b'' \<in> set (subscribers_of ''t'' (gg_node_metadata (mesh_after relay_update)))"
  by (simp add: evals relay_update_def set_subscribers_of matches_capability_def match_topic_def match_loop_drop
      levels_match_def level_matches_def)

text \<open>
  C4: a published message is handled exactly once at every reachable subscriber. If the links of the
  publisher's graph are connections to the nodes they name and no path cost exceeds the range of
  \<^verbatim>\<open>u32\<close>, then publishing succeeds; whatever the order in which the copies in flight arrive, no node
  ever receives the message twice and the publisher never receives it back; every node that
  receives it hands it to its own handler in the same way; the forwarding can come to its end, and
  when nothing is in flight any more every subscriber the publisher can reach has received it.
\<close>

theorem publish_reaches_each_once:
  fixes nodes :: "string \<Rightarrow> ('g, 'l, 'any, 'h) FlowNode"
  assumes "topology_graph (pf_graph pf) wts edge ginv" and "gg_wf wts edge ginv (fn_graph (nodes s))"
    and "fits_u32 (mesh_cost (topology_of edge (fn_graph (nodes s)))) s"
    and "wired nodes link (topology_of edge (fn_graph (nodes s)))"
  shows "\<exists>effects. publish pf nonce now flow topic message_type codec payload (nodes s) = Some (Ret effects) \<and>
    handled effects = (if local_interested topic (nodes s) then deliver_local flow topic message_type payload (nodes s) else []) \<and>
    (\<exists>trace. data_run nodes link (arrivals link s effects, []) ([], trace)) \<and>
    (\<forall>flight trace. data_run nodes link (arrivals link s effects, []) (flight, trace) \<longrightarrow>
       distinct (map fst trace) \<and> s \<notin> fst ` set trace \<and>
       (\<forall>(u, hs) \<in> set trace. hs = deliver_local flow topic message_type payload (nodes u)) \<and>
       (flight = [] \<longrightarrow> (\<forall>sub k. sub \<in> set (subscribers_of topic (gg_node_metadata (fn_graph (nodes s)))) \<and> sub \<noteq> s \<and>
          walk (mesh_cost (topology_of edge (fn_graph (nodes s)))) s sub k \<longrightarrow> sub \<in> fst ` set trace)))"
  by (rule publish_relayed [OF assms])

theorem publish_reaches_each_once_witness:
  "\<exists>effects trace. publish (demo_pf True) ''n'' 0 ''f'' ''t'' ''m'' 0 [] (relay_nodes ''s'') = Some (Ret effects) \<and>
     data_run relay_nodes relay_link (arrivals relay_link ''s'' effects, []) ([], trace) \<and>
     distinct (map fst trace) \<and> ''b'' \<in> fst ` set trace"
proof -
  have graph: "fn_graph (relay_nodes ''s'') = mesh_after relay_update"
    by (simp add: relay_nodes_def Let_def)
  obtain k where "walk (mesh_cost (topology_of vg_edge (mesh_after relay_update))) ''s'' ''b'' k"
    using demo_shortest unfolding mesh_after_correct relay_cost by (auto simp: shortest_def)
  moreover have "fits_u32 (mesh_cost (topology_of vg_edge (mesh_after relay_update))) ''s''"
    using demo_fits unfolding mesh_after_correct relay_cost .
  ultimately show ?thesis
    using publish_reaches_each_once [of "demo_pf True" fst vg_edge vg_inv relay_nodes "''s''" relay_link "''n''" 0 "''f''" "''t''" "''m''" 0 "[]"]
      relay_wired relay_subscriber mesh_after_correct(1) [of relay_update] vtopo.topology_graph_axioms
    unfolding graph by (fastforce simp: demo_pf_def)
qed

section \<open>Messages that are passed on without end\<close>

text \<open>
  \<open>relayed pf ck m nodes p u path\<close>: the message \<open>m\<close>, received by \<open>u\<close> from \<open>p\<close>, travels along \<open>path\<close>,
  each node handling it in the state that earlier visits left.
\<close>

fun relayed ::
  "('g, 'l) platform \<Rightarrow> clock \<Rightarrow> control_payload \<Rightarrow> (string \<Rightarrow> ('g, 'l, 'any, 'h) FlowNode) \<Rightarrow>
   string \<Rightarrow> string \<Rightarrow> string list \<Rightarrow> bool"
where
  "relayed pf ck m nodes p u [] = True"
| "relayed pf ck m nodes p u (q # path) =
     (case handle_event pf ck (ControlMsgReceived p (Some m)) (nodes u) of
        Panic \<Rightarrow> False
      | Ret (n', out) \<Rightarrow>
          (\<exists>tx. hm_get (fn_peer_writers (nodes u)) q = Some tx \<and> SendControl tx (Some m) \<in> set out) \<and>
          relayed pf ck m (nodes(u := n')) u q path)"

lemma gossip_sends:
  assumes "hm_get (fn_peer_writers n) q = Some tx" and "q \<noteq> p" and "q \<noteq> origin"
  shows "SendControl tx (Some m) \<in> set (gossip p origin m n)"
  using assms by (force simp: gossip_def get_peer_writers_def dest: hm_get_in)

text \<open>
  C38: announcements of joining and leaving a session are passed on without end. Nothing in the
  handler recognises a message that was handled before, so if among some nodes every one has, for
  any sender, another peer of the group besides the sender and the joining node, a single
  announcement that arrives at one of them can travel any number of hops.
\<close>

theorem join_circulates:
  fixes nodes :: "string \<Rightarrow> ('g, 'l, 'any, 'h) FlowNode"
  assumes "\<forall>u \<in> N. \<forall>p. \<exists>q \<in> N. q \<noteq> p \<and> q \<noteq> joiner \<and> hm_get (fn_peer_writers (nodes u)) q \<noteq> None"
    and "m \<in> {SJoin \<lparr>sj_session_id = sid, sj_node_id = joiner\<rparr>, SLeave \<lparr>sl_session_id = sid, sl_node_id = joiner\<rparr>}"
    and "u \<in> N"
  shows "\<exists>path. length path = hops \<and> set path \<subseteq> N \<and> relayed pf ck (CSessionControl (Some m)) nodes p u path"
  using assms(1,3)
proof (induction hops arbitrary: nodes p u)
  case (Suc hops)
  let ?m = "CSessionControl (Some m)"
  let ?n = "(nodes u)\<lparr>fn_node_last_seen := hm_insert p (ck_instant ck 0) (fn_node_last_seen (nodes u))\<rparr>"
  obtain q tx where q: "q \<in> N" "q \<noteq> p" "q \<noteq> joiner" "hm_get (fn_peer_writers (nodes u)) q = Some tx"
    using Suc.prems by blast
  have "fn_peer_writers ((nodes(u := ?n)) v) = fn_peer_writers (nodes v)" for v by simp
  then have peers: "\<forall>v \<in> N. \<forall>p. \<exists>q \<in> N. q \<noteq> p \<and> q \<noteq> joiner \<and> hm_get (fn_peer_writers ((nodes(u := ?n)) v)) q \<noteq> None"
    using Suc.prems(1) by simp
  have handled: "handle_event pf ck (ControlMsgReceived p (Some ?m)) (nodes u) = Ret (?n, gossip p joiner ?m ?n)"
    using assms(2) by (auto simp: handle_event_def on_control_message_def on_session_message_def Let_def)
  obtain path where "length path = hops" "set path \<subseteq> N" "relayed pf ck ?m (nodes(u := ?n)) u q path"
    using Suc.IH [OF peers q(1), of u] by blast
  then show ?case
    using q handled gossip_sends [of ?n q tx p joiner ?m] by (intro exI [of _ "q # path"]) auto
qed simp

definition meshed :: "string \<Rightarrow> ((string, LinkWeight) vgraph, unit, bytes, nat) FlowNode" where
  "meshed u = (demo_flow u)\<lparr>fn_peer_writers :=
     filter (\<lambda>(v, tx). v \<noteq> u) [(''a'', 0), (''b'', 1), (''c'', 2), (''d'', 3)]\<rparr>"

theorem join_circulates_witness:
  "\<exists>path. length path = 1000 \<and> set path \<subseteq> {''b'', ''c'', ''d''} \<and>
     relayed (demo_pf True) demo_clock (CSessionControl (Some (SJoin \<lparr>sj_session_id = ''s'', sj_node_id = ''a''\<rparr>)))
       meshed ''a'' ''b'' path"
proof -
  have "\<forall>u \<in> {''b'', ''c'', ''d''}. \<forall>p. \<exists>q \<in> {''b'', ''c'', ''d''}.
      q \<noteq> p \<and> q \<noteq> ''a'' \<and> hm_get (fn_peer_writers (meshed u)) q \<noteq> None"
    by (auto simp: meshed_def hm_get_def)
  from join_circulates [OF this, of "SJoin \<lparr>sj_session_id = ''s'', sj_node_id = ''a''\<rparr>" "''s''" "''b''" 1000]
  show ?thesis by simp
qed

end
