(* ===== verification/Flooding.thy ===== *)
theory Flooding
  imports Mesh
begin

text \<open>
  The control messages of the whole mesh. The first part shows that an announcement, once its origin
  has handled it, reaches every node that is connected to the origin, whatever other messages are
  under way and in whatever order they arrive. The second part puts the pieces together: a
  subscription made at one node, its announcement, and a message published at another node.
\<close>

section \<open>Control messages in flight\<close>

text \<open>
  \<open>chan u tx\<close> is the peer that the sender \<open>tx\<close> of node \<open>u\<close> leads to. A message in flight has the node it
  comes from, the node it goes to and its contents; any of them may be the next to arrive.
\<close>

type_synonym flight = "string \<times> string \<times> ControlMessage"

definition posted ::
  "(string \<Rightarrow> control_sender \<Rightarrow> string) \<Rightarrow> string \<Rightarrow> ('any, 'h) effect list \<Rightarrow> flight list"
where
  "posted chan u effects =
     concat (map (\<lambda>e. case e of SendControl tx m \<Rightarrow> [(u, chan u tx, m)] | _ \<Rightarrow> []) effects)"

inductive control_step ::
  "('g, 'l) platform \<Rightarrow> (string \<Rightarrow> control_sender \<Rightarrow> string) \<Rightarrow>
   (string \<Rightarrow> ('g, 'l, 'any, 'h) FlowNode) \<times> flight list \<Rightarrow> (string \<Rightarrow> ('g, 'l, 'any, 'h) FlowNode) \<times> flight list \<Rightarrow> bool"
  for pf :: "('g, 'l) platform" and chan :: "string \<Rightarrow> control_sender \<Rightarrow> string"
where
  receive: "handle_event pf ck (ControlMsgReceived p m) (nodes v) = Ret (n', out) \<Longrightarrow>
     control_step pf chan (nodes, xs @ (p, v, m) # ys) (nodes(v := n'), xs @ ys @ posted chan v out)"

inductive_cases control_stepE: "control_step pf chan st st'"

abbreviation control_run ::
  "('g, 'l) platform \<Rightarrow> (string \<Rightarrow> control_sender \<Rightarrow> string) \<Rightarrow>
   (string \<Rightarrow> ('g, 'l, 'any, 'h) FlowNode) \<times> flight list \<Rightarrow> (string \<Rightarrow> ('g, 'l, 'any, 'h) FlowNode) \<times> flight list \<Rightarrow> bool"
where
  "control_run pf chan \<equiv> (control_step pf chan)\<^sup>*\<^sup>*"

text \<open>The peers a node sends to, and a mesh whose nodes have their names and whose channels lead to the peers.\<close>

definition peers :: "('g, 'l, 'any, 'h) FlowNode \<Rightarrow> string set" where
  "peers n = fst ` set (fn_peer_writers n)"

definition channelled ::
  "(string \<Rightarrow> control_sender \<Rightarrow> string) \<Rightarrow> (string \<Rightarrow> ('g, 'l, 'any, 'h) FlowNode) \<Rightarrow> bool"
where
  "channelled chan nodes \<longleftrightarrow> (\<forall>u. fn_node_id (nodes u) = u) \<and>
     (\<forall>u. \<forall>(w, tx) \<in> set (fn_peer_writers (nodes u)). chan u tx = w)"

lemma posted_append [simp]: "posted chan u (xs @ ys) = posted chan u xs @ posted chan u ys"
  by (simp add: posted_def)

lemma in_posted: "(p, w, m) \<in> set (posted chan u out) \<longleftrightarrow> p = u \<and> (\<exists>tx. SendControl tx m \<in> set out \<and> chan u tx = w)"
  by (force simp: posted_def split: effect.splits)

section \<open>Flooding in the abstract\<close>

text \<open>
  \<open>ep u\<close> is the epoch of the origin that \<open>u\<close> has stored, \<open>F\<close> the announcements of the origin in flight.
  Every node that is up to date with epoch \<open>e\<close> has its peers up to date or a sufficient announcement
  on its way to them, and nobody announces more than it has stored.
\<close>

definition covered :: "u64 \<Rightarrow> u64 option \<Rightarrow> bool" where
  "covered e stored \<longleftrightarrow> (\<exists>e0. stored = Some e0 \<and> e \<le> e0)"

definition flood_inv ::
  "(string \<Rightarrow> string set) \<Rightarrow> string \<Rightarrow> u64 \<Rightarrow> (string \<Rightarrow> u64 option) \<Rightarrow> (string \<times> string \<times> u64) set \<Rightarrow> bool"
where
  "flood_inv nbrs orig e ep F \<longleftrightarrow>
     (\<forall>u v. covered e (ep u) \<longrightarrow> v \<in> nbrs u \<longrightarrow> v \<noteq> orig \<longrightarrow> covered e (ep v) \<or> (\<exists>p e'. (p, v, e') \<in> F \<and> e \<le> e')) \<and>
     (\<forall>(p, v, e') \<in> F. covered e' (ep p))"

lemma covered_mono: "covered e s \<Longrightarrow> e' \<le> e \<Longrightarrow> covered e' s"
  by (auto simp: covered_def)

lemma flood_invD:
  assumes "flood_inv nbrs orig e ep F"
  shows "(p, v, e') \<in> F \<Longrightarrow> covered e' (ep p)"
    and "covered e (ep u) \<Longrightarrow> v \<in> nbrs u \<Longrightarrow> v \<noteq> orig \<Longrightarrow> covered e (ep v) \<or> (\<exists>p e'. (p, v, e') \<in> F \<and> e \<le> e')"
  using assms unfolding flood_inv_def by blast+

text \<open>
  A node stores a larger epoch: announcements to itself that are no larger may disappear, and its
  peers are up to date already or get an announcement.
\<close>

lemma flood_store:
  assumes inv: "flood_inv nbrs orig e ep F" and fresh: "\<not> covered x (ep v)"
    and kept: "\<And>q w y. (q, w, y) \<in> F \<Longrightarrow> (q, w, y) \<in> F' \<or> w = v \<and> y \<le> x"
    and told: "\<And>w. w \<in> nbrs v \<Longrightarrow> w \<noteq> orig \<Longrightarrow> covered x (ep w) \<or> (v, w, x) \<in> F'"
    and new: "\<And>q w y. (q, w, y) \<in> F' \<Longrightarrow> (q, w, y) \<in> F \<or> q = v \<and> y = x"
  shows "flood_inv nbrs orig e (ep(v := Some x)) F'"
proof -
  let ?ep = "ep(v := Some x)"
  have grow: "covered y (?ep u)" if "covered y (ep u)" for u y
    using that fresh by (auto simp: covered_def not_le)
  have here: "covered y (?ep v) \<longleftrightarrow> y \<le> x" for y by (simp add: covered_def)
  have sent: "covered y (?ep q)" if "(q, w, y) \<in> F'" for q w y
    using new [OF that] grow [OF flood_invD(1) [OF inv]] here by blast
  have "covered e (?ep w) \<or> (\<exists>q y. (q, w, y) \<in> F' \<and> e \<le> y)"
    if u: "covered e (?ep u)" "w \<in> nbrs u" "w \<noteq> orig" for u w
  proof (cases "covered e (ep u)")
    case True
    then consider "covered e (ep w)" | q y where "(q, w, y) \<in> F" "e \<le> y"
      using flood_invD(2) [OF inv _ u(2,3)] by blast
    then show ?thesis
    proof cases
      case 2
      with kept [OF 2(1)] here show ?thesis by (metis order_trans)
    qed (use grow in blast)
  next
    case False
    with u(1) have v: "u = v" by (auto split: if_splits)
    with u(1) here have "e \<le> x" by simp
    then show ?thesis using told [of w] u(2,3) v grow covered_mono by blast
  qed
  with sent show ?thesis unfolding flood_inv_def by blast
qed

lemma flood_stale:
  assumes inv: "flood_inv nbrs orig e ep F" and "covered x (ep v)"
    and kept: "\<And>q w y. (q, w, y) \<in> F \<Longrightarrow> (q, w, y) \<in> F' \<or> w = v \<and> y \<le> x" and "F' \<subseteq> F"
  shows "flood_inv nbrs orig e ep F'"
proof -
  have "covered e (ep w) \<or> (\<exists>q y. (q, w, y) \<in> F' \<and> e \<le> y)"
    if "covered e (ep u)" "w \<in> nbrs u" "w \<noteq> orig" for u w
    using flood_invD(2) [OF inv that] kept covered_mono [OF assms(2)] by (metis order_trans)
  then show ?thesis using flood_invD(1) [OF inv] assms(4) unfolding flood_inv_def by blast
qed

text \<open>When nothing is in flight, being up to date spreads along the peers.\<close>

lemma flood_end:
  assumes "flood_inv nbrs orig e ep {}" and "covered e (ep orig)" and "(orig, v) \<in> {(u, w). w \<in> nbrs u}\<^sup>*"
  shows "covered e (ep v)"
  using assms(3, 2) by induction (use assms(1, 2) in \<open>auto simp: flood_inv_def\<close>)

section \<open>Updates with epochs\<close>

definition subscription_of :: "ControlMessage \<Rightarrow> (string \<times> u64) option" where
  "subscription_of m = (case m of Some (CSubscriptionUpdate u) \<Rightarrow> Some (su_node_id u, su_epoch u) | _ \<Rightarrow> None)"

definition topology_update_of :: "ControlMessage \<Rightarrow> (string \<times> u64) option" where
  "topology_update_of m = (case m of Some (CTopologyUpdate u) \<Rightarrow> Some (tu_origin_node_id u, tu_epoch u) | _ \<Rightarrow> None)"

text \<open>The updates of a kind among the messages sent, and those of one origin among the messages in flight.\<close>

definition updates_sent ::
  "(ControlMessage \<Rightarrow> (string \<times> u64) option) \<Rightarrow> ('any, 'h) effect list \<Rightarrow> (control_sender \<times> string \<times> u64) set"
where
  "updates_sent kind out = {(tx, k, e). \<exists>m. SendControl tx m \<in> set out \<and> kind m = Some (k, e)}"

definition in_flight ::
  "(ControlMessage \<Rightarrow> (string \<times> u64) option) \<Rightarrow> string \<Rightarrow> flight list \<Rightarrow> (string \<times> string \<times> u64) set"
where
  "in_flight kind orig fl = {(p, v, e). \<exists>m. (p, v, m) \<in> set fl \<and> kind m = Some (orig, e)}"

lemma in_flight_Nil [simp]: "in_flight kind orig [] = {}"
  by (simp add: in_flight_def)

lemma in_flight_append: "in_flight kind orig (xs @ ys) = in_flight kind orig xs \<union> in_flight kind orig ys"
  by (auto simp: in_flight_def)

lemma in_flight_Cons:
  "in_flight kind orig ((p, v, m) # ys) = {(p, v, e) |e. kind m = Some (orig, e)} \<union> in_flight kind orig ys"
  by (auto simp: in_flight_def)

lemma in_flight_posted:
  "in_flight kind orig (posted chan u out) = {(u, chan u tx, e) |tx e. (tx, orig, e) \<in> updates_sent kind out}"
  by (auto simp: in_flight_def in_posted updates_sent_def)

lemma newer_covered: "newer m k e \<longleftrightarrow> \<not> covered e (m k)"
  by (auto simp: newer_def covered_def not_le)

text \<open>
  What the control loop promises of a kind of updates: an update is stored and passed on to all peers
  but the one it comes from and its origin if it is newer than what is stored, and has no effect
  otherwise; besides, a node may announce itself, with a larger epoch, to all its peers.
\<close>

locale epoch_flood =
  fixes pf :: "('g, 'l) platform"
    and kind :: "ControlMessage \<Rightarrow> (string \<times> u64) option"
    and epochs :: "('g, 'l, 'any, 'h) FlowNode \<Rightarrow> string \<rightharpoonup> u64"
  assumes keeps: "handle_event pf ck (ControlMsgReceived p m) n = Ret (n', out) \<Longrightarrow>
      fn_peer_writers n' = fn_peer_writers n \<and> fn_node_id n' = fn_node_id n"
    and fresh: "handle_event pf ck (ControlMsgReceived p m) n = Ret (n', out) \<Longrightarrow> kind m = Some (k, e) \<Longrightarrow>
      newer (epochs n) k e \<Longrightarrow> epochs n' = (epochs n)(k \<mapsto> e) \<and>
        updates_sent kind out = {(tx, k, e) |tx w. (w, tx) \<in> set (fn_peer_writers n) \<and> w \<noteq> p \<and> w \<noteq> k}"
    and stale: "handle_event pf ck (ControlMsgReceived p m) n = Ret (n', out) \<Longrightarrow> kind m = Some (k, e) \<Longrightarrow>
      \<not> newer (epochs n) k e \<Longrightarrow> epochs n' = epochs n \<and> updates_sent kind out = {}"
    and other: "handle_event pf ck (ControlMsgReceived p m) n = Ret (n', out) \<Longrightarrow> kind m = None \<Longrightarrow>
      epochs n' = epochs n \<and> updates_sent kind out = {} \<or>
      (\<exists>e. newer (epochs n) (fn_node_id n) e \<and> epochs n' = (epochs n)(fn_node_id n \<mapsto> e) \<and>
        updates_sent kind out = {(tx, fn_node_id n, e) |tx w. (w, tx) \<in> set (fn_peer_writers n)})"
begin

abbreviation state_inv :: "string \<Rightarrow> u64 \<Rightarrow> (string \<Rightarrow> ('g, 'l, 'any, 'h) FlowNode) \<times> flight list \<Rightarrow> bool" where
  "state_inv orig e st \<equiv> flood_inv (\<lambda>u. peers (fst st u)) orig e (\<lambda>u. epochs (fst st u) orig) (in_flight kind orig (snd st))"

lemma flight_before:
  "in_flight kind orig (xs @ (p, v, m) # ys) = {(p, v, x) |x. kind m = Some (orig, x)} \<union> in_flight kind orig (xs @ ys)"
  by (auto simp: in_flight_append in_flight_Cons)

lemma flight_after:
  "in_flight kind orig (xs @ ys @ posted chan v out) =
     in_flight kind orig (xs @ ys) \<union> {(v, chan v tx, x) |tx x. (tx, orig, x) \<in> updates_sent kind out}"
  by (auto simp: in_flight_append in_flight_posted)

text \<open>A message arrives that concerns another origin, one that concerns the origin, or the origin announces itself.\<close>

lemma receive_unrelated:
  assumes inv: "flood_inv nbrs orig e ep (in_flight kind orig (xs @ (p, v, m) # ys))"
    and "ep' = ep" and "\<And>x. kind m \<noteq> Some (orig, x)" and "\<And>tx x. (tx, orig, x) \<notin> updates_sent kind out"
  shows "flood_inv nbrs orig e ep' (in_flight kind orig (xs @ ys @ posted chan v out))"
proof -
  have "in_flight kind orig (xs @ ys @ posted chan v out) = in_flight kind orig (xs @ (p, v, m) # ys)"
    unfolding flight_before flight_after using assms(3,4) by auto
  then show ?thesis using inv assms(2) by simp
qed

lemma receive_update:
  assumes inv: "flood_inv nbrs orig e ep (in_flight kind orig (xs @ (p, v, m) # ys))"
    and k: "kind m = Some (orig, x)" and h: "handle_event pf ck (ControlMsgReceived p m) n = Ret (n', out)"
    and ep: "ep v = epochs n orig" and nbrs: "nbrs v = peers n"
    and chan: "\<And>w tx. (w, tx) \<in> set (fn_peer_writers n) \<Longrightarrow> chan v tx = w"
  shows "flood_inv nbrs orig e (ep(v := epochs n' orig)) (in_flight kind orig (xs @ ys @ posted chan v out))"
    (is "flood_inv _ _ _ _ ?F'")
proof (cases "newer (epochs n) orig x")
  case True
  note up = fresh [OF h k True]
  have "covered x (ep p)" using flood_invD(1) [OF inv, of p v x] k by (auto simp: flight_before)
  moreover have "(v, w, x) \<in> ?F'" if "w \<in> nbrs v" "w \<noteq> orig" "w \<noteq> p" for w
    using that chan up unfolding flight_after nbrs by (force simp: peers_def)
  ultimately have "flood_inv nbrs orig e (ep(v := Some x)) ?F'"
    by (intro flood_store [OF inv]) (use True k up ep in \<open>auto simp: newer_covered flight_before flight_after\<close>)
  then show ?thesis using up by simp
next
  case False
  note st = stale [OF h k False]
  have "flood_inv nbrs orig e ep ?F'"
    by (intro flood_stale [OF inv, of x v]) (use False k st ep in \<open>auto simp: newer_covered flight_before flight_after\<close>)
  moreover have "ep(v := epochs n' orig) = ep" using st ep by auto
  ultimately show ?thesis by simp
qed

lemma receive_announce:
  assumes inv: "flood_inv nbrs v e ep (in_flight kind v (xs @ (p, v, m) # ys))" and "kind m = None"
    and x: "newer (epochs n) v x" "updates_sent kind out = {(tx, v, x) |tx w. (w, tx) \<in> set (fn_peer_writers n)}"
    and ep: "ep v = epochs n v" and nbrs: "nbrs v = peers n"
    and chan: "\<And>w tx. (w, tx) \<in> set (fn_peer_writers n) \<Longrightarrow> chan v tx = w"
  shows "flood_inv nbrs v e (ep(v := Some x)) (in_flight kind v (xs @ ys @ posted chan v out))"
    (is "flood_inv _ _ _ _ ?F'")
proof -
  have "(v, w, x) \<in> ?F'" if "w \<in> nbrs v" for w
    using that chan unfolding flight_after x(2) nbrs by (force simp: peers_def)
  then show ?thesis
    by (intro flood_store [OF inv]) (use assms(2) x ep in \<open>auto simp: newer_covered flight_before flight_after\<close>)
qed

lemma receive_inv:
  assumes "channelled chan nodes" and inv: "state_inv orig e (nodes, xs @ (p, v, m) # ys)"
    and h: "handle_event pf ck (ControlMsgReceived p m) (nodes v) = Ret (n', out)"
  shows "state_inv orig e (nodes(v := n'), xs @ ys @ posted chan v out)"
proof -
  let ?ep = "\<lambda>u. epochs (nodes u) orig" and ?nbrs = "\<lambda>u. peers (nodes u)"
  have nbrs: "(\<lambda>u. peers ((nodes(v := n')) u)) = ?nbrs"
    using keeps [OF h] by (simp add: peers_def fun_eq_iff)
  have ep: "(\<lambda>u. epochs ((nodes(v := n')) u) orig) = ?ep(v := epochs n' orig)" by auto
  have id: "fn_node_id (nodes v) = v" and chan: "\<And>w tx. (w, tx) \<in> set (fn_peer_writers (nodes v)) \<Longrightarrow> chan v tx = w"
    using assms(1) by (auto simp: channelled_def)
  note inv' = inv [simplified fst_conv snd_conv]
  have "flood_inv ?nbrs orig e (?ep(v := epochs n' orig)) (in_flight kind orig (xs @ ys @ posted chan v out))"
  proof (cases "kind m")
    case None
    show ?thesis
    proof (cases "epochs n' = epochs (nodes v) \<and> updates_sent kind out = {}")
      case False
      then obtain x where x: "newer (epochs (nodes v)) v x" "epochs n' = (epochs (nodes v))(v \<mapsto> x)"
        "updates_sent kind out = {(tx, v, x) |tx w. (w, tx) \<in> set (fn_peer_writers (nodes v))}"
        using other [OF h None] id by auto
      show ?thesis
      proof (cases "v = orig")
        case True
        then show ?thesis
          using receive_announce [of ?nbrs v e ?ep xs p m ys "nodes v" x out chan] inv' None x chan by simp
      next
        case False
        then have "epochs n' orig = ?ep v" using x(2) by simp
        with False x(3) None show ?thesis by (intro receive_unrelated [OF inv']) (auto simp: fun_eq_iff)
      qed
    next
      case True
      with None show ?thesis by (intro receive_unrelated [OF inv']) (auto simp: fun_eq_iff)
    qed
  next
    case (Some ku)
    then obtain k x where k: "kind m = Some (k, x)" by (cases ku) auto
    show ?thesis
    proof (cases "k = orig")
      case True
      then show ?thesis using receive_update [OF inv' _ h, where x = x and chan = chan] k chan by simp
    next
      case False
      have "epochs n' orig = ?ep v" "\<And>tx x. (tx, orig, x) \<notin> updates_sent kind out"
        using False fresh [OF h k] stale [OF h k] by (cases "newer (epochs (nodes v)) k x"; simp)+
      with k False show ?thesis by (intro receive_unrelated [OF inv']) (auto simp: fun_eq_iff)
    qed
  qed
  then show ?thesis unfolding fst_conv snd_conv nbrs ep .
qed

lemma receive_channelled:
  fixes nodes :: "string \<Rightarrow> ('g, 'l, 'any, 'h) FlowNode"
  assumes "channelled chan nodes" and "handle_event pf ck (ControlMsgReceived p m) (nodes v) = Ret (n', out)"
  shows "channelled chan (nodes(v := n'))"
  using assms keeps [OF assms(2)] by (auto simp: channelled_def)

lemma control_run_inv:
  assumes "control_run pf chan st st'" and "channelled chan (fst st)" and "state_inv orig e st"
  shows "channelled chan (fst st') \<and> state_inv orig e st' \<and> (\<forall>u. peers (fst st' u) = peers (fst st u))"
  using assms
proof (induction rule: rtranclp_induct)
  case (step st1 st2)
  note hyp = step.IH [OF step.prems]
  from step.hyps(2) show ?case
  proof cases
    case (receive ck p m nodes v n' out xs ys)
    have old: "channelled chan nodes" "state_inv orig e (nodes, xs @ (p, v, m) # ys)" "\<And>u. peers (nodes u) = peers (fst st u)"
      using hyp unfolding receive(1) by auto
    have "peers ((nodes(v := n')) u) = peers (fst st u)" for u
      using keeps [OF receive(3)] old(3) by (simp add: peers_def)
    then show ?thesis
      using receive_channelled [OF old(1) receive(3)] receive_inv [OF old(1,2) receive(3)]
      unfolding receive(2) fst_conv snd_conv by blast
  qed
qed simp

lemma control_run_covered:
  assumes "control_run pf chan st st'" and "channelled chan (fst st)" and "state_inv orig e st"
    and "covered e (epochs (fst st u) orig)"
  shows "covered e (epochs (fst st' u) orig)"
  using assms
proof (induction rule: rtranclp_induct)
  case (step st1 st2)
  note hyp = step.IH [OF step.prems]
  from step.hyps(2) show ?case
  proof cases
    case (receive ck p m nodes v n' out xs ys)
    have "covered e (epochs n' orig)" if "covered e (epochs (nodes v) orig)"
    proof (cases "kind m")
      case None
      then show ?thesis using that other [OF receive(3)] by (auto simp: newer_def covered_def)
    next
      case (Some ku)
      then obtain k x where k: "kind m = Some (k, x)" by (cases ku) auto
      then show ?thesis using that fresh [OF receive(3) k] stale [OF receive(3) k]
        by (cases "newer (epochs (nodes v)) k x") (auto simp: newer_def covered_def)
    qed
    then show ?thesis using hyp receive by (cases "u = v") simp_all
  qed
qed simp

end

section \<open>The two kinds of announcements\<close>

lemma updates_sent_Nil [simp]: "updates_sent kind [] = {}"
  by (simp add: updates_sent_def)

lemma updates_sent_gossip:
  "updates_sent kind (gossip p k payload n) =
     {(tx, k', e) |tx k' e w. kind (Some payload) = Some (k', e) \<and> (w, tx) \<in> set (fn_peer_writers n) \<and> w \<noteq> p \<and> w \<noteq> k}"
  by (force simp: updates_sent_def gossip_def get_peer_writers_def)

lemma updates_sent_broadcast:
  "updates_sent kind (broadcast_control_message m n) =
     {(tx, k', e) |tx k' e w. kind m = Some (k', e) \<and> (w, tx) \<in> set (fn_peer_writers n)}"
  by (force simp: updates_sent_def broadcast_control_message_def get_peer_writers_def)

lemma on_pong_result:
  assumes "on_pong pf ck p pong n = Ret (n', out)"
  shows "(\<exists>g. n' = n\<lparr>fn_graph := g\<rparr> \<and> out = []) \<or>
    (\<exists>g e ds. rust_add (pf_checks pf) (epoch_of (fn_last_epochs n) (fn_node_id n)) 1 = Ret e \<and>
      n' = n\<lparr>fn_graph := g, fn_last_epochs := hm_insert (fn_node_id n) e (fn_last_epochs n)\<rparr> \<and>
      out = broadcast_control_message (Some (CTopologyUpdate (snapshot_update (fn_node_id n) e ds))) n')"
proof (cases "link_exists pf (fn_graph n) (fn_node_id n) p")
  case True
  then show ?thesis using assms unfolding on_pong_def Let_def by (simp add: exec_bind_eq_Ret) metis
next
  case False
  obtain g where "exec_bind (rust_add (pf_checks pf) (epoch_of (fn_last_epochs n) (fn_node_id n)) 1) (\<lambda>e.
      exec_bind (get_descriptors (pf_graph pf) g) (\<lambda>ds.
        Ret (n\<lparr>fn_graph := g, fn_last_epochs := hm_insert (fn_node_id n) e (fn_last_epochs n)\<rparr>,
          broadcast_control_message (Some (CTopologyUpdate (snapshot_update (fn_node_id n) e ds)))
            (n\<lparr>fn_graph := g, fn_last_epochs := hm_insert (fn_node_id n) e (fn_last_epochs n)\<rparr>)))) = Ret (n', out)"
    using assms False unfolding on_pong_def Let_def exec_bind_eq_Ret [of "rust_mul _ _ _"] exec_bind_eq_Ret [of "add_link _ _ _"]
    by (elim exE conjE) simp
  then obtain e ds where "rust_add (pf_checks pf) (epoch_of (fn_last_epochs n) (fn_node_id n)) 1 = Ret e"
    "n' = n\<lparr>fn_graph := g, fn_last_epochs := hm_insert (fn_node_id n) e (fn_last_epochs n)\<rparr>"
    "out = broadcast_control_message (Some (CTopologyUpdate (snapshot_update (fn_node_id n) e ds))) n'"
    unfolding exec_bind_eq_Ret by (elim exE conjE) auto
  then show ?thesis by blast
qed
lemma handle_pong_result:
  assumes "handle_event pf ck (ControlMsgReceived p (Some (CPong pong))) n = Ret (n', out)"
  shows "fn_peer_writers n' = fn_peer_writers n" "fn_node_id n' = fn_node_id n"
    "fn_last_subscription_epochs n' = fn_last_subscription_epochs n"
    "fn_last_epochs n' = fn_last_epochs n \<and> out = [] \<or>
    (\<exists>e ds. rust_add (pf_checks pf) (epoch_of (fn_last_epochs n) (fn_node_id n)) 1 = Ret e \<and>
      fn_last_epochs n' = hm_insert (fn_node_id n) e (fn_last_epochs n) \<and>
      out = broadcast_control_message (Some (CTopologyUpdate (snapshot_update (fn_node_id n) e ds))) n')"
proof -
  let ?n = "n\<lparr>fn_node_last_seen := hm_insert p (ck_instant ck 0) (fn_node_last_seen n)\<rparr>"
  have "on_pong pf ck p pong ?n = Ret (n', out)" using assms by (simp add: handle_event_def on_control_message_def Let_def)
  note r = on_pong_result [OF this]
  from r show "fn_peer_writers n' = fn_peer_writers n" "fn_node_id n' = fn_node_id n"
    "fn_last_subscription_epochs n' = fn_last_subscription_epochs n" by (elim disjE exE conjE; simp)+
  from r show "fn_last_epochs n' = fn_last_epochs n \<and> out = [] \<or>
    (\<exists>e ds. rust_add (pf_checks pf) (epoch_of (fn_last_epochs n) (fn_node_id n)) 1 = Ret e \<and>
      fn_last_epochs n' = hm_insert (fn_node_id n) e (fn_last_epochs n) \<and>
      out = broadcast_control_message (Some (CTopologyUpdate (snapshot_update (fn_node_id n) e ds))) n')"
  proof (elim disjE exE conjE)
    fix g e ds
    assume "rust_add (pf_checks pf) (epoch_of (fn_last_epochs ?n) (fn_node_id ?n)) 1 = Ret e"
      and n': "n' = ?n\<lparr>fn_graph := g, fn_last_epochs := hm_insert (fn_node_id ?n) e (fn_last_epochs ?n)\<rparr>"
      and "out = broadcast_control_message (Some (CTopologyUpdate (snapshot_update (fn_node_id ?n) e ds))) n'"
    moreover have "fn_last_epochs n' = hm_insert (fn_node_id n) e (fn_last_epochs n)" using n' by simp
    ultimately show ?thesis by (intro disjI2 exI [of _ e] exI [of _ ds]) simp
  qed simp
qed

text \<open>A node that differs only where announcements have no part, and messages that are no announcements.\<close>

definition quiet :: "('g, 'l, 'any, 'h) FlowNode \<Rightarrow> ('g, 'l, 'any, 'h) FlowNode \<Rightarrow> ('any, 'h) effect list \<Rightarrow> bool" where
  "quiet n n' out \<longleftrightarrow> fn_peer_writers n' = fn_peer_writers n \<and> fn_node_id n' = fn_node_id n \<and>
     fn_last_epochs n' = fn_last_epochs n \<and> fn_last_subscription_epochs n' = fn_last_subscription_epochs n \<and>
     (\<forall>tx m. SendControl tx m \<in> set out \<longrightarrow> subscription_of m = None \<and> topology_update_of m = None)"

lemma quiet_gossip:
  "(\<And>u. payload \<noteq> CSubscriptionUpdate u) \<Longrightarrow> (\<And>u. payload \<noteq> CTopologyUpdate u) \<Longrightarrow>
     SendControl tx m \<in> set (gossip p k payload n) \<Longrightarrow> subscription_of m = None \<and> topology_update_of m = None"
  by (auto simp: gossip_def subscription_of_def topology_update_of_def split: control_payload.split)

lemma quiet_refl: "quiet n n []"
  by (simp add: quiet_def)

lemma quiet_relay: "quiet n n (gossip p k (CSessionControl x) n)"
  unfolding quiet_def by (auto dest!: quiet_gossip [rotated 2])

lemma quiet_updates: "quiet n n' out \<Longrightarrow> updates_sent subscription_of out = {} \<and> updates_sent topology_update_of out = {}"
  by (fastforce simp: quiet_def updates_sent_def)

lemma quiet_session_create: "on_session_create p create n = (n', out) \<Longrightarrow> quiet n n' out"
  by (auto simp: on_session_create_def quiet_def Let_def split: if_splits dest!: quiet_gossip [rotated 2])

lemma quiet_session_close: "on_session_close p close n = (n', out) \<Longrightarrow> quiet n n' out"
  by (auto simp: on_session_close_def quiet_def Let_def split: if_splits dest!: quiet_gossip [rotated 2])

lemma quiet_state_sync: "on_state_sync pf p sync n = Ret (n', out) \<Longrightarrow> quiet n n' out"
  by (auto simp: on_state_sync_def quiet_def Let_def exec_bind_eq_Ret split: option.splits dest!: quiet_gossip [rotated 2])

lemma quiet_session_message: "on_session_message pf p msg n = Ret (n', out) \<Longrightarrow> quiet n n' out"
  by (cases msg) (auto simp: on_session_message_def intro: quiet_session_create quiet_session_close quiet_state_sync quiet_relay)

lemma quiet_backpressure: "on_backpressure pf signal n = (n', out) \<Longrightarrow> quiet n n' out"
  by (auto simp: on_backpressure_def quiet_def Let_def split: if_splits)

lemma quiet_ping: "quiet n n (on_ping ck p ping n)"
  by (simp add: on_ping_def quiet_def subscription_of_def topology_update_of_def split: option.split)

lemma quiet_seen: "quiet (n\<lparr>fn_node_last_seen := seen\<rparr>) n' out \<Longrightarrow> quiet n n' out"
  by (simp add: quiet_def)

lemma handle_message_quiet:
  assumes h: "handle_event pf ck (ControlMsgReceived p m) n = Ret (n', out)"
    and "\<And>u. m \<noteq> Some (CTopologyUpdate u)" "\<And>u. m \<noteq> Some (CSubscriptionUpdate u)" "\<And>pong. m \<noteq> Some (CPong pong)"
  shows "quiet n n' out"
proof -
  let ?n = "n\<lparr>fn_node_last_seen := hm_insert p (ck_instant ck 0) (fn_node_last_seen n)\<rparr>"
  have "quiet ?n n' out"
  proof (cases m)
    case (Some payload)
    show ?thesis
      using h assms(2-4) unfolding Some handle_event_def on_control_message_def Let_def
      by (cases payload)
        (auto intro: quiet_refl quiet_ping quiet_backpressure quiet_session_message split: option.splits)
  qed (use h in \<open>auto simp: handle_event_def on_control_message_def Let_def intro: quiet_refl\<close>)
  then show ?thesis by (rule quiet_seen)
qed

text \<open>What handling a message leaves alone.\<close>

lemma handle_message_keeps:
  assumes h: "handle_event pf ck (ControlMsgReceived p m) n = Ret (n', out)"
  shows "fn_peer_writers n' = fn_peer_writers n" and "fn_node_id n' = fn_node_id n"
proof -
  consider u where "m = Some (CTopologyUpdate u)" | u where "m = Some (CSubscriptionUpdate u)" | pong where "m = Some (CPong pong)"
    | "\<forall>u. m \<noteq> Some (CTopologyUpdate u)" "\<forall>u. m \<noteq> Some (CSubscriptionUpdate u)" "\<forall>pong. m \<noteq> Some (CPong pong)" by blast
  then have "fn_peer_writers n' = fn_peer_writers n \<and> fn_node_id n' = fn_node_id n"
  proof cases
    case 1
    then show ?thesis using h
      by (auto simp: handle_event_def on_control_message_def on_topology_update_def Let_def exec_bind_eq_Ret split: if_splits)
  next
    case 2
    then show ?thesis using h
      by (auto simp: handle_event_def on_control_message_def on_subscription_update_def Let_def split: if_splits)
  next
    case 3
    then show ?thesis using handle_pong_result(1,2) h by blast
  next
    case 4
    then show ?thesis using handle_message_quiet [OF h] by (simp add: quiet_def)
  qed
  then show "fn_peer_writers n' = fn_peer_writers n" and "fn_node_id n' = fn_node_id n" by blast+
qed

lemma handle_message_subscription:
  assumes h: "handle_event pf ck (ControlMsgReceived p m) n = Ret (n', out)"
  shows "subscription_of m = Some (k, e) \<Longrightarrow> newer (hm_get (fn_last_subscription_epochs n)) k e \<Longrightarrow>
      hm_get (fn_last_subscription_epochs n') = (hm_get (fn_last_subscription_epochs n))(k \<mapsto> e) \<and>
      updates_sent subscription_of out = {(tx, k, e) |tx w. (w, tx) \<in> set (fn_peer_writers n) \<and> w \<noteq> p \<and> w \<noteq> k}"
    and "subscription_of m = Some (k, e) \<Longrightarrow> \<not> newer (hm_get (fn_last_subscription_epochs n)) k e \<Longrightarrow>
      hm_get (fn_last_subscription_epochs n') = hm_get (fn_last_subscription_epochs n) \<and> updates_sent subscription_of out = {}"
    and "subscription_of m = None \<Longrightarrow>
      hm_get (fn_last_subscription_epochs n') = hm_get (fn_last_subscription_epochs n) \<and> updates_sent subscription_of out = {}"
proof -
  have sub: "\<exists>u. m = Some (CSubscriptionUpdate u) \<and> su_node_id u = k \<and> su_epoch u = e" if "subscription_of m = Some (k, e)"
    using that by (auto simp: subscription_of_def split: option.splits control_payload.splits)
  show "hm_get (fn_last_subscription_epochs n') = (hm_get (fn_last_subscription_epochs n))(k \<mapsto> e) \<and>
      updates_sent subscription_of out = {(tx, k, e) |tx w. (w, tx) \<in> set (fn_peer_writers n) \<and> w \<noteq> p \<and> w \<noteq> k}"
    if "subscription_of m = Some (k, e)" "newer (hm_get (fn_last_subscription_epochs n)) k e"
    using h that(2) sub [OF that(1)]
    by (auto simp: handle_event_def on_control_message_def on_subscription_update_def is_fresh_newer Let_def updates_sent_gossip
        subscription_of_def) blast
  show "hm_get (fn_last_subscription_epochs n') = hm_get (fn_last_subscription_epochs n) \<and> updates_sent subscription_of out = {}"
    if "subscription_of m = Some (k, e)" "\<not> newer (hm_get (fn_last_subscription_epochs n)) k e"
    using h that(2) sub [OF that(1)]
    by (auto simp: handle_event_def on_control_message_def on_subscription_update_def is_fresh_newer Let_def)
  assume "subscription_of m = None"
  then have "\<forall>u. m \<noteq> Some (CSubscriptionUpdate u)" by (auto simp: subscription_of_def)
  then consider u where "m = Some (CTopologyUpdate u)" | pong where "m = Some (CPong pong)"
    | "\<forall>u. m \<noteq> Some (CTopologyUpdate u)" "\<forall>u. m \<noteq> Some (CSubscriptionUpdate u)" "\<forall>pong. m \<noteq> Some (CPong pong)" by blast
  then show "hm_get (fn_last_subscription_epochs n') = hm_get (fn_last_subscription_epochs n) \<and> updates_sent subscription_of out = {}"
  proof cases
    case 1
    then show ?thesis using h
      by (auto simp: handle_event_def on_control_message_def on_topology_update_def Let_def exec_bind_eq_Ret updates_sent_gossip
          subscription_of_def split: if_splits)
  next
    case 2
    then show ?thesis using handle_pong_result(3,4) [OF h [unfolded 2]]
      by (auto simp: updates_sent_broadcast subscription_of_def)
  next
    case 3
    then show ?thesis using handle_message_quiet [OF h] quiet_updates by (fastforce simp: quiet_def)
  qed
qed

lemma handle_message_topology:
  assumes "handle_event pf ck (ControlMsgReceived p m) n = Ret (n', out)"
  shows "topology_update_of m = Some (k, e) \<Longrightarrow> newer (hm_get (fn_last_epochs n)) k e \<Longrightarrow>
      hm_get (fn_last_epochs n') = (hm_get (fn_last_epochs n))(k \<mapsto> e) \<and>
      updates_sent topology_update_of out = {(tx, k, e) |tx w. (w, tx) \<in> set (fn_peer_writers n) \<and> w \<noteq> p \<and> w \<noteq> k}"
    and "topology_update_of m = Some (k, e) \<Longrightarrow> \<not> newer (hm_get (fn_last_epochs n)) k e \<Longrightarrow>
      hm_get (fn_last_epochs n') = hm_get (fn_last_epochs n) \<and> updates_sent topology_update_of out = {}"
proof -
  show "hm_get (fn_last_epochs n') = (hm_get (fn_last_epochs n))(k \<mapsto> e) \<and>
      updates_sent topology_update_of out = {(tx, k, e) |tx w. (w, tx) \<in> set (fn_peer_writers n) \<and> w \<noteq> p \<and> w \<noteq> k}"
    if "topology_update_of m = Some (k, e)" "newer (hm_get (fn_last_epochs n)) k e"
    using assms that
    by (auto simp: topology_update_of_def handle_event_def on_control_message_def on_topology_update_def
        is_fresh_newer Let_def exec_bind_eq_Ret updates_sent_gossip split: option.splits control_payload.splits)
  show "hm_get (fn_last_epochs n') = hm_get (fn_last_epochs n) \<and> updates_sent topology_update_of out = {}"
    if "topology_update_of m = Some (k, e)" "\<not> newer (hm_get (fn_last_epochs n)) k e"
    using assms that
    by (auto simp: topology_update_of_def handle_event_def on_control_message_def on_topology_update_def
        is_fresh_newer Let_def split: option.splits control_payload.splits)
qed

interpretation subscription_flood: epoch_flood pf subscription_of "\<lambda>n. hm_get (fn_last_subscription_epochs n)"
  for pf :: "('g, 'l) platform"
proof
  fix ck p m and n n' :: "('g, 'l, 'any, 'h) FlowNode" and out k e
  assume h: "handle_event pf ck (ControlMsgReceived p m) n = Ret (n', out)"
  show "fn_peer_writers n' = fn_peer_writers n \<and> fn_node_id n' = fn_node_id n"
    using handle_message_keeps [OF h] by blast
  note sub = handle_message_subscription [OF h]
  show "hm_get (fn_last_subscription_epochs n') = (hm_get (fn_last_subscription_epochs n))(k \<mapsto> e) \<and>
      updates_sent subscription_of out = {(tx, k, e) |tx w. (w, tx) \<in> set (fn_peer_writers n) \<and> w \<noteq> p \<and> w \<noteq> k}"
    if "subscription_of m = Some (k, e)" "newer (hm_get (fn_last_subscription_epochs n)) k e"
    by (rule sub(1) [OF that])
  show "hm_get (fn_last_subscription_epochs n') = hm_get (fn_last_subscription_epochs n) \<and> updates_sent subscription_of out = {}"
    if "subscription_of m = Some (k, e)" "\<not> newer (hm_get (fn_last_subscription_epochs n)) k e"
    by (rule sub(2) [OF that])
  show "hm_get (fn_last_subscription_epochs n') = hm_get (fn_last_subscription_epochs n) \<and> updates_sent subscription_of out = {} \<or>
      (\<exists>e. newer (hm_get (fn_last_subscription_epochs n)) (fn_node_id n) e \<and>
        hm_get (fn_last_subscription_epochs n') = (hm_get (fn_last_subscription_epochs n))(fn_node_id n \<mapsto> e) \<and>
        updates_sent subscription_of out = {(tx, fn_node_id n, e) |tx w. (w, tx) \<in> set (fn_peer_writers n)})"
    if "subscription_of m = None"
    using sub(3) [OF that] by blast
qed

text \<open>
  A node announces itself when a pong shows a new link, with its epoch increased by one. In a build
  that checks for overflow the new epoch is larger.
\<close>

lemma pong_announces_newer:
  assumes "pf_checks pf" and "handle_event pf ck (ControlMsgReceived p (Some (CPong pong))) n = Ret (n', out)"
  shows "hm_get (fn_last_epochs n') = hm_get (fn_last_epochs n) \<and> out = [] \<or>
    (\<exists>e. newer (hm_get (fn_last_epochs n)) (fn_node_id n) e \<and> hm_get (fn_last_epochs n') = (hm_get (fn_last_epochs n))(fn_node_id n \<mapsto> e) \<and>
      updates_sent topology_update_of out = {(tx, fn_node_id n, e) |tx w. (w, tx) \<in> set (fn_peer_writers n)})"
proof -
  have bigger: "newer (hm_get (fn_last_epochs n)) (fn_node_id n) e"
    if "rust_add (pf_checks pf) (epoch_of (fn_last_epochs n) (fn_node_id n)) 1 = Ret e" for e
  proof -
    let ?a = "epoch_of (fn_last_epochs n) (fn_node_id n)"
    have "unat ?a + 1 < 2 ^ 64" "e = ?a + 1"
      using that assms(1) by (auto simp: rust_add_def overflows_def split: if_splits)
    then have "?a < e" by (simp add: word_less_nat_alt unat_word_ariths)
    then show ?thesis by (auto simp: newer_def epoch_of_def)
  qed
  have up: "updates_sent topology_update_of (broadcast_control_message (Some (CTopologyUpdate (snapshot_update i e ds))) n1) =
      {(tx, i, e) |tx w. (w, tx) \<in> set (fn_peer_writers n1)}" for i e ds and n1 :: "('g, 'l, 'any, 'h) FlowNode"
    by (auto simp: updates_sent_broadcast topology_update_of_def snapshot_update_def)
  from handle_pong_result(4) [OF assms(2)] show ?thesis
  proof (elim disjE exE conjE)
    fix e ds
    assume "rust_add (pf_checks pf) (epoch_of (fn_last_epochs n) (fn_node_id n)) 1 = Ret e"
      "fn_last_epochs n' = hm_insert (fn_node_id n) e (fn_last_epochs n)"
      "out = broadcast_control_message (Some (CTopologyUpdate (snapshot_update (fn_node_id n) e ds))) n'"
    then show ?thesis
      using bigger up [of "fn_node_id n" e ds n'] handle_message_keeps(1) [OF assms(2)] by (intro disjI2 exI [of _ e]) simp
  qed simp
qed

lemma topology_flood:
  assumes "pf_checks pf"
  shows "epoch_flood pf topology_update_of (\<lambda>n. hm_get (fn_last_epochs n))"
proof
  fix ck p m and n n' :: "('a, 'b, 'c, 'd) FlowNode" and out k e
  assume h: "handle_event pf ck (ControlMsgReceived p m) n = Ret (n', out)"
  show "fn_peer_writers n' = fn_peer_writers n \<and> fn_node_id n' = fn_node_id n"
    using handle_message_keeps [OF h] by blast
  note top = handle_message_topology [OF h]
  show "hm_get (fn_last_epochs n') = (hm_get (fn_last_epochs n))(k \<mapsto> e) \<and>
      updates_sent topology_update_of out = {(tx, k, e) |tx w. (w, tx) \<in> set (fn_peer_writers n) \<and> w \<noteq> p \<and> w \<noteq> k}"
    if "topology_update_of m = Some (k, e)" "newer (hm_get (fn_last_epochs n)) k e"
    by (rule top(1) [OF that])
  show "hm_get (fn_last_epochs n') = hm_get (fn_last_epochs n) \<and> updates_sent topology_update_of out = {}"
    if "topology_update_of m = Some (k, e)" "\<not> newer (hm_get (fn_last_epochs n)) k e"
    by (rule top(2) [OF that])
  assume none: "topology_update_of m = None"
  show "hm_get (fn_last_epochs n') = hm_get (fn_last_epochs n) \<and> updates_sent topology_update_of out = {} \<or>
      (\<exists>e. newer (hm_get (fn_last_epochs n)) (fn_node_id n) e \<and>
        hm_get (fn_last_epochs n') = (hm_get (fn_last_epochs n))(fn_node_id n \<mapsto> e) \<and>
        updates_sent topology_update_of out = {(tx, fn_node_id n, e) |tx w. (w, tx) \<in> set (fn_peer_writers n)})"
  proof (cases "\<exists>pong. m = Some (CPong pong)")
    case True
    then obtain pong where "m = Some (CPong pong)" by blast
    from pong_announces_newer [OF assms h [unfolded this]] show ?thesis by (rule disj_forward) simp_all
  next
    case False
    have "hm_get (fn_last_epochs n') = hm_get (fn_last_epochs n) \<and> updates_sent topology_update_of out = {}"
    proof (cases "\<exists>u. m = Some (CSubscriptionUpdate u)")
      case True
      then show ?thesis using h
        by (auto simp: handle_event_def on_control_message_def on_subscription_update_def Let_def updates_sent_gossip
            topology_update_of_def split: if_splits)
    next
      case no_sub: False
      have "quiet n n' out"
        by (rule handle_message_quiet [OF h]) (use none False no_sub in \<open>auto simp: topology_update_of_def\<close>)
      then show ?thesis using quiet_updates by (fastforce simp: quiet_def)
    qed
    then show ?thesis by blast
  qed
qed

interpretation demo_topology_flood: epoch_flood "demo_pf True" topology_update_of "\<lambda>n. hm_get (fn_last_epochs n)"
  by (rule topology_flood) (simp add: demo_pf_def)

context epoch_flood
begin

lemma origin_sends:
  assumes "channelled chan nodes" and h: "handle_event pf ck (ControlMsgReceived p m) (nodes orig) = Ret (n', out)"
    and own: "\<forall>x. kind m = Some (orig, x) \<longrightarrow> p = orig"
    and e: "\<not> covered e (epochs (nodes orig) orig)" "epochs n' orig = Some e"
  shows "(tx, orig, x) \<in> updates_sent kind out \<Longrightarrow> x = e"
    and "(w, tx) \<in> set (fn_peer_writers (nodes orig)) \<Longrightarrow> w \<noteq> orig \<Longrightarrow> (tx, orig, e) \<in> updates_sent kind out"
proof -
  have id: "fn_node_id (nodes orig) = orig" using assms(1) by (simp add: channelled_def)
  have changed: "epochs n' orig \<noteq> epochs (nodes orig) orig" using e by (metis covered_def order_refl)
  have "(\<forall>tx x. (tx, orig, x) \<in> updates_sent kind out \<longrightarrow> x = e) \<and>
      (\<forall>(w, tx) \<in> set (fn_peer_writers (nodes orig)). w \<noteq> orig \<longrightarrow> (tx, orig, e) \<in> updates_sent kind out)"
  proof (cases "kind m")
    case None
    then show ?thesis using other [OF h] changed e(2) id by auto
  next
    case (Some ku)
    then obtain k x where k: "kind m = Some (k, x)" by (cases ku) auto
    have newer: "newer (epochs (nodes orig)) k x" using stale [OF h k] changed by metis
    note up = fresh [OF h k newer]
    have k_orig: "k = orig" using up changed by (auto split: if_splits)
    then have x: "x = e" using up e(2) by simp
    have "p = orig" using own k k_orig by blast
    then show ?thesis using up k_orig x by auto
  qed
  then show "(tx, orig, x) \<in> updates_sent kind out \<Longrightarrow> x = e"
    and "(w, tx) \<in> set (fn_peer_writers (nodes orig)) \<Longrightarrow> w \<noteq> orig \<Longrightarrow> (tx, orig, e) \<in> updates_sent kind out"
    by blast+
qed

lemma flood_from_origin:
  assumes channels: "channelled chan nodes"
    and honest: "\<forall>(q, v, x) \<in> in_flight kind orig fl. covered x (epochs (nodes q) orig)"
    and new: "\<forall>w. \<not> covered e (epochs (nodes w) orig)"
    and h: "handle_event pf ck (ControlMsgReceived p m) (nodes orig) = Ret (n', out)"
    and own: "\<forall>x. kind m = Some (orig, x) \<longrightarrow> p = orig" and e: "epochs n' orig = Some e"
  shows "channelled chan (nodes(orig := n'))" and "state_inv orig e (nodes(orig := n'), fl @ posted chan orig out)"
proof -
  let ?ep = "\<lambda>u. epochs (nodes u) orig" and ?nbrs = "\<lambda>u. peers (nodes u)"
  let ?F' = "in_flight kind orig (fl @ posted chan orig out)"
  show "channelled chan (nodes(orig := n'))" by (rule receive_channelled [OF channels h])
  note sends = origin_sends [OF channels h own new [rule_format] e]
  have start: "flood_inv ?nbrs orig e ?ep (in_flight kind orig fl)"
    using new honest unfolding flood_inv_def by blast
  have F': "?F' = in_flight kind orig fl \<union> {(orig, chan orig tx, x) |tx x. (tx, orig, x) \<in> updates_sent kind out}"
    by (auto simp: in_flight_append in_flight_posted)
  have "(orig, w, e) \<in> ?F'" if "w \<in> ?nbrs orig" "w \<noteq> orig" for w
    using that sends(2) channels unfolding F' by (force simp: peers_def channelled_def)
  then have "flood_inv ?nbrs orig e (?ep(orig := Some e)) ?F'"
    using sends(1) by (intro flood_store [OF start new [rule_format]]) (auto simp: F')
  moreover have "(\<lambda>u. peers ((nodes(orig := n')) u)) = ?nbrs"
    using keeps [OF h] by (simp add: peers_def fun_eq_iff)
  moreover have "(\<lambda>u. epochs ((nodes(orig := n')) u) orig) = ?ep(orig := Some e)" using e by auto
  ultimately show "state_inv orig e (nodes(orig := n'), fl @ posted chan orig out)" by simp
qed

lemma flood_reaches:
  assumes "channelled chan nodes"
    and "\<forall>(q, v, x) \<in> in_flight kind orig fl. covered x (epochs (nodes q) orig)"
    and "\<forall>w. \<not> covered e (epochs (nodes w) orig)"
    and h: "handle_event pf ck (ControlMsgReceived p m) (nodes orig) = Ret (n', out)"
    and "\<forall>x. kind m = Some (orig, x) \<longrightarrow> p = orig" and e: "epochs n' orig = Some e"
    and run: "control_run pf chan (nodes(orig := n'), fl @ posted chan orig out) (nodes', [])"
    and path: "(orig, v) \<in> {(u, w). w \<in> peers (nodes u)}\<^sup>*"
  shows "covered e (epochs (nodes' v) orig)"
proof -
  note start = flood_from_origin [OF assms(1-6)]
  have "covered e (epochs (fst (nodes(orig := n'), fl @ posted chan orig out) orig) orig)"
    using e by (simp add: covered_def)
  then have o: "covered e (epochs (nodes' orig) orig)"
    using control_run_covered [OF run _ start(2)] start(1) by simp
  have same: "peers ((nodes(orig := n')) u) = peers (nodes u)" for u using keeps [OF h] by (simp add: peers_def)
  have "flood_inv (\<lambda>u. peers (nodes' u)) orig e (\<lambda>u. epochs (nodes' u) orig) {}" "\<And>u. peers (nodes' u) = peers (nodes u)"
    using control_run_inv [OF run _ start(2)] start(1) same by auto
  then show ?thesis using flood_end [of "\<lambda>u. peers (nodes' u)" orig e "\<lambda>u. epochs (nodes' u) orig" v] o path by simp
qed

end

section \<open>One subscription on its way through the mesh\<close>

text \<open>
  What a subscription update changes at a node: nothing but the graph, where the subscriber gets a new
  descriptor, the stored epoch and the times at which nodes were seen.
\<close>

definition subscription_descriptor :: "u64 \<Rightarrow> SubscriptionUpdate \<Rightarrow> NodeDescriptor" where
  "subscription_descriptor now u =
     \<lparr>nd_node_id = su_node_id u, nd_role = NODE_ROLE_FLOW, nd_capabilities = subscription_capabilities (su_entries u),
      nd_last_seen = now\<rparr>"

definition has_epoch :: "SubscriptionUpdate \<Rightarrow> ('g, 'l, 'any, 'h) FlowNode \<Rightarrow> bool" where
  "has_epoch u n \<longleftrightarrow> covered (su_epoch u) (hm_get (fn_last_subscription_epochs n) (su_node_id u))"

definition heard_of ::
  "'g graph_ops \<Rightarrow> SubscriptionUpdate \<Rightarrow> ('g, 'l, 'any, 'h) FlowNode \<Rightarrow> ('g, 'l, 'any, 'h) FlowNode \<Rightarrow> bool"
where
  "heard_of ops u n0 n \<longleftrightarrow>
     (\<exists>seen epochs g. n = n0\<lparr>fn_graph := g, fn_last_subscription_epochs := epochs, fn_node_last_seen := seen\<rparr> \<and>
        (if has_epoch u n then \<exists>now. g = add_node ops (fn_graph n0) (subscription_descriptor now u) else g = fn_graph n0))"

lemma heard_of_keeps:
  assumes "heard_of ops u n0 n"
  shows "fn_core n = fn_core n0" "fn_topic_handlers n = fn_topic_handlers n0" "fn_registry n = fn_registry n0"
    "fn_peer_writers n = fn_peer_writers n0" "fn_node_id n = fn_node_id n0" "peers n = peers n0"
  using assms by (auto simp: heard_of_def peers_def)

lemma heard_of_refl: "\<not> has_epoch u n \<Longrightarrow> heard_of ops u n n"
  unfolding heard_of_def by (intro exI [of _ "fn_node_last_seen n"] exI [of _ "fn_last_subscription_epochs n"] exI [of _ "fn_graph n"]) simp

lemma handle_heard:
  assumes "heard_of (pf_graph pf) u n0 n"
  shows "\<exists>n' out. handle_event pf ck (ControlMsgReceived p (Some (CSubscriptionUpdate u))) n = Ret (n', out) \<and>
    heard_of (pf_graph pf) u n0 n' \<and> has_epoch u n' \<and>
    out = (if has_epoch u n then [] else gossip p (su_node_id u) (CSubscriptionUpdate u) n)"
proof -
  obtain seen epochs g where n: "n = n0\<lparr>fn_graph := g, fn_last_subscription_epochs := epochs, fn_node_last_seen := seen\<rparr>"
    and g: "if has_epoch u n then \<exists>now. g = add_node (pf_graph pf) (fn_graph n0) (subscription_descriptor now u) else g = fn_graph n0"
    using assms unfolding heard_of_def by blast
  have fresh: "is_fresh epochs (su_node_id u) (su_epoch u) \<longleftrightarrow> \<not> has_epoch u n"
    by (simp add: n has_epoch_def is_fresh_newer newer_covered)
  define seen' where "seen' = hm_insert (su_node_id u) (ck_instant ck 1) (hm_insert p (ck_instant ck 0) seen)"
  show ?thesis
  proof (cases "has_epoch u n")
    case True
    let ?n' = "n\<lparr>fn_node_last_seen := seen'\<rparr>"
    have "handle_event pf ck (ControlMsgReceived p (Some (CSubscriptionUpdate u))) n = Ret (?n', [])"
      using True fresh by (simp add: handle_event_def on_control_message_def on_subscription_update_def Let_def n seen'_def)
    moreover have "has_epoch u ?n'" using True by (simp add: has_epoch_def)
    moreover have "heard_of (pf_graph pf) u n0 ?n'"
      unfolding heard_of_def
      by (intro exI [of _ seen'] exI [of _ epochs] exI [of _ g]) (use g True \<open>has_epoch u ?n'\<close> in \<open>simp add: n\<close>)
    ultimately show ?thesis using True by auto
  next
    case False
    let ?epochs = "hm_insert (su_node_id u) (su_epoch u) epochs"
    let ?g = "add_node (pf_graph pf) (fn_graph n0) (subscription_descriptor (ck_unix_ms ck) u)"
    let ?n' = "n0\<lparr>fn_graph := ?g, fn_last_subscription_epochs := ?epochs, fn_node_last_seen := seen'\<rparr>"
    have "handle_event pf ck (ControlMsgReceived p (Some (CSubscriptionUpdate u))) n =
        Ret (?n', gossip p (su_node_id u) (CSubscriptionUpdate u) n)"
      using False fresh g by (simp add: handle_event_def on_control_message_def on_subscription_update_def Let_def n seen'_def
          subscription_descriptor_def gossip_def get_peer_writers_def)
    moreover have "has_epoch u ?n'" by (simp add: has_epoch_def covered_def)
    moreover have "heard_of (pf_graph pf) u n0 ?n'"
      unfolding heard_of_def
      by (intro exI [of _ seen'] exI [of _ ?epochs] exI [of _ ?g]) (use \<open>has_epoch u ?n'\<close> in auto)
    ultimately show ?thesis using False by auto
  qed
qed

text \<open>The states of the mesh while only copies of one update are in flight.\<close>

definition spreading ::
  "('g, 'l) platform \<Rightarrow> (string \<Rightarrow> control_sender \<Rightarrow> string) \<Rightarrow> SubscriptionUpdate \<Rightarrow> string set \<Rightarrow>
   (string \<Rightarrow> ('g, 'l, 'any, 'h) FlowNode) \<Rightarrow> (string \<Rightarrow> ('g, 'l, 'any, 'h) FlowNode) \<times> flight list \<Rightarrow> bool"
where
  "spreading pf chan u N nodes0 st \<longleftrightarrow> channelled chan (fst st) \<and> (\<forall>v. heard_of (pf_graph pf) u (nodes0 v) (fst st v)) \<and>
     (\<forall>v \<in> N. peers (nodes0 v) \<subseteq> N) \<and> (\<forall>(p, v, m) \<in> set (snd st). m = Some (CSubscriptionUpdate u) \<and> v \<in> N)"

lemma posted_gossip:
  "(q, w, m) \<in> set (posted chan v (gossip p k payload n)) \<Longrightarrow>
     q = v \<and> m = Some payload \<and> (\<exists>a tx. (a, tx) \<in> set (fn_peer_writers n) \<and> w = chan v tx)"
  by (auto simp: in_posted gossip_def get_peer_writers_def)

lemma spreading_receive:
  assumes inv: "spreading pf chan u N nodes0 (nodes, xs @ (p, v, m) # ys)"
    and h: "handle_event pf ck (ControlMsgReceived p m) (nodes v) = Ret (n', out)"
  shows "spreading pf chan u N nodes0 (nodes(v := n'), xs @ ys @ posted chan v out)" and "has_epoch u n'"
    and "has_epoch u (nodes v) \<Longrightarrow> out = []"
proof -
  have ch: "channelled chan nodes" and heard: "heard_of (pf_graph pf) u (nodes0 v) (nodes v)"
    and m: "m = Some (CSubscriptionUpdate u)" and v: "v \<in> N" "peers (nodes0 v) \<subseteq> N"
    using inv by (auto simp: spreading_def)
  have flights: "\<forall>f \<in> set (xs @ (p, v, m) # ys). case f of (q, w, x) \<Rightarrow> x = Some (CSubscriptionUpdate u) \<and> w \<in> N"
    using inv unfolding spreading_def snd_conv by blast
  have n': "heard_of (pf_graph pf) u (nodes0 v) n'" "has_epoch u n'"
    "out = (if has_epoch u (nodes v) then [] else gossip p (su_node_id u) (CSubscriptionUpdate u) (nodes v))"
    using handle_heard [OF heard, of ck p] h unfolding m by auto
  then show "has_epoch u n'" and "has_epoch u (nodes v) \<Longrightarrow> out = []" by simp_all
  have "w \<in> N \<and> x = Some (CSubscriptionUpdate u)" if "(q, w, x) \<in> set (posted chan v out)" for q w x
  proof -
    have "(q, w, x) \<in> set (posted chan v (gossip p (su_node_id u) (CSubscriptionUpdate u) (nodes v)))"
      using that n'(3) by (auto simp: posted_def split: if_splits)
    then obtain a tx where "(a, tx) \<in> set (fn_peer_writers (nodes v))" "w = chan v tx" "x = Some (CSubscriptionUpdate u)"
      using posted_gossip by fast
    moreover from this have "a \<in> peers (nodes v)" "chan v tx = a"
      using ch by (force simp: peers_def, auto simp: channelled_def)
    ultimately show ?thesis using v(2) heard_of_keeps(6) [OF heard] by auto
  qed
  then have "x = Some (CSubscriptionUpdate u) \<and> w \<in> N" if "(q, w, x) \<in> set (xs @ ys @ posted chan v out)" for q w x
    using bspec [OF flights, of "(q, w, x)"] that by (cases "(q, w, x) \<in> set (posted chan v out)") auto
  then have "\<forall>f \<in> set (xs @ ys @ posted chan v out). case f of (q, w, x) \<Rightarrow> x = Some (CSubscriptionUpdate u) \<and> w \<in> N"
    by (intro ballI) (simp only: split_paired_all prod.case)
  moreover have "heard_of (pf_graph pf) u (nodes0 w) ((nodes(v := n')) w)" for w
    using inv n'(1) by (simp add: spreading_def)
  ultimately show "spreading pf chan u N nodes0 (nodes(v := n'), xs @ ys @ posted chan v out)"
    using inv subscription_flood.receive_channelled [OF ch h] unfolding spreading_def fst_conv snd_conv by (intro conjI allI) simp_all
qed

lemma spreading_run:
  assumes "control_run pf chan st st'" and "spreading pf chan u N nodes0 st"
  shows "spreading pf chan u N nodes0 st'"
  using assms
proof (induction rule: rtranclp_induct)
  case (step st1 st2)
  from step.hyps(2) show ?case
    by cases (use step.IH [OF step.prems] spreading_receive(1) in blast)
qed

lemma spreading_completes:
  assumes "finite N" and "spreading pf chan u N nodes0 st"
  shows "\<exists>nodes'. control_run pf chan st (nodes', [])"
  using assms(2)
proof (induction st rule: wf_induct_rule [OF wf_measures [of "[\<lambda>st. card {v \<in> N. \<not> has_epoch u (fst st v)}, \<lambda>st. length (snd st)]"]])
  case (1 st)
  show ?case
  proof (cases "snd st")
    case Nil
    then show ?thesis by (metis prod.collapse rtranclp.rtrancl_refl)
  next
    case (Cons f ys)
    obtain p v m where f: "f = (p, v, m)" by (cases f)
    obtain nodes where st: "st = (nodes, [] @ (p, v, m) # ys)" using Cons f by (cases st) auto
    have m: "m = Some (CSubscriptionUpdate u)" and v: "v \<in> N" and heard: "heard_of (pf_graph pf) u (nodes0 v) (nodes v)"
      using 1(2) by (auto simp: spreading_def st)
    obtain n' out where h: "handle_event pf undefined (ControlMsgReceived p m) (nodes v) = Ret (n', out)"
      using handle_heard [OF heard] unfolding m by blast
    note next_st = spreading_receive [OF 1(2) [unfolded st] h]
    have step: "control_step pf chan st (nodes(v := n'), [] @ ys @ posted chan v out)"
      unfolding st by (rule control_step.receive [of pf undefined p m nodes v n' out chan "[]" ys, OF h])
    have "((nodes(v := n'), [] @ ys @ posted chan v out), st) \<in> measures [\<lambda>st. card {v \<in> N. \<not> has_epoch u (fst st v)}, \<lambda>st. length (snd st)]"
    proof (cases "has_epoch u (nodes v)")
      case True
      have "{w \<in> N. \<not> has_epoch u ((nodes(v := n')) w)} = {w \<in> N. \<not> has_epoch u (nodes w)}"
        using True next_st(2) by auto
      then show ?thesis using next_st(3) [OF True] by (simp add: st posted_def)
    next
      case False
      then have "{w \<in> N. \<not> has_epoch u ((nodes(v := n')) w)} \<subset> {w \<in> N. \<not> has_epoch u (nodes w)}"
        using next_st(2) v by auto
      then have "card {w \<in> N. \<not> has_epoch u ((nodes(v := n')) w)} < card {w \<in> N. \<not> has_epoch u (nodes w)}"
        using assms(1) by (intro psubset_card_mono) auto
      then show ?thesis by (simp add: st)
    qed
    from 1(1) [OF this next_st(1)] step show ?thesis by (meson converse_rtranclp_into_rtranclp)
  qed
qed

section \<open>Properties\<close>

text \<open>What a node that has heard of a subscription knows: the subscriber, and the same links and costs as before.\<close>

lemma heard_subscriber:
  assumes "heard_of ops u n0 n" and "has_epoch u n" and "se \<in> set (su_entries u)" and "se_action se = SUBSCRIBE"
    and "match_topic (se_pattern se) topic"
  shows "su_node_id u \<in> set (subscribers_of topic (gg_node_metadata (fn_graph n)))"
proof -
  obtain now where g: "fn_graph n = add_node ops (fn_graph n0) (subscription_descriptor now u)"
    using assms(1,2) by (auto simp: heard_of_def)
  let ?d = "subscription_descriptor now u"
  have "(su_node_id u, ?d) \<in> set (gg_node_metadata (fn_graph n))"
    by (rule hm_get_in) (simp add: g subscription_descriptor_def)
  moreover have "''sub:'' @ se_pattern se \<in> fst ` set (nd_capabilities ?d)"
    using assms(3,4) by (auto simp: subscription_descriptor_def subscription_capabilities_keys)
  moreover have "matches_capability topic (''sub:'' @ se_pattern se)"
    using assms(5) by (simp add: matches_capability_def)
  ultimately show ?thesis unfolding set_subscribers_of by blast
qed

context topology_graph
begin

lemma heard_topology:
  assumes "heard_of ops u n0 n" and "has_epoch u n" and "wf (fn_graph n0)"
    and "aggregator_penalty (topo (fn_graph n0)) (su_node_id u) = 0"
  shows "wf (fn_graph n)" and "t_link (topo (fn_graph n)) = t_link (topo (fn_graph n0))"
    and "mesh_cost (topo (fn_graph n)) = mesh_cost (topo (fn_graph n0))"
proof -
  obtain now where g: "fn_graph n = add_node ops (fn_graph n0) (subscription_descriptor now u)"
    using assms(1,2) by (auto simp: heard_of_def)
  note added = add_node_correct [OF assms(3), of "subscription_descriptor now u", folded g]
  show "wf (fn_graph n)" by (rule added(1))
  show "t_link (topo (fn_graph n)) = t_link (topo (fn_graph n0))" by (simp add: added(2) topo_add_node_def)
  have "aggregator_penalty (topo (fn_graph n)) v = aggregator_penalty (topo (fn_graph n0)) v" for v
    using assms(4) by (simp add: added(2) topo_add_node_def aggregator_penalty_def subscription_descriptor_def)
  then show "mesh_cost (topo (fn_graph n)) = mesh_cost (topo (fn_graph n0))"
    by (simp add: mesh_cost_def added(2) topo_add_node_def fun_eq_iff)
qed

end

text \<open>The subscription as the subscriber sees it: the task queues an update with the next epoch.\<close>

definition own_update :: "string \<Rightarrow> ('g, 'l, 'any, 'h) FlowNode \<Rightarrow> SubscriptionUpdate" where
  "own_update pattern n = \<lparr>su_node_id = fn_node_id n, su_entries = subscribe_entries (hs_insert pattern (fn_local_subscriptions n)),
     su_epoch = epoch_of (fn_last_subscription_epochs n) (fn_node_id n) + 1\<rparr>"

lemma subscribe_queues:
  assumes "unat (epoch_of (fn_last_subscription_epochs n) (fn_node_id n)) + 1 < 2 ^ 64"
  shows "subscribe_task checks pattern (subscribe pattern h n) =
    Ret ((subscribe pattern h n)\<lparr>fn_local_subscriptions := hs_insert pattern (fn_local_subscriptions n)\<rparr>,
      [Enqueue (ControlMsgReceived (fn_node_id n) (Some (CSubscriptionUpdate (own_update pattern n))))])"
  using assms by (simp add: subscribe_task_def subscribe_def own_update_def Let_def rust_add_def overflows_def)

lemma find_updated:
  assumes "P k" and "\<forall>(k', v') \<in> set m. P k' \<longrightarrow> k' = k"
  shows "find (\<lambda>(k', _). P k') (hm_insert k v m) = Some (k, v)"
  using assms(2) unfolding hm_insert_def by (induction m) (use assms(1) in auto)

lemma subscriber_handles:
  assumes "fn_topic_handlers n = hm_insert pattern h hs" and "match_topic pattern topic"
    and "\<forall>(p, _) \<in> set hs. match_topic p topic \<longrightarrow> p = pattern" and "registry_decode (fn_registry n) message_type payload = Inr decoded"
  shows "deliver_local flow topic message_type payload n = [HandleMessage h flow topic decoded]"
  using find_updated [of "\<lambda>p. match_topic p topic" pattern hs h] assms
  by (simp add: deliver_local_def matched_handler_def)

lemma wired_heard:
  assumes "wired nodes link topo" and "channelled chan nodes'" and "\<And>v. fn_core (nodes' v) = fn_core (nodes v)"
    and "t_link topo' = t_link topo"
  shows "wired nodes' link topo'"
  using assms by (auto simp: wired_def channelled_def find_conn_def)

text \<open>The subscription spreads: it starts at the subscriber, can come to rest, and is then known wherever the peers lead.\<close>

lemma subscription_spreads:
  fixes nodes :: "string \<Rightarrow> ('g, 'l, 'any, 'h) FlowNode"
  assumes channels: "channelled chan nodes" and N: "finite N" "sub \<in> N" "\<forall>v \<in> N. peers (nodes v) \<subseteq> N"
    and n1: "peers n1 = peers (nodes sub)" "fn_node_id n1 = sub" "fn_peer_writers n1 = fn_peer_writers (nodes sub)"
      "fn_last_subscription_epochs n1 = fn_last_subscription_epochs (nodes sub)"
    and u: "su_node_id u = sub" "\<forall>v. \<not> has_epoch u (nodes v)"
  shows "\<exists>n2 out. handle_event pf ck (ControlMsgReceived sub (Some (CSubscriptionUpdate u))) n1 = Ret (n2, out) \<and>
    (\<exists>nodes'. control_run pf chan (nodes(sub := n2), posted chan sub out) (nodes', [])) \<and>
    (\<forall>nodes'. control_run pf chan (nodes(sub := n2), posted chan sub out) (nodes', []) \<longrightarrow>
       channelled chan nodes' \<and> (\<forall>v. heard_of (pf_graph pf) u ((nodes(sub := n1)) v) (nodes' v)) \<and>
       (\<forall>v. (sub, v) \<in> {(a, b). b \<in> peers (nodes a)}\<^sup>* \<longrightarrow> has_epoch u (nodes' v)))"
proof -
  let ?base = "nodes(sub := n1)" and ?m = "Some (CSubscriptionUpdate u)"
  have new: "\<not> has_epoch u (?base v)" for v using u(2) n1(4) by (simp add: has_epoch_def)
  have base: "channelled chan ?base" using channels n1 by (auto simp: channelled_def)
  have nbrs: "peers (?base v) = peers (nodes v)" for v using n1(1) by simp
  have start: "spreading pf chan u N ?base (?base, [] @ (sub, sub, ?m) # [])"
    using base heard_of_refl [OF new] N nbrs by (simp add: spreading_def)
  obtain n2 out where h: "handle_event pf ck (ControlMsgReceived sub ?m) (?base sub) = Ret (n2, out)"
    using handle_heard [OF heard_of_refl [OF new]] by blast
  note first = spreading_receive [OF start h, unfolded fun_upd_upd append_Nil]
  have run: "\<exists>nodes'. control_run pf chan (nodes(sub := n2), posted chan sub out) (nodes', [])"
    by (rule spreading_completes [OF N(1) first(1)])
  have fresh: "\<forall>v. \<not> covered (su_epoch u) (hm_get (fn_last_subscription_epochs (?base v)) sub)"
    using new u(1) unfolding has_epoch_def by blast
  have stored: "hm_get (fn_last_subscription_epochs n2) sub = Some (su_epoch u)"
    using handle_message_subscription(1) [OF h, of sub "su_epoch u"] new [of sub] u(1)
    by (simp add: subscription_of_def has_epoch_def newer_covered)
  have "channelled chan nodes' \<and> (\<forall>v. heard_of (pf_graph pf) u (?base v) (nodes' v)) \<and>
       (\<forall>v. (sub, v) \<in> {(a, b). b \<in> peers (nodes a)}\<^sup>* \<longrightarrow> has_epoch u (nodes' v))"
    if "control_run pf chan (nodes(sub := n2), posted chan sub out) (nodes', [])" for nodes'
  proof (intro conjI allI impI)
    have run': "control_run pf chan (?base(sub := n2), [] @ posted chan sub out) (nodes', [])"
      using that unfolding fun_upd_upd append_Nil .
    have "spreading pf chan u N ?base (nodes', [])" by (rule spreading_run [OF that first(1)])
    then show "channelled chan nodes'" and "heard_of (pf_graph pf) u (?base v) (nodes' v)" for v
      by (simp_all add: spreading_def)
    fix v assume "(sub, v) \<in> {(a, b). b \<in> peers (nodes a)}\<^sup>*"
    then have path: "(sub, v) \<in> {(a, b). b \<in> peers (?base a)}\<^sup>*" by (simp only: nbrs)
    have "covered (su_epoch u) (hm_get (fn_last_subscription_epochs (nodes' v)) sub)"
      by (rule subscription_flood.flood_reaches [OF base _ fresh h _ stored run' path]) simp_all
    then show "has_epoch u (nodes' v)" by (simp add: has_epoch_def u(1))
  qed
  with h run show ?thesis by auto
qed

text \<open>Once publisher and subscriber have heard of it, a message goes from one to the other.\<close>

lemma publish_after_subscription:
  fixes nodes nodes' :: "string \<Rightarrow> ('g, 'l, 'any, 'h) FlowNode"
  assumes graph: "topology_graph (pf_graph pf) wts edge ginv" and channels: "channelled chan nodes'"
    and core: "\<And>v. fn_core (nodes' v) = fn_core (nodes v)"
    and heard: "heard_of (pf_graph pf) u (nodes pub) (nodes' pub)" "has_epoch u (nodes' pub)"
    and u: "su_node_id u = sub" "se \<in> set (su_entries u)" "se_action se = SUBSCRIBE" "match_topic (se_pattern se) topic"
    and pub: "pub \<noteq> sub" "gg_wf wts edge ginv (fn_graph (nodes pub))" "wired nodes link (topology_of edge (fn_graph (nodes pub)))"
      "fits_u32 (mesh_cost (topology_of edge (fn_graph (nodes pub)))) pub"
      "walk (mesh_cost (topology_of edge (fn_graph (nodes pub)))) pub sub k"
      "aggregator_penalty (topology_of edge (fn_graph (nodes pub))) sub = 0"
    and deliver: "deliver_local flow topic message_type payload (nodes' sub) = hs"
  shows "\<exists>effects. publish pf nonce now flow topic message_type codec payload (nodes' pub) = Some (Ret effects) \<and>
    (\<exists>trace. data_run nodes' link (arrivals link pub effects, []) ([], trace)) \<and>
    (\<forall>trace. data_run nodes' link (arrivals link pub effects, []) ([], trace) \<longrightarrow>
      distinct (map fst trace) \<and> (sub, hs) \<in> set trace)"
proof -
  note topo = topology_graph.heard_topology [OF graph heard pub(2)]
  have cost: "mesh_cost (topology_of edge (fn_graph (nodes' pub))) = mesh_cost (topology_of edge (fn_graph (nodes pub)))"
    using topo(3) pub(6) u(1) by simp
  have wired: "wired nodes' link (topology_of edge (fn_graph (nodes' pub)))"
    using topo(2) pub(6) u(1) by (intro wired_heard [OF pub(3) channels core]) simp
  have subscriber: "sub \<in> set (subscribers_of topic (gg_node_metadata (fn_graph (nodes' pub))))"
    using heard_subscriber [OF heard u(2-4)] u(1) by simp
  have wf: "gg_wf wts edge ginv (fn_graph (nodes' pub))" using topo(1) pub(6) u(1) by simp
  have fits: "fits_u32 (mesh_cost (topology_of edge (fn_graph (nodes' pub)))) pub" using pub(4) unfolding cost .
  obtain effects where eff: "publish pf nonce now flow topic message_type codec payload (nodes' pub) = Some (Ret effects)"
      "\<exists>trace. data_run nodes' link (arrivals link pub effects, []) ([], trace)"
    and relay: "\<forall>flight trace. data_run nodes' link (arrivals link pub effects, []) (flight, trace) \<longrightarrow>
       distinct (map fst trace) \<and> pub \<notin> fst ` set trace \<and>
       (\<forall>(v, hs) \<in> set trace. hs = deliver_local flow topic message_type payload (nodes' v)) \<and>
       (flight = [] \<longrightarrow> (\<forall>s k. s \<in> set (subscribers_of topic (gg_node_metadata (fn_graph (nodes' pub)))) \<and> s \<noteq> pub \<and>
          walk (mesh_cost (topology_of edge (fn_graph (nodes' pub)))) pub s k \<longrightarrow> s \<in> fst ` set trace))"
    using publish_relayed [OF graph wf fits wired, of nonce now flow topic message_type codec payload]
    by (elim exE conjE) (rule that; (assumption | erule exI))
  have arrives: "distinct (map fst trace) \<and> (sub, hs) \<in> set trace"
    if "data_run nodes' link (arrivals link pub effects, []) ([], trace)" for trace
  proof -
    note r = relay [rule_format, OF that]
    then have "sub \<in> fst ` set trace" using subscriber pub(1,5) unfolding cost by blast
    then obtain hs' where hs': "(sub, hs') \<in> set trace" by auto
    with r have "hs' = deliver_local flow topic message_type payload (nodes' sub)" by fastforce
    with hs' r deliver show ?thesis by simp
  qed
  show ?thesis by (rule exI, rule conjI [OF eff(1) conjI [OF eff(2)]]) (intro allI impI, erule arrives)
qed

text \<open>A mesh of three nodes in a line, whose peers are the neighbours; the last one can decode messages of one type.\<close>

definition line_peers :: "string \<Rightarrow> (string \<times> control_sender) list" where
  "line_peers u = (if u = ''s'' then [(''a'', 1)] else if u = ''a'' then [(''s'', 0), (''b'', 2)]
     else if u = ''b'' then [(''a'', 1)] else [])"

definition line_nodes :: "string \<Rightarrow> ((string, LinkWeight) vgraph, unit, bytes, nat) FlowNode" where
  "line_nodes u = (relay_nodes u)\<lparr>fn_graph := mesh_after demo_update, fn_peer_writers := line_peers u,
     fn_registry := register id registry_new ''m'' Inr\<rparr>"

lemma line_node:
  "fn_node_id (line_nodes u) = u" "fn_peer_writers (line_nodes u) = line_peers u" "fn_graph (line_nodes u) = mesh_after demo_update"
  "fn_last_subscription_epochs (line_nodes u) = []" "fn_topic_handlers (line_nodes u) = []"
  "fn_registry (line_nodes u) = register id registry_new ''m'' Inr" "fn_core (line_nodes u) = fn_core (relay_nodes u)"
  "fn_local_subscriptions (line_nodes u) = []"
  by (simp_all add: line_nodes_def relay_nodes_def demo_flow_def flow_new_def Let_def)

lemma line_channelled: "channelled relay_link line_nodes"
  by (auto simp: channelled_def line_node line_peers_def relay_link_def)

lemma line_closed: "\<forall>v \<in> {''s'', ''a'', ''b''}. peers (line_nodes v) \<subseteq> {''s'', ''a'', ''b''}"
  by (simp add: peers_def line_node line_peers_def)

lemma line_path: "(''b'', ''s'') \<in> {(a, b). b \<in> peers (line_nodes a)}\<^sup>*"
proof -
  have "(''b'', ''a'') \<in> {(a, b). b \<in> peers (line_nodes a)}" "(''a'', ''s'') \<in> {(a, b). b \<in> peers (line_nodes a)}"
    by (simp_all add: peers_def line_node line_peers_def)
  then show ?thesis by (meson rtrancl.rtrancl_refl rtrancl.rtrancl_into_rtrancl)
qed

lemma line_wired: "wired line_nodes relay_link (topology_of vg_edge (mesh_after demo_update))"
proof -
  have "t_link (topology_of vg_edge (mesh_after demo_update)) = t_link (topology_of vg_edge (mesh_after relay_update))"
    by (simp add: mesh_after_correct relay_topology fun_eq_iff)
  then show ?thesis by (intro wired_heard [OF relay_wired line_channelled]) (simp_all add: line_node)
qed

text \<open>
  C3: a subscription made anywhere in the mesh makes messages arrive that are published anywhere in
  it. Let a node subscribe to a pattern, and suppose no node knows a later epoch of it than itself.
  The announcement can spread until nothing is in flight. Whatever the order in which its copies
  arrived, a node that is connected to the subscriber through peers can then publish a message on a
  matching topic: if its graph has a path to the subscriber, whose links are connections, the message
  is forwarded to the subscriber, arrives there exactly once, and is handed, decoded, to the handler
  of the subscription.
\<close>

theorem subscription_delivers:
  fixes nodes :: "string \<Rightarrow> ('g, 'l, 'any, 'h) FlowNode"
  assumes graph: "topology_graph (pf_graph pf) wts edge ginv"
    and channels: "channelled chan nodes" and N: "finite N" "sub \<in> N" "\<forall>v \<in> N. peers (nodes v) \<subseteq> N"
    and epochs: "\<forall>v e. hm_get (fn_last_subscription_epochs (nodes v)) sub = Some e \<longrightarrow>
        e \<le> epoch_of (fn_last_subscription_epochs (nodes sub)) sub"
      "unat (epoch_of (fn_last_subscription_epochs (nodes sub)) sub) + 1 < 2 ^ 64"
    and pub: "(sub, pub) \<in> {(a, b). b \<in> peers (nodes a)}\<^sup>*" "pub \<noteq> sub" "gg_wf wts edge ginv (fn_graph (nodes pub))"
      "wired nodes link (topology_of edge (fn_graph (nodes pub)))"
      "fits_u32 (mesh_cost (topology_of edge (fn_graph (nodes pub)))) pub"
      "walk (mesh_cost (topology_of edge (fn_graph (nodes pub)))) pub sub k"
      "aggregator_penalty (topology_of edge (fn_graph (nodes pub))) sub = 0"
    and handler: "match_topic pattern topic" "\<forall>(p, _) \<in> set (fn_topic_handlers (nodes sub)). match_topic p topic \<longrightarrow> p = pattern"
      "registry_decode (fn_registry (nodes sub)) message_type payload = Inr decoded"
  shows "\<exists>n1 event n2 out. subscribe_task (pf_checks pf) pattern (subscribe pattern h (nodes sub)) = Ret (n1, [Enqueue event]) \<and>
    handle_event pf ck event n1 = Ret (n2, out) \<and>
    (\<exists>nodes'. control_run pf chan (nodes(sub := n2), posted chan sub out) (nodes', [])) \<and>
    (\<forall>nodes'. control_run pf chan (nodes(sub := n2), posted chan sub out) (nodes', []) \<longrightarrow>
      (\<exists>effects. publish pf nonce now flow topic message_type codec payload (nodes' pub) = Some (Ret effects) \<and>
        (\<exists>trace. data_run nodes' link (arrivals link pub effects, []) ([], trace)) \<and>
        (\<forall>trace. data_run nodes' link (arrivals link pub effects, []) ([], trace) \<longrightarrow>
          distinct (map fst trace) \<and> (sub, [HandleMessage h flow topic decoded]) \<in> set trace)))"
proof -
  let ?u = "own_update pattern (nodes sub)"
  let ?n1 = "(subscribe pattern h (nodes sub))\<lparr>fn_local_subscriptions := hs_insert pattern (fn_local_subscriptions (nodes sub))\<rparr>"
  have id: "fn_node_id (nodes sub) = sub" using channels by (simp add: channelled_def)
  have entry: "\<lparr>se_flow_id = '''', se_pattern = pattern, se_action = SUBSCRIBE\<rparr> \<in> set (su_entries ?u)" "su_node_id ?u = sub"
    by (simp_all add: own_update_def subscribe_entries_def id)
  have later: "epoch_of (fn_last_subscription_epochs (nodes sub)) sub < su_epoch ?u"
    using epochs(2) by (simp add: own_update_def id word_less_nat_alt unat_word_ariths)
  have new: "\<forall>v. \<not> has_epoch ?u (nodes v)"
    unfolding has_epoch_def covered_def entry(2) using epochs(1) later by (meson le_less_trans not_le)
  have n1: "peers ?n1 = peers (nodes sub)" "fn_node_id ?n1 = sub" "fn_peer_writers ?n1 = fn_peer_writers (nodes sub)"
    "fn_last_subscription_epochs ?n1 = fn_last_subscription_epochs (nodes sub)"
    by (simp_all add: subscribe_def peers_def id)
  have queued: "subscribe_task (pf_checks pf) pattern (subscribe pattern h (nodes sub)) =
      Ret (?n1, [Enqueue (ControlMsgReceived sub (Some (CSubscriptionUpdate ?u)))])"
    by (rule subscribe_queues [where n = "nodes sub", unfolded id, OF epochs(2)])
  obtain n2 out where n2: "handle_event pf ck (ControlMsgReceived sub (Some (CSubscriptionUpdate ?u))) ?n1 = Ret (n2, out)"
    and rest: "\<exists>nodes'. control_run pf chan (nodes(sub := n2), posted chan sub out) (nodes', [])"
    and known: "\<forall>nodes'. control_run pf chan (nodes(sub := n2), posted chan sub out) (nodes', []) \<longrightarrow>
       channelled chan nodes' \<and> (\<forall>v. heard_of (pf_graph pf) ?u ((nodes(sub := ?n1)) v) (nodes' v)) \<and>
       (\<forall>v. (sub, v) \<in> {(a, b). b \<in> peers (nodes a)}\<^sup>* \<longrightarrow> has_epoch ?u (nodes' v))"
    using subscription_spreads [OF channels N n1 entry(2) new, of pf ck] by (elim exE conjE) (rule that; (assumption | erule exI))
  have main: "\<exists>effects. publish pf nonce now flow topic message_type codec payload (nodes' pub) = Some (Ret effects) \<and>
        (\<exists>trace. data_run nodes' link (arrivals link pub effects, []) ([], trace)) \<and>
        (\<forall>trace. data_run nodes' link (arrivals link pub effects, []) ([], trace) \<longrightarrow>
          distinct (map fst trace) \<and> (sub, [HandleMessage h flow topic decoded]) \<in> set trace)"
    if "control_run pf chan (nodes(sub := n2), posted chan sub out) (nodes', [])" for nodes'
  proof -
    note k = known [rule_format, OF that]
    have heard: "heard_of (pf_graph pf) ?u ((nodes(sub := ?n1)) v) (nodes' v)" for v using k by blast
    have pub_heard: "heard_of (pf_graph pf) ?u (nodes pub) (nodes' pub)" "has_epoch ?u (nodes' pub)"
      using heard [of pub] pub(2) conjunct2 [OF conjunct2 [OF k]] pub(1) by simp_all
    have core: "fn_core (nodes' v) = fn_core (nodes v)" for v
      using heard_of_keeps(1) [OF heard, of v] by (simp add: subscribe_def split: if_splits)
    have deliver: "deliver_local flow topic message_type payload (nodes' sub) = [HandleMessage h flow topic decoded]"
      by (rule subscriber_handles [OF _ handler(1,2)])
        (use handler(3) heard_of_keeps(2,3) [OF heard, of sub] in \<open>simp_all add: subscribe_def\<close>)
    show ?thesis
      by (rule publish_after_subscription [OF graph conjunct1 [OF k] core pub_heard entry(2,1) _ _ pub(2-) deliver])
        (simp_all add: handler(1))
  qed
  show ?thesis
    by (rule exI, rule exI, rule exI, rule exI, rule conjI [OF queued conjI [OF n2 conjI [OF rest]]]) (intro allI impI, erule main)
qed

theorem subscription_delivers_witness:
  "\<exists>n1 event n2 out nodes' effects trace.
    subscribe_task True ''t'' (subscribe ''t'' 5 (line_nodes ''b'')) = Ret (n1, [Enqueue event]) \<and>
    handle_event (demo_pf True) demo_clock event n1 = Ret (n2, out) \<and>
    control_run (demo_pf True) relay_link (line_nodes(''b'' := n2), posted relay_link ''b'' out) (nodes', []) \<and>
    publish (demo_pf True) ''n'' 0 ''f'' ''t'' ''m'' 0 [1] (nodes' ''s'') = Some (Ret effects) \<and>
    data_run nodes' relay_link (arrivals relay_link ''s'' effects, []) ([], trace) \<and>
    (''b'', [HandleMessage 5 ''f'' ''t'' [1]]) \<in> set trace"
proof -
  obtain k where walk: "walk (mesh_cost (topology_of vg_edge (mesh_after demo_update))) ''s'' ''b'' k"
    using demo_shortest by (auto simp: shortest_def)
  have match: "match_topic ''t'' ''t''" by (simp add: match_topic_def match_loop_drop levels_match_def level_matches_def)
  have graph: "topology_graph (pf_graph (demo_pf True)) fst vg_edge vg_inv" "pf_checks (demo_pf True)"
    using vtopo.topology_graph_axioms by (simp_all add: demo_pf_def)
  have pub: "gg_wf fst vg_edge vg_inv (fn_graph (line_nodes ''s''))"
    "wired line_nodes relay_link (topology_of vg_edge (fn_graph (line_nodes ''s'')))"
    "fits_u32 (mesh_cost (topology_of vg_edge (fn_graph (line_nodes ''s'')))) ''s''"
    "walk (mesh_cost (topology_of vg_edge (fn_graph (line_nodes ''s'')))) ''s'' ''b'' k"
    "aggregator_penalty (topology_of vg_edge (fn_graph (line_nodes ''s''))) ''b'' = 0"
    using mesh_after_correct(1) line_wired demo_fits walk by (simp_all add: line_node mesh_after_correct demo_topology)
  have decode: "registry_decode (fn_registry (line_nodes ''b'')) ''m'' [1] = Inr [1]"
    by (simp add: line_node registry_decode_def register_def)
  note delivers = subscription_delivers [where N = "{''s'', ''a'', ''b''}" and ck = demo_clock and nonce = "''n''" and now = 0 and
      flow = "''f''" and codec = 0 and h = 5, OF graph(1) line_channelled _ _ line_closed _ _ line_path _ pub match _ decode]
  then show ?thesis using graph(2) by (simp add: line_node epoch_of_def) blast
qed

text \<open>
  C12: every announcement of a node reaches all nodes that are connected to it. Let a node store a new
  epoch of its own, by announcing its subscriptions or, in a build that checks for overflow, a link
  that a pong has shown; suppose no node knows of that epoch yet, and whatever else is in flight
  about the node was sent by nodes that have stored what they sent. Then, whatever messages of any kind are in
  flight and in whatever order messages are handled, when nothing is in flight any more every node
  to which peers lead from the origin has stored this epoch or a later one.
\<close>

theorem announcements_flood:
  fixes nodes :: "string \<Rightarrow> ('g, 'l, 'any, 'h) FlowNode"
  assumes "(kind, epochs) = (subscription_of, \<lambda>n. hm_get (fn_last_subscription_epochs n)) \<or>
      (kind, epochs) = (topology_update_of, \<lambda>n. hm_get (fn_last_epochs n)) \<and> pf_checks pf"
    and "channelled chan nodes"
    and "\<forall>(p, v, x) \<in> in_flight kind orig fl. covered x (epochs (nodes p) orig)"
    and "\<forall>v. \<not> covered e (epochs (nodes v) orig)"
    and "handle_event pf ck (ControlMsgReceived p m) (nodes orig) = Ret (n', out)"
    and "\<forall>x. kind m = Some (orig, x) \<longrightarrow> p = orig" and "epochs n' orig = Some e"
    and "control_run pf chan (nodes(orig := n'), fl @ posted chan orig out) (nodes', [])"
    and "(orig, v) \<in> {(a, b). b \<in> peers (nodes a)}\<^sup>*"
  shows "\<exists>e0. epochs (nodes' v) orig = Some e0 \<and> e \<le> e0"
proof -
  have "epoch_flood pf kind epochs"
    using assms(1) topology_flood subscription_flood.epoch_flood_axioms by auto
  from epoch_flood.flood_reaches [OF this assms(2-9)] show ?thesis by (simp add: covered_def)
qed

theorem announcements_flood_witness:
  "\<exists>n2 out nodes'. handle_event (demo_pf True) demo_clock (ControlMsgReceived ''b'' (Some (CSubscriptionUpdate
       (own_update ''t'' (line_nodes ''b''))))) (line_nodes ''b'') = Ret (n2, out) \<and>
     control_run (demo_pf True) relay_link (line_nodes(''b'' := n2), [] @ posted relay_link ''b'' out) (nodes', []) \<and>
     (\<exists>e0. hm_get (fn_last_subscription_epochs (nodes' ''s'')) ''b'' = Some e0 \<and> 1 \<le> e0)"
proof -
  let ?u = "own_update ''t'' (line_nodes ''b'')"
  have u: "su_node_id ?u = ''b''" "su_epoch ?u = 1" by (simp_all add: own_update_def line_node epoch_of_def)
  have new: "\<forall>v. \<not> has_epoch ?u (line_nodes v)" by (simp add: has_epoch_def covered_def line_node)
  obtain n2 out nodes' where h: "handle_event (demo_pf True) demo_clock (ControlMsgReceived ''b'' (Some (CSubscriptionUpdate ?u)))
        (line_nodes ''b'') = Ret (n2, out)"
    and run: "control_run (demo_pf True) relay_link (line_nodes(''b'' := n2), posted relay_link ''b'' out) (nodes', [])"
    using subscription_spreads [OF line_channelled _ _ line_closed refl line_node(1) refl refl u(1) new, of "demo_pf True" demo_clock]
    by auto
  have stored: "hm_get (fn_last_subscription_epochs n2) ''b'' = Some 1"
    using handle_message_subscription(1) [OF h, of "''b''" 1] u by (simp add: subscription_of_def newer_def line_node)
  have "\<exists>e0. hm_get (fn_last_subscription_epochs (nodes' ''s'')) ''b'' = Some e0 \<and> 1 \<le> e0"
    by (rule announcements_flood [where fl = "[]", OF disjI1 [OF refl] line_channelled _ _ h _ stored _ line_path])
      (use run in \<open>simp_all add: covered_def line_node\<close>)
  with h run show ?thesis by auto
qed

end
