(* ===== verification/Tower_Codec.thy ===== *)
theory Tower_Codec
  imports Framing Connections
begin

text \<open>
  The wire level of the request/response layer: \<^verbatim>\<open>stric-tower/src/error.rs\<close>, \<^verbatim>\<open>codec.rs\<close>, the
  messages of \<^verbatim>\<open>proto/stric_tower_wire.proto\<close> and the operations of \<^verbatim>\<open>BiStream\<close>
  (\<^verbatim>\<open>stric-core/src/stream.rs\<close>) they use. Serialisers are arguments; the locale \<open>payload_format\<close>
  says what is relied on.
\<close>

section \<open>Errors\<close>

text \<open>\<^verbatim>\<open>TowerError\<close>, with the errors of other libraries by their message.\<close>

datatype TowerError =
    TE_Io string
  | TE_Write string
  | TE_Read string
  | TE_ReadExact string
  | TE_Connection string
  | TE_Closed
  | TE_Codec string
  | TE_ProstDecode string
  | TE_ProstEncode string
  | TE_Bincode string
  | TE_Service string
  | TE_Anyhow string
  | TE_Internal string
  | TE_Unknown

section \<open>Streams\<close>

text \<open>
  The sending half of a stream: what was written, how much the transport takes before it fails
  (\<open>None\<close>: it does not fail), and whether the half is finished. The receiving half is what the peer
  sends from here on.
\<close>

record SendHalf =
  sh_written :: bytes
  sh_limit :: "nat option"
  sh_finished :: bool

type_synonym stream = "(SendHalf, bytes) BiStream"

text \<open>An operation on a stream: its result, and the stream it leaves.\<close>

type_synonym 'a tower_io = "stream \<Rightarrow> (TowerError + 'a) \<times> stream"

definition io_return :: "'a \<Rightarrow> 'a tower_io" where
  "io_return x st = (Inr x, st)"

definition io_bind :: "'a tower_io \<Rightarrow> ('a \<Rightarrow> 'b tower_io) \<Rightarrow> 'b tower_io" where
  "io_bind m f st = (case m st of (Inl e, st') \<Rightarrow> (Inl e, st') | (Inr x, st') \<Rightarrow> f x st')"

definition io_lift :: "TowerError + 'a \<Rightarrow> 'a tower_io" where
  "io_lift r st = (r, st)"

definition bi_write_all :: "bytes \<Rightarrow> unit tower_io" where
  "bi_write_all buf st =
     (let h = bi_send_stream st; written = sh_written h @ buf in
      if sh_finished h \<or> (case sh_limit h of Some limit \<Rightarrow> limit < length written | None \<Rightarrow> False)
      then (Inl (TE_Write ''stopped''), st)
      else (Inr (), st\<lparr>bi_send_stream := h\<lparr>sh_written := written\<rparr>\<rparr>))"

definition bi_read_exact :: "nat \<Rightarrow> bytes tower_io" where
  "bi_read_exact n st =
     (case read_exact n (bi_recv_stream st) of
        Inl _ \<Rightarrow> (Inl (TE_ReadExact ''finished early''), st\<lparr>bi_recv_stream := []\<rparr>)
      | Inr (buf, rest) \<Rightarrow> (Inr buf, st\<lparr>bi_recv_stream := rest\<rparr>))"

definition bi_finish :: "unit tower_io" where
  "bi_finish st =
     (let h = bi_send_stream st in
      if sh_finished h then (Inl TE_Closed, st) else (Inr (), st\<lparr>bi_send_stream := h\<lparr>sh_finished := True\<rparr>\<rparr>))"

section \<open>Length-prefixed buffers\<close>

definition write_length_prefixed :: "bytes \<Rightarrow> unit tower_io" where
  "write_length_prefixed buf =
     (let len = (of_nat (length buf) :: u32)
      in io_bind (bi_write_all (to_be_bytes len)) (\<lambda>_. bi_write_all buf))"

definition read_length_prefixed :: "bytes tower_io" where
  "read_length_prefixed =
     io_bind (bi_read_exact 4) (\<lambda>len_buf. bi_read_exact (unat (from_be_bytes len_buf)))"

section \<open>Codecs\<close>

text \<open>
  \<^verbatim>\<open>ProstCodec\<close> and \<^verbatim>\<open>SerdeCodec\<close>: encoding and decoding of requests and of responses is the same
  code at two types. \<open>encode\<close> and \<open>decode\<close> are the methods of \<^verbatim>\<open>prost::Message\<close>, \<open>serialize\<close> and
  \<open>deserialize\<close> those of the \<^verbatim>\<open>SerdeFormat\<close>.
\<close>

definition prost_encode :: "('a \<Rightarrow> string + bytes) \<Rightarrow> 'a \<Rightarrow> unit tower_io" where
  "prost_encode encode x = io_bind (io_lift (map_sum TE_ProstEncode id (encode x))) write_length_prefixed"

definition prost_decode :: "(bytes \<Rightarrow> string + 'a) \<Rightarrow> 'a tower_io" where
  "prost_decode decode =
     io_bind read_length_prefixed (\<lambda>buf. io_lift (map_sum TE_ProstDecode id (decode buf)))"

definition serde_encode :: "('a \<Rightarrow> TowerError + bytes) \<Rightarrow> 'a \<Rightarrow> unit tower_io" where
  "serde_encode serialize x = io_bind (io_lift (serialize x)) write_length_prefixed"

definition serde_decode :: "(bytes \<Rightarrow> TowerError + 'a) \<Rightarrow> 'a tower_io" where
  "serde_decode deserialize = io_bind read_length_prefixed (\<lambda>buf. io_lift (deserialize buf))"

text \<open>The trait \<^verbatim>\<open>ServiceCodec\<close> and its two implementations.\<close>

record ('req, 'res) ServiceCodec =
  sc_encode_request :: "'req \<Rightarrow> unit tower_io"
  sc_decode_request :: "'req tower_io"
  sc_encode_response :: "'res \<Rightarrow> unit tower_io"
  sc_decode_response :: "'res tower_io"

definition ProstCodec ::
  "('req \<Rightarrow> string + bytes) \<Rightarrow> (bytes \<Rightarrow> string + 'req) \<Rightarrow> ('res \<Rightarrow> string + bytes) \<Rightarrow> (bytes \<Rightarrow> string + 'res) \<Rightarrow>
   ('req, 'res) ServiceCodec"
where
  "ProstCodec encode decode encode' decode' =
     \<lparr>sc_encode_request = prost_encode encode, sc_decode_request = prost_decode decode,
      sc_encode_response = prost_encode encode', sc_decode_response = prost_decode decode'\<rparr>"

definition SerdeCodec ::
  "('req \<Rightarrow> TowerError + bytes) \<Rightarrow> (bytes \<Rightarrow> TowerError + 'req) \<Rightarrow>
   ('res \<Rightarrow> TowerError + bytes) \<Rightarrow> (bytes \<Rightarrow> TowerError + 'res) \<Rightarrow> ('req, 'res) ServiceCodec"
where
  "SerdeCodec serialize deserialize serialize' deserialize' =
     \<lparr>sc_encode_request = serde_encode serialize, sc_decode_request = serde_decode deserialize,
      sc_encode_response = serde_encode serialize', sc_decode_response = serde_decode deserialize'\<rparr>"

text \<open>\<^verbatim>\<open>BincodeFormat\<close>.\<close>

definition bincode_serialize :: "('a \<Rightarrow> string + bytes) \<Rightarrow> 'a \<Rightarrow> TowerError + bytes" where
  "bincode_serialize ser x = map_sum TE_Bincode id (ser x)"

definition bincode_deserialize :: "(bytes \<Rightarrow> string + 'a) \<Rightarrow> bytes \<Rightarrow> TowerError + 'a" where
  "bincode_deserialize de buf = map_sum TE_Bincode id (de buf)"

section \<open>Envelopes\<close>

record RequestEnvelope =
  qe_path :: string
  qe_headers :: "(string, string) hmap"
  qe_payload :: bytes

record ResponseEnvelope =
  re_status_code :: u32
  re_headers :: "(string, string) hmap"
  re_payload :: bytes

definition write_request_envelope :: "(RequestEnvelope \<Rightarrow> string + bytes) \<Rightarrow> RequestEnvelope \<Rightarrow> unit tower_io" where
  "write_request_envelope encode envelope =
     io_bind (io_lift (map_sum TE_ProstEncode id (encode envelope))) write_length_prefixed"

definition read_request_envelope :: "(bytes \<Rightarrow> string + RequestEnvelope) \<Rightarrow> RequestEnvelope tower_io" where
  "read_request_envelope decode =
     io_bind read_length_prefixed (\<lambda>buf. io_lift (map_sum TE_ProstDecode id (decode buf)))"

definition write_response_envelope :: "(ResponseEnvelope \<Rightarrow> string + bytes) \<Rightarrow> ResponseEnvelope \<Rightarrow> unit tower_io" where
  "write_response_envelope encode envelope =
     io_bind (io_lift (map_sum TE_ProstEncode id (encode envelope))) write_length_prefixed"

definition read_response_envelope :: "(bytes \<Rightarrow> string + ResponseEnvelope) \<Rightarrow> ResponseEnvelope tower_io" where
  "read_response_envelope decode =
     io_bind read_length_prefixed (\<lambda>buf. io_lift (map_sum TE_ProstDecode id (decode buf)))"

section \<open>What is written is what is read\<close>

definition sends :: "bytes \<Rightarrow> stream \<Rightarrow> stream" where
  "sends b st = st\<lparr>bi_send_stream := (bi_send_stream st)\<lparr>sh_written := sh_written (bi_send_stream st) @ b\<rparr>\<rparr>"

lemma sends_simps [simp]:
  "sends [] st = st"
  "sends b (sends a st) = sends (a @ b) st"
  "bi_recv_stream (sends b st) = bi_recv_stream st"
  "sh_written (bi_send_stream (sends b st)) = sh_written (bi_send_stream st) @ b"
  "sh_finished (bi_send_stream (sends b st)) = sh_finished (bi_send_stream st)"
  by (simp_all add: sends_def)

lemma io_bind_Inr: "io_bind m f st = (Inr y, st2) \<longleftrightarrow> (\<exists>x st1. m st = (Inr x, st1) \<and> f x st1 = (Inr y, st2))"
  by (auto simp: io_bind_def split: prod.splits sum.splits)

lemma io_bind_simps [simp]:
  "m st = (Inr x, st1) \<Longrightarrow> io_bind m f st = f x st1"
  "m st = (Inl e, st1) \<Longrightarrow> io_bind m f st = (Inl e, st1)"
  by (simp_all add: io_bind_def)

lemma bi_write_all_Inr: "bi_write_all b st = (Inr x, st') \<Longrightarrow> st' = sends b st"
  by (auto simp: bi_write_all_def sends_def Let_def split: if_splits)

lemma bi_write_all_healthy:
  "\<not> sh_finished (bi_send_stream st) \<Longrightarrow> sh_limit (bi_send_stream st) = None \<Longrightarrow> bi_write_all b st = (Inr (), sends b st)"
  by (simp add: bi_write_all_def sends_def Let_def)

definition prefixed :: "bytes \<Rightarrow> bytes" where
  "prefixed buf = to_be_bytes (of_nat (length buf)) @ buf"

lemma write_length_prefixed_Inr: "write_length_prefixed buf st = (Inr x, st') \<Longrightarrow> st' = sends (prefixed buf) st"
  by (auto simp: write_length_prefixed_def Let_def io_bind_Inr prefixed_def dest!: bi_write_all_Inr)

lemma write_length_prefixed_healthy:
  assumes "\<not> sh_finished (bi_send_stream st)" and "sh_limit (bi_send_stream st) = None"
  shows "write_length_prefixed buf st = (Inr (), sends (prefixed buf) st)"
proof -
  have "sh_limit (bi_send_stream (sends b st)) = None" for b using assms(2) by (simp add: sends_def)
  then show ?thesis using assms by (simp add: write_length_prefixed_def Let_def bi_write_all_healthy prefixed_def)
qed

lemma read_length_prefixed_append:
  assumes "bi_recv_stream st = prefixed buf @ rest" and "length buf < 2 ^ 32"
  shows "read_length_prefixed st = (Inr buf, st\<lparr>bi_recv_stream := rest\<rparr>)"
proof -
  have "unat (of_nat (length buf) :: u32) = length buf" using assms(2) by (simp add: unat_of_length)
  then show ?thesis using assms(1) by (simp add: read_length_prefixed_def bi_read_exact_def prefixed_def)
qed

text \<open>The contract of a serialisation format: what it produces it reads back.\<close>

locale payload_format =
  fixes ser :: "'a \<Rightarrow> 'e + bytes" and de :: "bytes \<Rightarrow> 'f + 'a"
  assumes de_ser: "ser x = Inr b \<Longrightarrow> de b = Inr x"

interpretation raw_format: payload_format Inr Inr
  by unfold_locales simp

lemma payload_format_map:
  assumes "payload_format ser de"
  shows "payload_format (\<lambda>x. map_sum f id (ser x)) (\<lambda>b. map_sum g id (de b))"
  using payload_format.de_ser [OF assms] by unfold_locales (auto simp: map_sum_def split: sum.splits)

text \<open>
  An encoder and a decoder transmit the values that \<open>fits\<close> describes: what a successful encoder
  appends to one stream, the decoder takes off another, leaving the rest.
\<close>

definition transmits :: "('a \<Rightarrow> unit tower_io) \<Rightarrow> 'a tower_io \<Rightarrow> ('a \<Rightarrow> bool) \<Rightarrow> bool" where
  "transmits enc dec fits \<longleftrightarrow> (\<forall>x st r st'. fits x \<longrightarrow> enc x st = (Inr r, st') \<longrightarrow>
     (\<exists>b. st' = sends b st \<and>
        (\<forall>t rest. bi_recv_stream t = b @ rest \<longrightarrow> dec t = (Inr x, t\<lparr>bi_recv_stream := rest\<rparr>))))"

definition fits_u32_len :: "('a \<Rightarrow> 'e + bytes) \<Rightarrow> 'a \<Rightarrow> bool" where
  "fits_u32_len ser x \<longleftrightarrow> (case ser x of Inr b \<Rightarrow> length b < 2 ^ 32 | Inl _ \<Rightarrow> True)"

lemma transmits_serde:
  assumes "payload_format ser de"
  shows "transmits (serde_encode ser) (serde_decode de) (fits_u32_len ser)"
  unfolding transmits_def
proof (intro allI impI)
  fix x st r st' assume fits: "fits_u32_len ser x" and enc: "serde_encode ser x st = (Inr r, st')"
  obtain b where b: "ser x = Inr b" "st' = sends (prefixed b) st"
    using enc by (auto simp: serde_encode_def io_bind_Inr io_lift_def dest!: write_length_prefixed_Inr)
  have "serde_decode de t = (Inr x, t\<lparr>bi_recv_stream := rest\<rparr>)" if "bi_recv_stream t = prefixed b @ rest" for t rest
    using read_length_prefixed_append [OF that] fits b(1) payload_format.de_ser [OF assms b(1)]
    by (simp add: serde_decode_def io_lift_def fits_u32_len_def)
  then show "\<exists>b. st' = sends b st \<and>
      (\<forall>t rest. bi_recv_stream t = b @ rest \<longrightarrow> serde_decode de t = (Inr x, t\<lparr>bi_recv_stream := rest\<rparr>))"
    using b(2) by blast
qed

text \<open>The protobuf codec and the envelopes are instances with wrapped errors.\<close>

lemma prost_is_serde:
  "prost_encode enc = serde_encode (\<lambda>x. map_sum TE_ProstEncode id (enc x))"
  "prost_decode dec = serde_decode (\<lambda>b. map_sum TE_ProstDecode id (dec b))"
  "write_request_envelope encq = prost_encode encq"
  "read_request_envelope decq = prost_decode decq"
  "write_response_envelope encr = prost_encode encr"
  "read_response_envelope decr = prost_decode decr"
  by (simp_all add: fun_eq_iff prost_encode_def prost_decode_def serde_encode_def serde_decode_def
      write_request_envelope_def read_request_envelope_def write_response_envelope_def read_response_envelope_def)

lemma fits_u32_len_map: "fits_u32_len (\<lambda>x. map_sum f id (ser x)) = fits_u32_len ser"
  by (auto simp: fun_eq_iff fits_u32_len_def map_sum_def split: sum.splits)

lemma transmits_prost:
  assumes "payload_format enc dec"
  shows "transmits (prost_encode enc) (prost_decode dec) (fits_u32_len enc)"
  unfolding prost_is_serde(1,2)
  using transmits_serde [OF payload_format_map [OF assms, of TE_ProstEncode TE_ProstDecode]]
  by (simp add: fits_u32_len_map)

text \<open>Sequences of messages.\<close>

fun io_each :: "('a \<Rightarrow> unit tower_io) \<Rightarrow> 'a list \<Rightarrow> unit tower_io" where
  "io_each enc [] = io_return ()"
| "io_each enc (x # xs) = io_bind (enc x) (\<lambda>_. io_each enc xs)"

fun io_times :: "nat \<Rightarrow> 'a tower_io \<Rightarrow> 'a list tower_io" where
  "io_times 0 dec = io_return []"
| "io_times (Suc n) dec = io_bind dec (\<lambda>x. io_bind (io_times n dec) (\<lambda>xs. io_return (x # xs)))"

lemma transmits_each:
  assumes "transmits enc dec fits" and "\<forall>x \<in> set xs. fits x" and "io_each enc xs st = (Inr r, st')"
  shows "\<exists>b. st' = sends b st \<and> (\<forall>t rest. bi_recv_stream t = b @ rest \<longrightarrow>
     io_times (length xs) dec t = (Inr xs, t\<lparr>bi_recv_stream := rest\<rparr>))"
  using assms(2,3)
proof (induction xs arbitrary: st)
  case Nil
  then show ?case by (intro exI [of _ "[]"]) (simp add: io_return_def)
next
  case (Cons x xs)
  obtain u st1 where st1: "enc x st = (Inr u, st1)" "io_each enc xs st1 = (Inr r, st')"
    using Cons.prems(2) by (auto simp: io_bind_Inr)
  obtain b where b: "st1 = sends b st"
    "\<forall>t rest. bi_recv_stream t = b @ rest \<longrightarrow> dec t = (Inr x, t\<lparr>bi_recv_stream := rest\<rparr>)"
    using assms(1) st1(1) Cons.prems(1) unfolding transmits_def by (metis list.set_intros(1))
  obtain c where c: "st' = sends c st1" "\<forall>t rest. bi_recv_stream t = c @ rest \<longrightarrow>
      io_times (length xs) dec t = (Inr xs, t\<lparr>bi_recv_stream := rest\<rparr>)"
    using Cons.IH [OF _ st1(2)] Cons.prems(1) by auto
  have "io_times (length (x # xs)) dec t = (Inr (x # xs), t\<lparr>bi_recv_stream := rest\<rparr>)"
    if "bi_recv_stream t = b @ c @ rest" for t rest
    using b(2) c(2) that by (simp add: io_return_def)
  then show ?case using b(1) c(1) by (intro exI [of _ "b @ c"]) simp
qed

text \<open>The contract of a \<^verbatim>\<open>ServiceCodec\<close>, and its implementations.\<close>

locale service_codec =
  fixes c :: "('req, 'res) ServiceCodec" and fits_req :: "'req \<Rightarrow> bool" and fits_res :: "'res \<Rightarrow> bool"
  assumes requests: "transmits (sc_encode_request c) (sc_decode_request c) fits_req"
    and responses: "transmits (sc_encode_response c) (sc_decode_response c) fits_res"
begin

text \<open>A client that sends requests and a server that answers them understand each other.\<close>

lemma conversation:
  assumes "\<forall>x \<in> set reqs. fits_req x" and "\<forall>y \<in> set ress. fits_res y"
    and "io_each (sc_encode_request c) reqs client = (Inr (), client')"
    and "bi_recv_stream server = drop (length (sh_written (bi_send_stream client))) (sh_written (bi_send_stream client'))"
    and "io_each (sc_encode_response c) ress server' = (Inr (), server'')"
    and "bi_recv_stream client'' = drop (length (sh_written (bi_send_stream server'))) (sh_written (bi_send_stream server''))"
  shows "fst (io_times (length reqs) (sc_decode_request c) server) = Inr reqs"
    and "fst (io_times (length ress) (sc_decode_response c) client'') = Inr ress"
proof -
  obtain b where "client' = sends b client" "\<forall>t rest. bi_recv_stream t = b @ rest \<longrightarrow>
      io_times (length reqs) (sc_decode_request c) t = (Inr reqs, t\<lparr>bi_recv_stream := rest\<rparr>)"
    using transmits_each [OF requests assms(1,3)] by blast
  then show "fst (io_times (length reqs) (sc_decode_request c) server) = Inr reqs"
    using assms(4) by simp
  obtain b where "server'' = sends b server'" "\<forall>t rest. bi_recv_stream t = b @ rest \<longrightarrow>
      io_times (length ress) (sc_decode_response c) t = (Inr ress, t\<lparr>bi_recv_stream := rest\<rparr>)"
    using transmits_each [OF responses assms(2,5)] by blast
  then show "fst (io_times (length ress) (sc_decode_response c) client'') = Inr ress"
    using assms(6) by simp
qed

end

lemma service_codec_prost:
  assumes "payload_format enc dec" and "payload_format enc' dec'"
  shows "service_codec (ProstCodec enc dec enc' dec') (fits_u32_len enc) (fits_u32_len enc')"
  using transmits_prost [OF assms(1)] transmits_prost [OF assms(2)]
  by unfold_locales (simp_all add: ProstCodec_def)

lemma service_codec_serde:
  assumes "payload_format ser de" and "payload_format ser' de'"
  shows "service_codec (SerdeCodec ser de ser' de') (fits_u32_len ser) (fits_u32_len ser')"
  using transmits_serde [OF assms(1)] transmits_serde [OF assms(2)]
  by unfold_locales (simp_all add: SerdeCodec_def)

interpretation raw_prost: service_codec "ProstCodec Inr Inr Inr Inr"
  "fits_u32_len (Inr :: bytes \<Rightarrow> string + bytes)" "fits_u32_len (Inr :: bytes \<Rightarrow> string + bytes)"
  by (rule service_codec_prost) unfold_locales

interpretation raw_serde: service_codec "SerdeCodec Inr Inr Inr Inr"
  "fits_u32_len (Inr :: bytes \<Rightarrow> TowerError + bytes)" "fits_u32_len (Inr :: bytes \<Rightarrow> TowerError + bytes)"
  by (rule service_codec_serde) unfold_locales

section \<open>Properties\<close>

lemma payload_format_bincode:
  "payload_format ser de \<Longrightarrow> payload_format (bincode_serialize ser) (bincode_deserialize de)"
  using payload_format_map [of ser de TE_Bincode TE_Bincode]
  by (simp add: bincode_serialize_def [abs_def] bincode_deserialize_def [abs_def])

lemma fits_u32_len_bincode: "fits_u32_len (bincode_serialize ser) = fits_u32_len ser"
  using fits_u32_len_map [of TE_Bincode ser] by (simp add: bincode_serialize_def [abs_def])

text \<open>
  C20: a client and a server that use the protobuf codec, or the serde codec with the bincode format,
  understand each other. For serialisers that read back what they produce and messages below 4 GiB,
  the server decodes from what the client wrote exactly the requests, in order, and the client
  decodes from what the server wrote exactly the responses.
\<close>

theorem codec_conversation:
  assumes "payload_format enc dec" and "payload_format enc' dec'"
    and "c \<in> {ProstCodec enc dec enc' dec',
      SerdeCodec (bincode_serialize enc) (bincode_deserialize dec) (bincode_serialize enc') (bincode_deserialize dec')}"
    and "\<forall>x \<in> set reqs. fits_u32_len enc x" and "\<forall>y \<in> set ress. fits_u32_len enc' y"
    and "io_each (sc_encode_request c) reqs client = (Inr (), client')"
    and "bi_recv_stream server = drop (length (sh_written (bi_send_stream client))) (sh_written (bi_send_stream client'))"
    and "io_each (sc_encode_response c) ress server' = (Inr (), server'')"
    and "bi_recv_stream client'' = drop (length (sh_written (bi_send_stream server'))) (sh_written (bi_send_stream server''))"
  shows "fst (io_times (length reqs) (sc_decode_request c) server) = Inr reqs \<and>
    fst (io_times (length ress) (sc_decode_response c) client'') = Inr ress"
proof -
  have "service_codec c (fits_u32_len enc) (fits_u32_len enc')"
    using assms(3) service_codec_prost [OF assms(1,2)]
      service_codec_serde [OF payload_format_bincode [OF assms(1)] payload_format_bincode [OF assms(2)]]
    by (auto simp: fits_u32_len_bincode)
  from service_codec.conversation [OF this assms(4-)] show ?thesis by blast
qed

definition demo_stream :: "bytes \<Rightarrow> stream" where
  "demo_stream input = bistream_new False \<lparr>sh_written = [], sh_limit = None, sh_finished = False\<rparr> input"

lemmas stream_evals [evals] =
  demo_stream_def bistream_new_def serde_encode_def prost_encode_def io_bind_def io_lift_def io_return_def
  write_length_prefixed_def bi_write_all_def

theorem codec_conversation_witness:
  "fst (io_times (Suc (Suc 0)) (sc_decode_request (ProstCodec Inr Inr Inr Inr))
     (demo_stream [0, 0, 0, 2, 7, 8, 0, 0, 0, 1, 9])) = Inr [[7, 8], [9]] \<and>
   fst (io_times (Suc 0) (sc_decode_response (ProstCodec Inr Inr Inr Inr)) (demo_stream [0, 0, 0, 0])) = Inr [[]]"
proof -
  have "io_each (sc_encode_request (ProstCodec Inr Inr Inr Inr)) [[7, 8], [9]] (demo_stream []) =
      (Inr (), demo_stream []\<lparr>bi_send_stream := \<lparr>sh_written = [0, 0, 0, 2, 7, 8, 0, 0, 0, 1, 9],
         sh_limit = None, sh_finished = False\<rparr>\<rparr>)"
    and "io_each (sc_encode_response (ProstCodec Inr Inr Inr Inr)) [[]] (demo_stream []) =
      (Inr (), demo_stream []\<lparr>bi_send_stream := \<lparr>sh_written = [0, 0, 0, 0], sh_limit = None, sh_finished = False\<rparr>\<rparr>)"
    by (simp_all add: ProstCodec_def evals to_be_bytes_def Let_def)
  from codec_conversation [OF raw_format.payload_format_axioms raw_format.payload_format_axioms insertI1 _ _ this(1) _ this(2),
      of "demo_stream [0, 0, 0, 2, 7, 8, 0, 0, 0, 1, 9]" "demo_stream [0, 0, 0, 0]"]
  show ?thesis by (simp add: fits_u32_len_def demo_stream_def bistream_new_def)
qed

end
