(* ===== verification/Tower_Http.thy ===== *)
theory Tower_Http
  imports Tower_Codec
begin

text \<open>
  Requests, responses, extractors, handlers and the router: \<^verbatim>\<open>stric-tower/src/http.rs\<close>,
  \<^verbatim>\<open>handler.rs\<close> and \<^verbatim>\<open>routing.rs\<close>. Of the \<^verbatim>\<open>http\<close> crate the header map, header names and header
  values are arguments (\<open>header_ops\<close>), with what the code relies on in the locale \<open>header_map\<close>;
  serialisers and the collection of a body are arguments too.
\<close>

section \<open>Header maps\<close>

record ('h, 'n, 'v) header_ops =
  ho_new :: 'h
  ho_insert :: "'n \<Rightarrow> 'v \<Rightarrow> 'h \<Rightarrow> 'h"
  ho_into_iter :: "'h \<Rightarrow> ('n option \<times> 'v) list"
  ho_static_name :: "string \<Rightarrow> 'n"
  ho_static_value :: "string \<Rightarrow> 'v"
  ho_name_from :: "string \<Rightarrow> 'n option"
  ho_name_to_string :: "'n \<Rightarrow> string"
  ho_value_from :: "string \<Rightarrow> 'v option"
  ho_value_to_str :: "'v \<Rightarrow> string option"

text \<open>
  The documented behaviour: \<^verbatim>\<open>insert\<close> replaces all values of the name; iteration by value gives the
  values grouped by name, the name only with the first of them; a name reads back from its text,
  and so does a value that has a text.
\<close>

locale header_map =
  fixes ho :: "('h, 'n, 'v) header_ops" and get_all :: "'h \<Rightarrow> 'n \<Rightarrow> 'v list"
  assumes get_all_new: "get_all (ho_new ho) n = []"
    and get_all_insert: "get_all (ho_insert ho n v h) m = (if m = n then [v] else get_all h m)"
    and iter_grouped: "\<exists>ns. distinct ns \<and> set ns = {n. get_all h n \<noteq> []} \<and>
      ho_into_iter ho h = concat (map (\<lambda>n. (Some n, hd (get_all h n)) # map (Pair None) (tl (get_all h n))) ns)"
    and name_reads_back: "ho_name_from ho (ho_name_to_string ho n) = Some n"
    and value_reads_back: "ho_value_to_str ho v = Some s \<Longrightarrow> ho_value_from ho s = Some v"

section \<open>Requests and responses\<close>

record ('h, 'b) Request =
  rq_path :: string
  rq_headers :: 'h
  rq_body :: 'b

record ('h, 'b) Response =
  rs_status :: u16
  rs_headers :: 'h
  rs_body :: 'b

text \<open>The bytes of a text, \<^verbatim>\<open>Bytes::from(String)\<close>.\<close>

definition text_bytes :: "string \<Rightarrow> bytes" where
  "text_bytes s = map of_char s"

definition response_new :: "('h, 'n, 'v) header_ops \<Rightarrow> u16 \<Rightarrow> 'b \<Rightarrow> ('h, 'b) Response" where
  "response_new ho status body = \<lparr>rs_status = status, rs_headers = ho_new ho, rs_body = body\<rparr>"

definition response_empty :: "('h, 'n, 'v) header_ops \<Rightarrow> u16 \<Rightarrow> ('h, bytes) Response" where
  "response_empty ho status = \<lparr>rs_status = status, rs_headers = ho_new ho, rs_body = []\<rparr>"

section \<open>Responses from values\<close>

definition unit_into_response :: "('h, 'n, 'v) header_ops \<Rightarrow> unit \<Rightarrow> ('h, bytes) Response" where
  "unit_into_response ho _ = response_empty ho 200"

definition string_into_response :: "('h, 'n, 'v) header_ops \<Rightarrow> string \<Rightarrow> ('h, bytes) Response" where
  "string_into_response ho s = \<lparr>rs_status = 200, rs_headers = ho_new ho, rs_body = text_bytes s\<rparr>"

definition result_into_response ::
  "('t \<Rightarrow> ('h, bytes) Response) \<Rightarrow> ('e \<Rightarrow> ('h, bytes) Response) \<Rightarrow> 'e + 't \<Rightarrow> ('h, bytes) Response"
where
  "result_into_response into_ok into_err r = (case r of Inr t \<Rightarrow> into_ok t | Inl e \<Rightarrow> into_err e)"

definition error_response :: "('h, 'n, 'v) header_ops \<Rightarrow> u16 \<Rightarrow> string \<Rightarrow> ('h, bytes) Response" where
  "error_response ho status msg = \<lparr>rs_status = status, rs_headers = ho_new ho, rs_body = text_bytes msg\<rparr>"

definition typed_response :: "('h, 'n, 'v) header_ops \<Rightarrow> string \<Rightarrow> bytes \<Rightarrow> ('h, bytes) Response" where
  "typed_response ho content_type body =
     \<lparr>rs_status = 200,
      rs_headers = ho_insert ho (ho_static_name ho ''content-type'') (ho_static_value ho content_type) (ho_new ho),
      rs_body = body\<rparr>"

definition json_into_response ::
  "('h, 'n, 'v) header_ops \<Rightarrow> ('a \<Rightarrow> string + bytes) \<Rightarrow> 'a \<Rightarrow> ('h, bytes) Response"
where
  "json_into_response ho to_vec x =
     (case to_vec x of
        Inr body \<Rightarrow> typed_response ho ''application/json'' body
      | Inl e \<Rightarrow> error_response ho 500 (''JSON serialization error: '' @ e))"

definition bincode_into_response ::
  "('h, 'n, 'v) header_ops \<Rightarrow> ('a \<Rightarrow> string + bytes) \<Rightarrow> 'a \<Rightarrow> ('h, bytes) Response"
where
  "bincode_into_response ho serialize x =
     (case serialize x of
        Inr body \<Rightarrow> typed_response ho ''application/octet-stream'' body
      | Inl e \<Rightarrow> error_response ho 500 (''Bincode serialization error: '' @ e))"

definition protobuf_into_response ::
  "('h, 'n, 'v) header_ops \<Rightarrow> ('a \<Rightarrow> string + bytes) \<Rightarrow> 'a \<Rightarrow> ('h, bytes) Response"
where
  "protobuf_into_response ho encode x =
     (case encode x of
        Inl e \<Rightarrow> error_response ho 500 (''Protobuf encoding error: '' @ e)
      | Inr body \<Rightarrow> typed_response ho ''application/x-protobuf'' body)"

definition raw_into_response :: "('h, 'n, 'v) header_ops \<Rightarrow> bytes \<Rightarrow> ('h, bytes) Response" where
  "raw_into_response ho body = \<lparr>rs_status = 200, rs_headers = ho_new ho, rs_body = body\<rparr>"

section \<open>Extractors\<close>

text \<open>
  An extractor takes the request and the shared state and gives a value, or a rejection as the
  response it is turned into. \<open>collect\<close> collects a body.
\<close>

type_synonym ('s, 'h, 'b, 'x) extractor = "('h, 'b) Request \<Rightarrow> 's \<Rightarrow> ('h, bytes) Response + 'x"

definition collect_body ::
  "('h, 'n, 'v) header_ops \<Rightarrow> ('b \<Rightarrow> string + bytes) \<Rightarrow> ('h, 'b) Request \<Rightarrow> ('h, bytes) Response + bytes"
where
  "collect_body ho collect req =
     map_sum (\<lambda>e. error_response ho 500 (''Body collection error: '' @ e)) id (collect (rq_body req))"

definition json_from_request ::
  "('h, 'n, 'v) header_ops \<Rightarrow> ('b \<Rightarrow> string + bytes) \<Rightarrow> (bytes \<Rightarrow> string + 'a) \<Rightarrow> ('s, 'h, 'b, 'a) extractor"
where
  "json_from_request ho collect from_slice req state =
     res_bind (collect_body ho collect req) (\<lambda>body.
       map_sum (\<lambda>e. error_response ho 400 (''Invalid JSON: '' @ e)) id (from_slice body))"

definition bincode_from_request ::
  "('h, 'n, 'v) header_ops \<Rightarrow> ('b \<Rightarrow> string + bytes) \<Rightarrow> (bytes \<Rightarrow> string + 'a) \<Rightarrow> ('s, 'h, 'b, 'a) extractor"
where
  "bincode_from_request ho collect deserialize req state =
     res_bind (collect_body ho collect req) (\<lambda>body.
       map_sum (\<lambda>e. error_response ho 400 (''Invalid Bincode: '' @ e)) id (deserialize body))"

definition protobuf_from_request ::
  "('h, 'n, 'v) header_ops \<Rightarrow> ('b \<Rightarrow> string + bytes) \<Rightarrow> (bytes \<Rightarrow> string + 'a) \<Rightarrow> ('s, 'h, 'b, 'a) extractor"
where
  "protobuf_from_request ho collect decode req state =
     res_bind (collect_body ho collect req) (\<lambda>body.
       map_sum (\<lambda>e. error_response ho 400 (''Invalid Protobuf: '' @ e)) id (decode body))"

definition raw_from_request ::
  "('h, 'n, 'v) header_ops \<Rightarrow> ('b \<Rightarrow> string + bytes) \<Rightarrow> ('s, 'h, 'b, bytes) extractor"
where
  "raw_from_request ho collect req state = collect_body ho collect req"

definition state_from_request :: "('s \<Rightarrow> 't) \<Rightarrow> ('s, 'h, 'b, 't) extractor" where
  "state_from_request as_ref req state = Inr (as_ref state)"

section \<open>Handlers\<close>

text \<open>
  A handler function without arguments, and one whose arguments are extracted one after the other,
  each from the whole request; the values of the arguments share a type \<open>'x\<close>.
\<close>

definition handler_call_unit ::
  "('r \<Rightarrow> ('h, bytes) Response) \<Rightarrow> (unit \<Rightarrow> 'r) \<Rightarrow> ('h, 'b) Request \<Rightarrow> 's \<Rightarrow> ('h, bytes) Response"
where
  "handler_call_unit into_response f req state = into_response (f ())"

fun extract_args ::
  "('s, 'h, 'b, 'x) extractor list \<Rightarrow> ('h, 'b) Request \<Rightarrow> 's \<Rightarrow> ('h, bytes) Response + 'x list"
where
  "extract_args [] req state = Inr []"
| "extract_args (ty # tys) req state =
     (case ty req state of
        Inl rejection \<Rightarrow> Inl rejection
      | Inr value \<Rightarrow> (case extract_args tys req state of Inl rejection \<Rightarrow> Inl rejection | Inr values \<Rightarrow> Inr (value # values)))"

definition handler_call ::
  "('r \<Rightarrow> ('h, bytes) Response) \<Rightarrow> ('s, 'h, 'b, 'x) extractor list \<Rightarrow> ('x list \<Rightarrow> 'r) \<Rightarrow>
   ('h, 'b) Request \<Rightarrow> 's \<Rightarrow> ('h, bytes) Response"
where
  "handler_call into_response tys f req state =
     (case extract_args tys req state of Inl rejection \<Rightarrow> rejection | Inr values \<Rightarrow> into_response (f values))"

section \<open>The router\<close>

type_synonym ('s, 'h, 'b) handler_service = "('h, 'b) Request \<Rightarrow> 's \<Rightarrow> ('h, bytes) Response"

record ('s, 'h, 'b) Router =
  rt_routes :: "(string, ('s, 'h, 'b) handler_service) hmap"
  rt_state :: 's

definition router_new :: "(unit, 'h, bytes) Router" where
  "router_new = \<lparr>rt_routes = [], rt_state = ()\<rparr>"

definition route :: "string \<Rightarrow> ('s, 'h, 'b) handler_service \<Rightarrow> ('s, 'h, 'b) Router \<Rightarrow> ('s, 'h, 'b) Router" where
  "route path handler rt = rt\<lparr>rt_routes := hm_insert path handler (rt_routes rt)\<rparr>"

definition with_state :: "'s2 \<Rightarrow> ('s, 'h, 'b) Router \<Rightarrow> ('s2, 'h, 'b) Router" where
  "with_state state rt = \<lparr>rt_routes = [], rt_state = state\<rparr>"

definition router_call :: "('h, 'n, 'v) header_ops \<Rightarrow> ('s, 'h, 'b) Router \<Rightarrow> ('h, 'b) Request \<Rightarrow> ('h, bytes) Response" where
  "router_call ho rt req =
     (case hm_get (rt_routes rt) (rq_path req) of
        Some service \<Rightarrow> service req (rt_state rt)
      | None \<Rightarrow> response_empty ho 404)"

section \<open>Properties\<close>

lemma hm_get_routes: "hm_get (rt_routes (fold (\<lambda>(p, h). route p h) hs rt)) path =
    (case find (\<lambda>(p, h). p = path) (rev hs) of Some (_, h) \<Rightarrow> Some h | None \<Rightarrow> hm_get (rt_routes rt) path)"
proof (induction hs rule: rev_induct)
  case (snoc x hs)
  then show ?case by (cases x) (simp add: route_def)
qed simp

lemma rt_state_routes [simp]: "rt_state (fold (\<lambda>(p, h). route p h) hs rt) = rt_state rt"
  by (induction hs arbitrary: rt) (auto simp: route_def)

text \<open>
  C23: the router answers with the handler that was registered last for exactly the request's path, on
  the shared state, and with an empty 404 response if there is none. Routes registered before the
  state was set do not count.
\<close>

theorem router_dispatch:
  "router_call ho (fold (\<lambda>(p, h). route p h) hs (with_state state (fold (\<lambda>(p, h). route p h) earlier rt))) req =
     (case find (\<lambda>(p, h). p = rq_path req) (rev hs) of
        Some (_, h) \<Rightarrow> h req state
      | None \<Rightarrow> \<lparr>rs_status = 404, rs_headers = ho_new ho, rs_body = []\<rparr>)"
  by (simp add: router_call_def hm_get_routes with_state_def response_empty_def split: option.split prod.split)

lemma extract_args_find:
  "extract_args tys req state =
     (case find (\<lambda>ty. isl (ty req state)) tys of
        Some ty \<Rightarrow> Inl (projl (ty req state))
      | None \<Rightarrow> Inr (map (\<lambda>ty. projr (ty req state)) tys))"
  by (induction tys) (auto split: sum.splits option.splits)

text \<open>
  A handler function runs only if all its arguments could be extracted. The response is that of
  the function on the extracted values, in the order of the arguments; if extractions fail, it is
  the rejection of the first of them.
\<close>

theorem handler_first_rejection:
  "handler_call into_response tys f req state =
     (case find (\<lambda>ty. isl (ty req state)) tys of
        Some ty \<Rightarrow> projl (ty req state)
      | None \<Rightarrow> into_response (f (map (\<lambda>ty. projr (ty req state)) tys)))"
  by (simp add: handler_call_def extract_args_find split: option.split)

text \<open>A body extractor with its error texts, of which three extractors are instances.\<close>

lemma body_extractors:
  "json_from_request ho collect de req st =
     res_bind (collect_body ho collect req) (\<lambda>b. map_sum (\<lambda>e. error_response ho 400 (''Invalid JSON: '' @ e)) id (de b))"
  "bincode_from_request ho collect de req st =
     res_bind (collect_body ho collect req) (\<lambda>b. map_sum (\<lambda>e. error_response ho 400 (''Invalid Bincode: '' @ e)) id (de b))"
  "protobuf_from_request ho collect de req st =
     res_bind (collect_body ho collect req) (\<lambda>b. map_sum (\<lambda>e. error_response ho 400 (''Invalid Protobuf: '' @ e)) id (de b))"
  by (simp_all add: json_from_request_def bincode_from_request_def protobuf_from_request_def)

text \<open>
  C21: a typed handler behaves as a function on values. If the formats read back what they produce and
  the request's body is the serialised argument, then a handler with one JSON, bincode or protobuf
  argument and a result of the same format answers with status 200 and a body that reads back as
  the function's value. A body that cannot be parsed is answered with status 400, a body that
  cannot be collected and a result that cannot be serialised with status 500.
\<close>

theorem typed_handler:
  fixes ho :: "('h, 'n, 'v) header_ops" and collect :: "'b \<Rightarrow> string + bytes"
    and de :: "bytes \<Rightarrow> string + 'x" and ser' :: "'y \<Rightarrow> string + bytes"
  assumes "payload_format ser de" and "payload_format ser' de'"
    and "(extract, into) \<in> {(json_from_request ho collect de, json_into_response ho ser'),
      (bincode_from_request ho collect de, bincode_into_response ho ser'),
      (protobuf_from_request ho collect de, protobuf_into_response ho ser')}"
    and "r = handler_call into [extract :: ('s, 'h, 'b, 'x) extractor] (\<lambda>xs. f (hd xs)) req state"
  shows "(\<forall>x b b'. collect (rq_body req) = Inr b \<and> ser x = Inr b \<and> ser' (f x) = Inr b' \<longrightarrow>
      rs_status r = 200 \<and> de' (rs_body r) = Inr (f x)) \<and>
    (\<forall>x b e. collect (rq_body req) = Inr b \<and> ser x = Inr b \<and> ser' (f x) = Inl e \<longrightarrow> rs_status r = 500) \<and>
    (\<forall>b e. collect (rq_body req) = Inr b \<and> de b = Inl e \<longrightarrow> rs_status r = 400) \<and>
    (\<forall>e. collect (rq_body req) = Inl e \<longrightarrow> rs_status r = 500)"
  using assms(3,4) payload_format.de_ser [OF assms(1)] payload_format.de_ser [OF assms(2)]
  by (auto simp: handler_call_def body_extractors collect_body_def error_response_def typed_response_def
      json_into_response_def bincode_into_response_def protobuf_into_response_def)

text \<open>A header map as a list of entries.\<close>

definition list_headers :: "((string \<times> string) list, string, string) header_ops" where
  "list_headers =
     \<lparr>ho_new = [], ho_insert = (\<lambda>n v h. filter (\<lambda>(m, _). m \<noteq> n) h @ [(n, v)]),
      ho_into_iter = (\<lambda>h. concat (map (\<lambda>n. let vs = map snd (filter (\<lambda>(m, _). m = n) h)
                                             in (Some n, hd vs) # map (Pair None) (tl vs)) (remdups (map fst h)))),
      ho_static_name = id, ho_static_value = id, ho_name_from = Some, ho_name_to_string = id,
      ho_value_from = Some, ho_value_to_str = Some\<rparr>"

definition list_get_all :: "(string \<times> string) list \<Rightarrow> string \<Rightarrow> string list" where
  "list_get_all h n = map snd (filter (\<lambda>(m, _). m = n) h)"

interpretation list_header_map: header_map list_headers list_get_all
proof
  show "list_get_all (ho_new list_headers) n = []" for n
    by (simp add: list_headers_def list_get_all_def)
  show "list_get_all (ho_insert list_headers n v h) m = (if m = n then [v] else list_get_all h m)" for n v h m
    by (auto simp: list_headers_def list_get_all_def filter_empty_conv intro!: arg_cong [of _ _ "map snd"] filter_cong)
  show "\<exists>ns. distinct ns \<and> set ns = {n. list_get_all h n \<noteq> []} \<and> ho_into_iter list_headers h =
      concat (map (\<lambda>n. (Some n, hd (list_get_all h n)) # map (Pair None) (tl (list_get_all h n))) ns)" for h
    by (intro exI [of _ "remdups (map fst h)"])
      (force simp: list_headers_def list_get_all_def Let_def filter_empty_conv)
qed (simp_all add: list_headers_def)

theorem typed_handler_witness:
  "rs_status (handler_call (json_into_response list_headers Inr) [json_from_request list_headers Inr Inr]
     (\<lambda>xs. rev (hd xs)) \<lparr>rq_path = ''/'', rq_headers = [], rq_body = [1, 2]\<rparr> ()) = 200 \<and>
   rs_body (handler_call (json_into_response list_headers Inr) [json_from_request list_headers Inr Inr]
     (\<lambda>xs. rev (hd xs)) \<lparr>rq_path = ''/'', rq_headers = [], rq_body = [1, 2]\<rparr> ()) = [2, 1]"
  using typed_handler [where ho = list_headers and collect = Inr and f = rev and state = "()"
      and req = "\<lparr>rq_path = ''/'', rq_headers = [], rq_body = [1, 2]\<rparr>",
      OF raw_format.payload_format_axioms raw_format.payload_format_axioms insertI1 refl]
  by simp

end
