(* ===== verification/Tower_Adapter.thy ===== *)
theory Tower_Adapter
  imports Tower_Http
begin

text \<open>
  The adapter that runs middleware written for the \<^verbatim>\<open>http\<close> crate around a router: the conversions
  at the end of \<^verbatim>\<open>stric-tower/src/http.rs\<close> and \<^verbatim>\<open>adapter.rs\<close>. URIs and status codes of the
  \<^verbatim>\<open>http\<close> crate are arguments (\<open>http_ops\<close>), with what the code relies on in the locale
  \<open>http_types\<close>; of its requests and responses the parts that the code reads and writes are modelled.
\<close>

section \<open>Requests and responses of the http crate\<close>

record ('u, 'st) http_ops =
  hp_parse :: "string \<Rightarrow> 'u option"
  hp_default_uri :: 'u
  hp_path :: "'u \<Rightarrow> string"
  hp_from_u16 :: "u16 \<Rightarrow> 'st option"
  hp_as_u16 :: "'st \<Rightarrow> u16"
  hp_internal_server_error :: 'st

text \<open>
  The documented behaviour: the default URI has the path \<open>/\<close>; status codes are the numbers from 100
  to 999, and keep their number.
\<close>

locale http_types =
  fixes hp :: "('u, 'st) http_ops"
  assumes default_path: "hp_path hp (hp_default_uri hp) = ''/''"
    and from_u16: "hp_from_u16 hp n \<noteq> None \<longleftrightarrow> 100 \<le> n \<and> n < 1000"
    and as_from_u16: "hp_from_u16 hp n = Some st \<Longrightarrow> hp_as_u16 hp st = n"
    and internal_server_error: "hp_as_u16 hp (hp_internal_server_error hp) = 500"

datatype Method = POST | Other_Method string

record ('u, 'h, 'b) HttpRequest =
  hq_method :: Method
  hq_uri :: 'u
  hq_headers :: 'h
  hq_body :: 'b

record ('st, 'h, 'b) HttpResponse =
  hr_status :: 'st
  hr_headers :: 'h
  hr_body :: 'b

definition request_to_http :: "('u, 'st) http_ops \<Rightarrow> ('h, 'b) Request \<Rightarrow> ('u, 'h, 'b) HttpRequest" where
  "request_to_http hp stric_req =
     \<lparr>hq_method = POST,
      hq_uri = (case hp_parse hp (rq_path stric_req) of Some uri \<Rightarrow> uri | None \<Rightarrow> hp_default_uri hp),
      hq_headers = rq_headers stric_req, hq_body = rq_body stric_req\<rparr>"

definition http_to_response :: "('u, 'st) http_ops \<Rightarrow> ('st, 'h, 'b) HttpResponse \<Rightarrow> ('h, 'b) Response" where
  "http_to_response hp http_res =
     \<lparr>rs_status = hp_as_u16 hp (hr_status http_res), rs_headers = hr_headers http_res, rs_body = hr_body http_res\<rparr>"

definition http_to_request :: "('u, 'st) http_ops \<Rightarrow> ('u, 'h, 'b) HttpRequest \<Rightarrow> string + ('h, 'b) Request" where
  "http_to_request hp http_req =
     Inr \<lparr>rq_path = hp_path hp (hq_uri http_req), rq_headers = hq_headers http_req, rq_body = hq_body http_req\<rparr>"

definition response_to_http :: "('u, 'st) http_ops \<Rightarrow> ('h, 'b) Response \<Rightarrow> ('st, 'h, 'b) HttpResponse" where
  "response_to_http hp stric_res =
     \<lparr>hr_status = (case hp_from_u16 hp (rs_status stric_res) of
                     Some st \<Rightarrow> st | None \<Rightarrow> hp_internal_server_error hp),
      hr_headers = rs_headers stric_res, hr_body = rs_body stric_res\<rparr>"

section \<open>The adapter\<close>

text \<open>
  The shim makes a service on native requests one on \<^verbatim>\<open>http\<close> requests. A layer turns the shim into
  another service; its requests have the type of the shim's, its responses may have another body.
\<close>

definition shim_call ::
  "('u, 'st) http_ops \<Rightarrow> (('h, 'b) Request \<Rightarrow> 'i + ('h, 'b2) Response) \<Rightarrow>
   ('u, 'h, 'b) HttpRequest \<Rightarrow> TowerError + ('st, 'h, 'b2) HttpResponse"
where
  "shim_call hp inner http_req =
     res_bind (map_sum TE_Internal id (http_to_request hp http_req)) (\<lambda>stric_req.
     res_bind (map_sum (\<lambda>_. TE_Unknown) id (inner stric_req)) (\<lambda>stric_res.
     Inr (response_to_http hp stric_res)))"

record ('u, 'st, 'h, 'b, 'b2, 'b3, 'i) HttpAdapter =
  ha_inner :: "('h, 'b) Request \<Rightarrow> 'i + ('h, 'b2) Response"
  ha_layer :: "(('u, 'h, 'b) HttpRequest \<Rightarrow> TowerError + ('st, 'h, 'b2) HttpResponse) \<Rightarrow>
    ('u, 'h, 'b) HttpRequest \<Rightarrow> TowerError + ('st, 'h, 'b3) HttpResponse"

definition adapter_call ::
  "('u, 'st) http_ops \<Rightarrow> ('u, 'st, 'h, 'b, 'b2, 'b3, 'i) HttpAdapter \<Rightarrow> ('h, 'b) Request \<Rightarrow> TowerError + ('h, 'b3) Response"
where
  "adapter_call hp adapter stric_req =
     (let layered_service = ha_layer adapter (shim_call hp (ha_inner adapter)) in
      res_bind (layered_service (request_to_http hp stric_req)) (\<lambda>http_res.
      Inr (http_to_response hp http_res)))"

text \<open>\<^verbatim>\<open>Router::layer_standard\<close>; a router never fails, its error type \<^verbatim>\<open>Infallible\<close> is \<open>unit\<close> here.\<close>

definition layer_standard ::
  "('h, 'n, 'v) header_ops \<Rightarrow> ('s, 'h, 'b) Router \<Rightarrow>
   ((('u, 'h, 'b) HttpRequest \<Rightarrow> TowerError + ('st, 'h, bytes) HttpResponse) \<Rightarrow>
    ('u, 'h, 'b) HttpRequest \<Rightarrow> TowerError + ('st, 'h, 'b3) HttpResponse) \<Rightarrow>
   ('u, 'st, 'h, 'b, bytes, 'b3, unit) HttpAdapter"
where
  "layer_standard ho rt layer = \<lparr>ha_inner = (\<lambda>req. Inr (router_call ho rt req)), ha_layer = layer\<rparr>"

section \<open>Properties\<close>

text \<open>What a request becomes on its way through the \<^verbatim>\<open>http\<close> types, and a response.\<close>

definition seen_path :: "('u, 'st) http_ops \<Rightarrow> string \<Rightarrow> string" where
  "seen_path hp path = hp_path hp (case hp_parse hp path of Some uri \<Rightarrow> uri | None \<Rightarrow> hp_default_uri hp)"

definition seen_status :: "u16 \<Rightarrow> u16" where
  "seen_status n = (if 100 \<le> n \<and> n < 1000 then n else 500)"

context http_types
begin

lemma request_through_http:
  "http_to_request hp (request_to_http hp req) = Inr (req\<lparr>rq_path := seen_path hp (rq_path req)\<rparr>)"
  by (simp add: http_to_request_def request_to_http_def seen_path_def)

lemma response_through_http:
  "http_to_response hp (response_to_http hp res) = res\<lparr>rs_status := seen_status (rs_status res)\<rparr>"
proof -
  have "hp_as_u16 hp (case hp_from_u16 hp n of Some st \<Rightarrow> st | None \<Rightarrow> hp_internal_server_error hp) = seen_status n" for n
    using from_u16 [of n] as_from_u16 [of n] internal_server_error
    by (cases "hp_from_u16 hp n") (auto simp: seen_status_def)
  then show ?thesis by (simp add: http_to_response_def response_to_http_def)
qed

lemma shim_after_request:
  "shim_call hp inner (request_to_http hp req) =
     (case inner (req\<lparr>rq_path := seen_path hp (rq_path req)\<rparr>) of
        Inl _ \<Rightarrow> Inl TE_Unknown
      | Inr res \<Rightarrow> Inr (response_to_http hp res))"
  by (simp add: shim_call_def request_through_http split: sum.split)

text \<open>A layer that leaves the request alone and changes the response by \<open>g\<close>.\<close>

lemma adapter_response_layer:
  "adapter_call hp (layer_standard ho rt (\<lambda>svc q. map_sum id g (svc q))) req =
     Inr (http_to_response hp (g (response_to_http hp (router_call ho rt (req\<lparr>rq_path := seen_path hp (rq_path req)\<rparr>)))))"
  by (simp add: adapter_call_def layer_standard_def shim_after_request)

end

text \<open>A concrete instance: a URI is a text that starts with a slash, its path ends at a question mark.\<close>

definition demo_http :: "(string, u16) http_ops" where
  "demo_http =
     \<lparr>hp_parse = (\<lambda>s. if s \<noteq> [] \<and> hd s = CHR ''/'' then Some s else None), hp_default_uri = ''/'',
      hp_path = takeWhile (\<lambda>c. c \<noteq> CHR ''?''), hp_from_u16 = (\<lambda>n. if 100 \<le> n \<and> n < 1000 then Some n else None),
      hp_as_u16 = id, hp_internal_server_error = 500\<rparr>"

interpretation demo_http: http_types demo_http
  by unfold_locales (auto simp: demo_http_def split: if_splits)

text \<open>
  C22: the adapter adds nothing of its own. With a layer that passes requests on unchanged and changes
  responses by some function, the adapter answers as the router does, with that function applied,
  except for what the \<^verbatim>\<open>http\<close> types cannot express: the request is routed by the path of its URI,
  without the query, and by \<open>/\<close> if its path is no URI; a status outside 100 to 999 becomes 500.
  If the path is its own URI path and the status is valid, the answer is exactly the router's.
\<close>

theorem adapter_equivalence:
  assumes "http_types hp"
  shows "adapter_call hp (layer_standard ho rt (\<lambda>svc q. map_sum id g (svc q))) req =
      Inr (http_to_response hp (g (response_to_http hp (router_call ho rt (req\<lparr>rq_path := seen_path hp (rq_path req)\<rparr>))))) \<and>
    (seen_path hp (rq_path req) = rq_path req \<and> g = id \<and>
     100 \<le> rs_status (router_call ho rt req) \<and> rs_status (router_call ho rt req) < 1000 \<longrightarrow>
       adapter_call hp (layer_standard ho rt (\<lambda>svc q. map_sum id g (svc q))) req = Inr (router_call ho rt req))"
  using http_types.response_through_http [OF assms, of "router_call ho rt req"]
  by (auto simp: http_types.adapter_response_layer [OF assms] seen_status_def)

theorem adapter_equivalence_witness:
  "adapter_call demo_http (layer_standard list_headers (route ''/x'' (\<lambda>req st. raw_into_response list_headers (rq_body req)) router_new)
       (\<lambda>svc q. map_sum id id (svc q))) \<lparr>rq_path = ''/x'', rq_headers = [], rq_body = [5]\<rparr> =
     Inr \<lparr>rs_status = 200, rs_headers = [], rs_body = [5]\<rparr>"
proof -
  let ?rt = "route ''/x'' (\<lambda>req st. raw_into_response list_headers (rq_body req)) router_new"
  let ?req = "\<lparr>rq_path = ''/x'', rq_headers = [], rq_body = [5]\<rparr>"
  have "seen_path demo_http ''/x'' = ''/x''"
    by (simp add: seen_path_def demo_http_def)
  moreover have "router_call list_headers ?rt ?req = \<lparr>rs_status = 200, rs_headers = [], rs_body = [5]\<rparr>"
    by (simp add: router_call_def route_def router_new_def raw_into_response_def list_headers_def)
  ultimately show ?thesis
    using adapter_equivalence [OF demo_http.http_types_axioms, of list_headers ?rt id ?req, THEN conjunct2] by simp
qed

text \<open>
  Behind the adapter a request is answered by a handler it was not meant for. If the path of a
  request is not a URI, the router itself answers 404, but behind the adapter the handler of \<open>/\<close>
  answers, and it sees \<open>/\<close> as the path of the request.
\<close>

theorem adapter_misroutes:
  assumes "http_types hp" and "hp_parse hp (rq_path req) = None"
    and "hm_get (rt_routes rt) (rq_path req) = None" and "hm_get (rt_routes rt) ''/'' = Some h"
  shows "rs_status (router_call ho rt req) = 404 \<and>
    adapter_call hp (layer_standard ho rt (\<lambda>svc. svc)) req =
      Inr (let res = h (req\<lparr>rq_path := ''/''\<rparr>) (rt_state rt) in res\<lparr>rs_status := seen_status (rs_status res)\<rparr>)"
proof -
  have "adapter_call hp (layer_standard ho rt (\<lambda>svc. svc)) req =
      Inr (http_to_response hp (response_to_http hp (h (req\<lparr>rq_path := ''/''\<rparr>) (rt_state rt))))"
    using assms(2-) http_types.adapter_response_layer [OF assms(1), of ho rt id req] http_types.default_path [OF assms(1)]
    by (simp add: router_call_def seen_path_def sum.map_id0)
  then show ?thesis
    using assms(3) by (simp add: http_types.response_through_http [OF assms(1)] router_call_def response_empty_def Let_def)
qed

theorem adapter_misroutes_witness:
  "adapter_call demo_http (layer_standard list_headers (route ''/'' (\<lambda>req st. raw_into_response list_headers (text_bytes (rq_path req))) router_new)
       (\<lambda>svc. svc)) \<lparr>rq_path = ''x'', rq_headers = [], rq_body = []\<rparr> =
     Inr \<lparr>rs_status = 200, rs_headers = [], rs_body = text_bytes ''/''\<rparr>"
proof -
  let ?h = "\<lambda>req st. raw_into_response list_headers (text_bytes (rq_path req))"
  have "hp_parse demo_http ''x'' = None" "raw_into_response list_headers b = \<lparr>rs_status = 200, rs_headers = [], rs_body = b\<rparr>" for b
    by (simp_all add: demo_http_def raw_into_response_def list_headers_def)
  then show ?thesis
    using adapter_misroutes [OF demo_http.http_types_axioms, of "\<lparr>rq_path = ''x'', rq_headers = [], rq_body = []\<rparr>"
        "route ''/'' ?h router_new" ?h list_headers]
    by (simp add: route_def router_new_def seen_status_def)
qed

end
