(* ===== verification/Tower_Service.thy ===== *)
theory Tower_Service
  imports Tower_Adapter
begin

text \<open>
  The two ends of a call: the server (\<^verbatim>\<open>stric-tower/src/server.rs\<close>) and the client
  (\<^verbatim>\<open>stric-tower/src/client.rs\<close>), and what a call amounts to when they talk to each other. The
  protobuf encoding of the envelopes and the QUIC endpoint are arguments.
\<close>

section \<open>Headers on the wire\<close>

text \<open>The two loops that client and server share.\<close>

definition headers_to_wire :: "('h, 'n, 'v) header_ops \<Rightarrow> 'h \<Rightarrow> (string, string) hmap" where
  "headers_to_wire ho headers =
     fold (\<lambda>(name, value) wire. case name of
         None \<Rightarrow> wire
       | Some name \<Rightarrow> (case ho_value_to_str ho value of
             None \<Rightarrow> wire
           | Some val_str \<Rightarrow> hm_insert (ho_name_to_string ho name) val_str wire))
       (ho_into_iter ho headers) []"

definition headers_from_wire :: "('h, 'n, 'v) header_ops \<Rightarrow> (string, string) hmap \<Rightarrow> 'h" where
  "headers_from_wire ho wire =
     fold (\<lambda>(k, v) headers. case (ho_name_from ho k, ho_value_from ho v) of
         (Some name, Some value) \<Rightarrow> ho_insert ho name value headers
       | _ \<Rightarrow> headers) wire (ho_new ho)"

section \<open>The server\<close>

text \<open>A Tower service: whether it is ready, and its answer to a request.\<close>

record ('q, 'r) service =
  sv_ready :: "TowerError + unit"
  sv_call :: "'q \<Rightarrow> TowerError + 'r"

definition handle_stream_axum ::
  "('h, 'n, 'v) header_ops \<Rightarrow> (bytes \<Rightarrow> string + RequestEnvelope) \<Rightarrow> (ResponseEnvelope \<Rightarrow> string + bytes) \<Rightarrow>
   ('b \<Rightarrow> string + bytes) \<Rightarrow> (('h, bytes) Request, ('h, 'b) Response) service \<Rightarrow> unit tower_io"
where
  "handle_stream_axum ho decode encode collect service =
     io_bind (read_request_envelope decode) (\<lambda>envelope.
     let req = \<lparr>rq_path = qe_path envelope, rq_headers = headers_from_wire ho (qe_headers envelope),
                rq_body = qe_payload envelope\<rparr> in
     io_bind (io_lift (sv_ready service)) (\<lambda>_.
     io_bind (io_lift (sv_call service req)) (\<lambda>res.
     let res_headers = headers_to_wire ho (rs_headers res) in
     io_bind (io_lift (map_sum TE_Internal id (collect (rs_body res)))) (\<lambda>body.
     io_bind (write_response_envelope encode
       \<lparr>re_status_code = ucast (rs_status res), re_headers = res_headers, re_payload = body\<rparr>) (\<lambda>_.
     bi_finish)))))"

text \<open>
  \<^verbatim>\<open>TowerConnectionHandler::into_handler\<close>: every accepted stream is handled in a task of its own, and
  the handler returns when no more streams can be accepted. \<open>accepted\<close> are the streams accepted so
  far and \<open>closed\<close> says whether accepting has failed; while it has not, the handler is pending
  (\<open>None\<close>).
\<close>

definition into_handler ::
  "unit tower_io \<Rightarrow> (SendHalf \<times> bytes) list \<Rightarrow> bool \<Rightarrow> ('c, 'm) ConnectionWrapper \<Rightarrow>
   (string + ('c, 'm) ConnectionWrapper) option \<times> ((TowerError + unit) \<times> stream) list"
where
  "into_handler handle accepted closed wrapper =
     (if closed then Some (Inr wrapper) else None,
      map (\<lambda>(send, recv). handle (bistream_new False send recv)) accepted)"

text \<open>
  Setting up a connection with this handler: the task waits for the handler before it goes on.
\<close>

definition setup_tower ::
  "('c \<Rightarrow> u64) \<Rightarrow> 'm \<Rightarrow> unit tower_io \<Rightarrow> (SendHalf \<times> bytes) list \<Rightarrow> bool \<Rightarrow> 'c \<Rightarrow> ('c, 'm) ConnectionManager \<Rightarrow>
   ('c, 'm) ConnectionManager \<times> string list \<times> 'c keep_alive_task list"
where
  "setup_tower stable_id md handle accepted closed conn cm =
     (let wrapper = \<lparr>cw_conn = conn, cw_context = (cm_default_conn_context cm)\<lparr>cc_id := stable_id conn\<rparr>, cw_metadata = md\<rparr>
      in case fst (into_handler handle accepted closed wrapper) of
           None \<Rightarrow> (cm, [], [])
         | Some r \<Rightarrow> setup_connection stable_id md conn (Some (\<lambda>_. r)) cm)"

text \<open>The configuration that \<^verbatim>\<open>Server::serve\<close> starts its node with.\<close>

definition default_context :: ConnectionContext where
  "default_context = \<lparr>cc_id = 0, cc_keep_alive = False, cc_initiator_uni = False, cc_initiator_bi = False,
     cc_responder_uni = False, cc_responder_bi = False\<rparr>"

definition serve_config :: "'cert \<Rightarrow> 'key \<Rightarrow> 'addr \<Rightarrow> ('cert, 'key, 'roots, 'addr) NodeConfig" where
  "serve_config cert key addr =
     \<lparr>nc_certs = Some [cert], nc_key = Some key, nc_socket_addr = addr,
      nc_alpn_protocol_names = [text_bytes ''stric''], nc_error_channel_len = 10,
      nc_default_conn_context = default_context, nc_keep_alive_limit_per_thread = 0,
      nc_idle_timeout = Some 60000000000, nc_root_cert_store = None,
      nc_danger_accept_invalid_certs = False\<rparr>"

text \<open>
  The \<^verbatim>\<open>select\<close> of \<^verbatim>\<open>serve\<close>, over the connection attempts in the order in which their tasks end: the
  first error on the channel ends it, whatever is still to come; otherwise it ends with the
  endpoint. The result comes with the attempts that were not dealt with.
\<close>

fun serve_loop ::
  "('c \<Rightarrow> u64) \<Rightarrow> 'm \<Rightarrow> (string + 'c) list \<Rightarrow> ('c, 'm) QuicNode \<Rightarrow>
   (string + unit) \<times> (string + 'c) list \<times> ('c, 'm) QuicNode"
where
  "serve_loop sid md [] node = (Inr (), [], node)"
| "serve_loop sid md (incoming # later) node =
     (case handle_incoming sid md incoming node of
        (node', err # _, _) \<Rightarrow> (Inl err, later, node')
      | (node', [], _) \<Rightarrow> serve_loop sid md later node')"

text \<open>
  \<^verbatim>\<open>Server::serve\<close>; \<open>generated\<close> is what generating the certificate and its key gives, and
  \<open>private_key\<close> the conversion of the key. Both are unwrapped.
\<close>

definition serve ::
  "('cert, 'key, 'roots, 'addr, 'ep) quic_ops \<Rightarrow> ('c \<Rightarrow> u64) \<Rightarrow> 'm \<Rightarrow> string + 'cert \<times> 'der \<Rightarrow> ('der \<Rightarrow> string + 'key) \<Rightarrow>
   'addr \<Rightarrow> ('c, 'm) connection_handler \<Rightarrow> (string + 'c) list \<Rightarrow>
   ((string + unit) \<times> (string + 'c) list) exec"
where
  "serve qo sid md generated private_key addr handler attempts =
     (case generated of
        Inl _ \<Rightarrow> Panic
      | Inr (cert_der, key_der) \<Rightarrow>
          (case private_key key_der of
             Inl _ \<Rightarrow> Panic
           | Inr key \<Rightarrow>
               (case quic_new qo (serve_config cert_der key addr) of
                  Inl e \<Rightarrow> Ret (Inl e, attempts)
                | Inr (endpoint, node) \<Rightarrow>
                    (let (r, later, _) = serve_loop sid md attempts (on_inbound handler node) in Ret (r, later)))))"

section \<open>The client\<close>

text \<open>\<^verbatim>\<open>TowerClientService\<close>: \<open>close_reason\<close> is why the connection was closed, if it was.\<close>

definition client_poll_ready :: "string option \<Rightarrow> TowerError + unit" where
  "client_poll_ready close_reason = (case close_reason of Some e \<Rightarrow> Inl (TE_Connection e) | None \<Rightarrow> Inr ())"

definition client_send ::
  "('h, 'n, 'v) header_ops \<Rightarrow> (RequestEnvelope \<Rightarrow> string + bytes) \<Rightarrow> ('b \<Rightarrow> string + bytes) \<Rightarrow> ('h, 'b) Request \<Rightarrow> unit tower_io"
where
  "client_send ho encode collect req =
     (let req_headers = headers_to_wire ho (rq_headers req) in
      io_bind (io_lift (map_sum TE_Internal id (collect (rq_body req)))) (\<lambda>body.
      write_request_envelope encode \<lparr>qe_path = rq_path req, qe_headers = req_headers, qe_payload = body\<rparr>))"

definition client_receive ::
  "('h, 'n, 'v) header_ops \<Rightarrow> (bytes \<Rightarrow> string + ResponseEnvelope) \<Rightarrow> ('h, bytes) Response tower_io"
where
  "client_receive ho decode =
     io_bind (read_response_envelope decode) (\<lambda>res_envelope.
     io_return \<lparr>rs_status = ucast (re_status_code res_envelope),
                rs_headers = headers_from_wire ho (re_headers res_envelope), rs_body = re_payload res_envelope\<rparr>)"

definition client_call ::
  "('h, 'n, 'v) header_ops \<Rightarrow> (RequestEnvelope \<Rightarrow> string + bytes) \<Rightarrow> (bytes \<Rightarrow> string + ResponseEnvelope) \<Rightarrow>
   ('b \<Rightarrow> string + bytes) \<Rightarrow> string + SendHalf \<times> bytes \<Rightarrow> ('h, 'b) Request \<Rightarrow> TowerError + ('h, bytes) Response"
where
  "client_call ho encode decode collect opened req =
     (case opened of
        Inl e \<Rightarrow> Inl (TE_Connection e)
      | Inr (send, recv) \<Rightarrow>
          fst (io_bind (client_send ho encode collect req) (\<lambda>_. client_receive ho decode) (bistream_new False send recv)))"

section \<open>What arrives of the headers\<close>

text \<open>Of the values of a header only the first is sent, and only if it has a text.\<close>

definition transmitted :: "('h, 'n, 'v) header_ops \<Rightarrow> 'v list \<Rightarrow> 'v list" where
  "transmitted ho vs = (case vs of [] \<Rightarrow> [] | v # _ \<Rightarrow> (if ho_value_to_str ho v = None then [] else [v]))"

context header_map
begin

definition first_text :: "'h \<Rightarrow> 'n \<Rightarrow> string option" where
  "first_text h n = (case get_all h n of [] \<Rightarrow> None | v # _ \<Rightarrow> ho_value_to_str ho v)"

lemma name_text_inj: "ho_name_to_string ho n = ho_name_to_string ho m \<longleftrightarrow> n = m"
  by (metis name_reads_back option.inject)

lemma fold_first_texts:
  assumes "distinct ns"
  shows "hm_get (fold (\<lambda>n wire. case first_text h n of None \<Rightarrow> wire | Some s \<Rightarrow> hm_insert (ho_name_to_string ho n) s wire) ns w)
      (ho_name_to_string ho n) =
    (if n \<in> set ns \<and> first_text h n \<noteq> None then first_text h n else hm_get w (ho_name_to_string ho n))"
  using assms by (induction ns arbitrary: w) (auto simp: name_text_inj split: option.split)

lemma headers_to_wire_fold:
  "\<exists>ns. distinct ns \<and> set ns = {n. get_all h n \<noteq> []} \<and> headers_to_wire ho h =
     fold (\<lambda>n wire. case first_text h n of None \<Rightarrow> wire | Some s \<Rightarrow> hm_insert (ho_name_to_string ho n) s wire) ns []"
proof -
  let ?f = "\<lambda>(name, value) wire. case name of None \<Rightarrow> wire | Some name \<Rightarrow>
      (case ho_value_to_str ho value of None \<Rightarrow> wire | Some s \<Rightarrow> hm_insert (ho_name_to_string ho name) s wire)"
  obtain ns where ns: "distinct ns" "set ns = {n. get_all h n \<noteq> []}"
    "ho_into_iter ho h = concat (map (\<lambda>n. (Some n, hd (get_all h n)) # map (Pair None) (tl (get_all h n))) ns)"
    using iter_grouped by blast
  have skip: "fold ?f (map (Pair None) vs) w = w" for vs w by (induction vs) simp_all
  have first: "first_text h n = ho_value_to_str ho (hd (get_all h n))" if "n \<in> set ns" for n
    using that ns(2) by (cases "get_all h n") (auto simp: first_text_def)
  have "fold ?f (concat (map (\<lambda>n. (Some n, hd (get_all h n)) # map (Pair None) (tl (get_all h n))) ms)) w =
      fold (\<lambda>n wire. case first_text h n of None \<Rightarrow> wire | Some s \<Rightarrow> hm_insert (ho_name_to_string ho n) s wire) ms w"
    if "set ms \<subseteq> set ns" for ms w
    using that by (induction ms arbitrary: w) (simp_all add: skip first)
  then show ?thesis using ns unfolding headers_to_wire_def by auto
qed

lemma headers_to_wire_get: "hm_get (headers_to_wire ho h) (ho_name_to_string ho n) = first_text h n"
proof -
  obtain ns where ns: "distinct ns" "set ns = {n. get_all h n \<noteq> []}" "headers_to_wire ho h =
      fold (\<lambda>n wire. case first_text h n of None \<Rightarrow> wire | Some s \<Rightarrow> hm_insert (ho_name_to_string ho n) s wire) ns []"
    using headers_to_wire_fold by blast
  show ?thesis
    unfolding ns(3) fold_first_texts [OF ns(1)] using ns(2) by (cases "get_all h n") (simp_all add: first_text_def)
qed

lemma fold_first_texts_keys:
  "fst ` set (fold (\<lambda>n wire. case first_text h n of None \<Rightarrow> wire | Some s \<Rightarrow> hm_insert (ho_name_to_string ho n) s wire) ns w)
     \<subseteq> fst ` set w \<union> range (ho_name_to_string ho)"
proof (induction ns arbitrary: w)
  case (Cons n ns)
  show ?case
  proof (cases "first_text h n")
    case (Some s)
    have "fst ` set (hm_insert (ho_name_to_string ho n) s w) \<subseteq> fst ` set w \<union> range (ho_name_to_string ho)"
      by (simp add: hm_insert_def dom_update)
    then show ?thesis using Cons.IH [of "hm_insert (ho_name_to_string ho n) s w"] by (simp add: Some) blast
  qed (use Cons.IH in simp)
qed simp

lemma headers_to_wire_keys:
  assumes "k \<in> fst ` set (headers_to_wire ho h)"
  shows "\<exists>n. k = ho_name_to_string ho n"
proof -
  obtain ns where "headers_to_wire ho h =
      fold (\<lambda>n wire. case first_text h n of None \<Rightarrow> wire | Some s \<Rightarrow> hm_insert (ho_name_to_string ho n) s wire) ns []"
    using headers_to_wire_fold by blast
  with assms fold_first_texts_keys [of h ns "[]"] have "k \<in> range (ho_name_to_string ho)" by (simp add: subset_iff)
  then show ?thesis by blast
qed

lemma headers_from_wire_get:
  assumes "distinct (map fst w)" and "\<forall>k \<in> fst ` set w. \<exists>n. k = ho_name_to_string ho n"
  shows "get_all (fold (\<lambda>(k, v) headers. case (ho_name_from ho k, ho_value_from ho v) of
        (Some name, Some value) \<Rightarrow> ho_insert ho name value headers | _ \<Rightarrow> headers) w h) n =
    (case Option.bind (map_of w (ho_name_to_string ho n)) (ho_value_from ho) of Some v \<Rightarrow> [v] | None \<Rightarrow> get_all h n)"
  using assms
proof (induction w arbitrary: h)
  case (Cons x w)
  obtain m v where x: "x = (ho_name_to_string ho m, v)" using Cons.prems(2) by (cases x) auto
  have fresh: "map_of w (ho_name_to_string ho m) = None"
    using Cons.prems(1) by (simp add: x map_of_eq_None_iff)
  show ?case
    using Cons.IH Cons.prems fresh
    by (cases "ho_value_from ho v")
      (auto simp: x name_reads_back name_text_inj get_all_insert split: option.splits)
qed simp

lemma headers_arrive:
  assumes "hm_wf w" and "hm_get w = hm_get (headers_to_wire ho h)"
  shows "get_all (headers_from_wire ho w) n = transmitted ho (get_all h n)"
proof -
  have keys: "\<forall>k \<in> fst ` set w. \<exists>n. k = ho_name_to_string ho n"
  proof
    fix k assume "k \<in> fst ` set w"
    then have "map_of (headers_to_wire ho h) k \<noteq> None" using assms(2) by (metis hm_get_def map_of_eq_None_iff)
    then have "k \<in> fst ` set (headers_to_wire ho h)" by (simp add: map_of_eq_None_iff)
    then show "\<exists>n. k = ho_name_to_string ho n" by (rule headers_to_wire_keys)
  qed
  have "map_of w (ho_name_to_string ho n) = first_text h n"
    using fun_cong [OF assms(2), of "ho_name_to_string ho n"] by (simp add: headers_to_wire_get) (simp add: hm_get_def)
  then have "get_all (headers_from_wire ho w) n =
      (case Option.bind (first_text h n) (ho_value_from ho) of Some v \<Rightarrow> [v] | None \<Rightarrow> [])"
    unfolding headers_from_wire_def
    using headers_from_wire_get [OF _ keys, of "ho_new ho" n, unfolded get_all_new] assms(1) by (simp add: hm_wf_def)
  also have "\<dots> = transmitted ho (get_all h n)"
  proof (cases "get_all h n")
    case (Cons v vs)
    then show ?thesis by (cases "ho_value_to_str ho v") (simp_all add: first_text_def transmitted_def value_reads_back)
  qed (simp add: first_text_def transmitted_def)
  finally show ?thesis .
qed

end

section \<open>A call from end to end\<close>

text \<open>
  An envelope survives its encoding: it is encoded in less than 4 GiB and decoded to one with the same
  fields, its header map possibly in another order.
\<close>

definition survives :: "('e \<Rightarrow> string + bytes) \<Rightarrow> (bytes \<Rightarrow> string + 'e) \<Rightarrow> ('e \<Rightarrow> 'e \<Rightarrow> bool) \<Rightarrow> 'e \<Rightarrow> bool" where
  "survives enc dec same e \<longleftrightarrow> (\<exists>b e'. enc e = Inr b \<and> length b < 2 ^ 32 \<and> dec b = Inr e' \<and> same e e')"

definition same_headers :: "(string, string) hmap \<Rightarrow> (string, string) hmap \<Rightarrow> bool" where
  "same_headers m m' \<longleftrightarrow> hm_wf m' \<and> hm_get m' = hm_get m"

definition same_request :: "RequestEnvelope \<Rightarrow> RequestEnvelope \<Rightarrow> bool" where
  "same_request e e' \<longleftrightarrow> qe_path e' = qe_path e \<and> same_headers (qe_headers e) (qe_headers e') \<and> qe_payload e' = qe_payload e"

definition same_response :: "ResponseEnvelope \<Rightarrow> ResponseEnvelope \<Rightarrow> bool" where
  "same_response e e' \<longleftrightarrow> re_status_code e' = re_status_code e \<and> same_headers (re_headers e) (re_headers e') \<and>
     re_payload e' = re_payload e"

definition fresh_half :: SendHalf where
  "fresh_half = \<lparr>sh_written = [], sh_limit = None, sh_finished = False\<rparr>"

lemma write_envelope_survives:
  assumes "survives enc dec same e"
  obtains b e' where "\<And>recv. prost_encode enc e (bistream_new False fresh_half recv) =
      (Inr (), sends (prefixed b) (bistream_new False fresh_half recv))"
    and "\<And>st. bi_recv_stream st = prefixed b \<Longrightarrow> prost_decode dec st = (Inr e', st\<lparr>bi_recv_stream := []\<rparr>)"
    and "same e e'"
proof -
  obtain b e' where b: "enc e = Inr b" "length b < 2 ^ 32" "dec b = Inr e'" "same e e'"
    using assms unfolding survives_def by blast
  show ?thesis
  proof (rule that [OF _ _ b(4)])
    show "prost_encode enc e (bistream_new False fresh_half recv) =
        (Inr (), sends (prefixed b) (bistream_new False fresh_half recv))" for recv
      using b(1) by (simp add: prost_encode_def io_lift_def io_bind_def write_length_prefixed_healthy fresh_half_def bistream_new_def)
    show "prost_decode dec st = (Inr e', st\<lparr>bi_recv_stream := []\<rparr>)" if "bi_recv_stream st = prefixed b" for st
      using read_length_prefixed_append [of st b "[]"] that b(2,3) by (simp add: prost_decode_def io_lift_def)
  qed
qed

lemma status_through_u32: "(ucast (ucast (n :: u16) :: u32) :: u16) = n"
  by (simp add: unsigned_ucast_eq take_bit_word_eq_self)

text \<open>The request as a server sees it, and the response as a client sees it.\<close>

definition request_like :: "('h, 'n, 'v) header_ops \<Rightarrow> ('h \<Rightarrow> 'n \<Rightarrow> 'v list) \<Rightarrow> ('h, 'b) Request \<Rightarrow> bytes \<Rightarrow> ('h, bytes) Request \<Rightarrow> bool" where
  "request_like ho get_all req body req' \<longleftrightarrow> rq_path req' = rq_path req \<and> rq_body req' = body \<and>
     (\<forall>n. get_all (rq_headers req') n = transmitted ho (get_all (rq_headers req) n))"

definition response_like :: "('h, 'n, 'v) header_ops \<Rightarrow> ('h \<Rightarrow> 'n \<Rightarrow> 'v list) \<Rightarrow> ('h, 'b) Response \<Rightarrow> bytes \<Rightarrow> ('h, bytes) Response \<Rightarrow> bool" where
  "response_like ho get_all res body res' \<longleftrightarrow> rs_status res' = rs_status res \<and> rs_body res' = body \<and>
     (\<forall>n. get_all (rs_headers res') n = transmitted ho (get_all (rs_headers res) n))"

text \<open>The server reads one request, calls the service and sends the response; its send half is finished.\<close>

lemma handle_stream_answers:
  assumes "prost_decode decq (bistream_new False fresh_half input) = (Inr q, bistream_new False fresh_half [])"
    and "sv_ready service = Inr ()"
    and "sv_call service \<lparr>rq_path = qe_path q, rq_headers = headers_from_wire ho (qe_headers q), rq_body = qe_payload q\<rparr> = Inr res"
    and "collect' (rs_body res) = Inr body'"
    and "prost_encode encr \<lparr>re_status_code = ucast (rs_status res), re_headers = headers_to_wire ho (rs_headers res), re_payload = body'\<rparr>
      (bistream_new False fresh_half []) = (Inr (), sends out (bistream_new False fresh_half []))"
  shows "\<exists>st. handle_stream_axum ho decq encr collect' service (bistream_new False fresh_half input) = (Inr (), st) \<and>
    sh_written (bi_send_stream st) = out \<and> sh_finished (bi_send_stream st)"
proof -
  let ?st = "sends out (bistream_new False fresh_half [])"
  let ?fin = "?st\<lparr>bi_send_stream := (bi_send_stream ?st)\<lparr>sh_finished := True\<rparr>\<rparr>"
  have "bi_finish ?st = (Inr (), ?fin)"
    by (simp add: bi_finish_def Let_def) (simp add: bistream_new_def fresh_half_def)
  then have "handle_stream_axum ho decq encr collect' service (bistream_new False fresh_half input) = (Inr (), ?fin)"
    unfolding handle_stream_axum_def prost_is_serde(4,5) Let_def using assms by (simp add: io_lift_def)
  moreover have "sh_written (bi_send_stream ?fin) = out" "sh_finished (bi_send_stream ?fin)"
    by (simp_all add: bistream_new_def fresh_half_def)
  ultimately show ?thesis by blast
qed

text \<open>
  C5: a call is the service applied to the request. If client and server are connected by a healthy
  stream, the envelopes survive their encoding and the service answers, then the client's call
  returns a response with the status and the body of the service's response, where the service got
  a request with the path and the body of the client's request; of every header, on both ways, only
  the first value arrives, and only if it is a text. The server finishes the stream.
\<close>

theorem call_roundtrip:
  assumes "header_map ho get_all"
    and "collect (rq_body req) = Inr body"
    and "survives encq decq same_request \<lparr>qe_path = rq_path req, qe_headers = headers_to_wire ho (rq_headers req), qe_payload = body\<rparr>"
    and "sv_ready service = Inr ()" and "\<forall>req'. request_like ho get_all req body req' \<longrightarrow> sv_call service req' = Inr res"
    and "collect' (rs_body res) = Inr body'"
    and "survives encr decr same_response \<lparr>re_status_code = ucast (rs_status res), re_headers = headers_to_wire ho (rs_headers res),
      re_payload = body'\<rparr>"
  shows "\<exists>sent replied st res'.
    client_send ho encq collect req (bistream_new False fresh_half replied) = (Inr (), sends sent (bistream_new False fresh_half replied)) \<and>
    handle_stream_axum ho decq encr collect' service (bistream_new False fresh_half sent) = (Inr (), st) \<and>
    sh_written (bi_send_stream st) = replied \<and> sh_finished (bi_send_stream st) \<and>
    client_call ho encq decr collect (Inr (fresh_half, replied)) req = Inr res' \<and> response_like ho get_all res body' res'"
proof -
  obtain bq q where q: "\<And>recv. prost_encode encq \<lparr>qe_path = rq_path req, qe_headers = headers_to_wire ho (rq_headers req), qe_payload = body\<rparr>
        (bistream_new False fresh_half recv) = (Inr (), sends (prefixed bq) (bistream_new False fresh_half recv))"
      "\<And>st. bi_recv_stream st = prefixed bq \<Longrightarrow> prost_decode decq st = (Inr q, st\<lparr>bi_recv_stream := []\<rparr>)"
      "same_request \<lparr>qe_path = rq_path req, qe_headers = headers_to_wire ho (rq_headers req), qe_payload = body\<rparr> q"
    using write_envelope_survives [OF assms(3)] by blast
  obtain br r where r: "\<And>recv. prost_encode encr \<lparr>re_status_code = ucast (rs_status res), re_headers = headers_to_wire ho (rs_headers res),
        re_payload = body'\<rparr> (bistream_new False fresh_half recv) = (Inr (), sends (prefixed br) (bistream_new False fresh_half recv))"
      "\<And>st. bi_recv_stream st = prefixed br \<Longrightarrow> prost_decode decr st = (Inr r, st\<lparr>bi_recv_stream := []\<rparr>)"
      "same_response \<lparr>re_status_code = ucast (rs_status res), re_headers = headers_to_wire ho (rs_headers res), re_payload = body'\<rparr> r"
    using write_envelope_survives [OF assms(7)] by blast
  let ?req' = "\<lparr>rq_path = qe_path q, rq_headers = headers_from_wire ho (qe_headers q), rq_body = qe_payload q\<rparr>"
  let ?res' = "\<lparr>rs_status = ucast (re_status_code r), rs_headers = headers_from_wire ho (re_headers r), rs_body = re_payload r\<rparr>"
  have called: "sv_call service ?req' = Inr res"
    using assms(5) q(3) header_map.headers_arrive [OF assms(1)]
    by (auto simp: request_like_def same_request_def same_headers_def)
  have like: "response_like ho get_all res body' ?res'"
    using r(3) status_through_u32 header_map.headers_arrive [OF assms(1)]
    by (auto simp: response_like_def same_response_def same_headers_def)
  have send: "client_send ho encq collect req (bistream_new False fresh_half recv) =
      (Inr (), sends (prefixed bq) (bistream_new False fresh_half recv))" for recv
    unfolding client_send_def prost_is_serde(3) Let_def using assms(2) q(1) by (simp add: io_lift_def)
  have recv: "bi_recv_stream (bistream_new False fresh_half input) = input"
    "(bistream_new False fresh_half input)\<lparr>bi_recv_stream := []\<rparr> = bistream_new False fresh_half []" for input
    by (simp_all add: bistream_new_def)
  obtain st where handle: "handle_stream_axum ho decq encr collect' service (bistream_new False fresh_half (prefixed bq)) = (Inr (), st)"
      "sh_written (bi_send_stream st) = prefixed br" "sh_finished (bi_send_stream st)"
    using handle_stream_answers [of decq "prefixed bq" q service ho res collect' body' encr "prefixed br"]
      q(2) [OF recv(1)] assms(4,6) called r(1) by (auto simp: recv(2))
  have received: "client_receive ho decr (sends b (bistream_new False fresh_half (prefixed br))) =
      (Inr ?res', (sends b (bistream_new False fresh_half (prefixed br)))\<lparr>bi_recv_stream := []\<rparr>)" for b
    unfolding client_receive_def prost_is_serde(6) using r(2) by (simp add: recv(1) io_return_def)
  have "client_call ho encq decr collect (Inr (fresh_half, prefixed br)) req = Inr ?res'"
    using send received by (simp add: client_call_def)
  then show ?thesis using send handle like
    by (intro exI [of _ "prefixed bq"] exI [of _ "prefixed br"] exI [of _ st] exI [of _ ?res'] conjI)
qed

definition demo_service :: "(((string \<times> string) list, bytes) Request, ((string \<times> string) list, bytes) Response) service" where
  "demo_service = \<lparr>sv_ready = Inr (),
     sv_call = (\<lambda>req. Inr \<lparr>rs_status = 200, rs_headers = [], rs_body = rev (rq_body req)\<rparr>)\<rparr>"

text \<open>Encodings of envelopes to one path and without headers, as a concrete instance.\<close>

definition demo_encode_request :: "RequestEnvelope \<Rightarrow> string + bytes" where
  "demo_encode_request e = Inr (qe_payload e)"

definition demo_decode_request :: "bytes \<Rightarrow> string + RequestEnvelope" where
  "demo_decode_request b = Inr \<lparr>qe_path = ''/a'', qe_headers = [], qe_payload = b\<rparr>"

definition demo_encode_response :: "ResponseEnvelope \<Rightarrow> string + bytes" where
  "demo_encode_response e = Inr (to_be_bytes (re_status_code e) @ re_payload e)"

definition demo_decode_response :: "bytes \<Rightarrow> string + ResponseEnvelope" where
  "demo_decode_response b = Inr \<lparr>re_status_code = from_be_bytes (take 4 b), re_headers = [], re_payload = drop 4 b\<rparr>"

theorem call_roundtrip_witness:
  "\<exists>replied res'. client_call list_headers demo_encode_request demo_decode_response Inr (Inr (fresh_half, replied))
      \<lparr>rq_path = ''/a'', rq_headers = [], rq_body = [1, 2]\<rparr> = Inr res' \<and> rs_status res' = 200 \<and> rs_body res' = [2, 1]"
proof -
  let ?req = "\<lparr>rq_path = ''/a'', rq_headers = [], rq_body = [1, 2]\<rparr> :: ((string \<times> string) list, bytes) Request"
  let ?res = "\<lparr>rs_status = 200, rs_headers = [], rs_body = [2, 1]\<rparr> :: ((string \<times> string) list, bytes) Response"
  have no_headers: "headers_to_wire list_headers [] = []"
    by (simp add: headers_to_wire_def list_headers_def)
  have request: "survives demo_encode_request demo_decode_request same_request
      \<lparr>qe_path = rq_path ?req, qe_headers = headers_to_wire list_headers (rq_headers ?req), qe_payload = [1, 2]\<rparr>"
    by (simp add: no_headers survives_def demo_encode_request_def demo_decode_request_def same_request_def same_headers_def hm_wf_def)
  have response: "survives demo_encode_response demo_decode_response same_response
      \<lparr>re_status_code = ucast (rs_status ?res), re_headers = headers_to_wire list_headers (rs_headers ?res), re_payload = [2, 1]\<rparr>"
    by (simp add: no_headers survives_def demo_encode_response_def demo_decode_response_def same_response_def same_headers_def hm_wf_def)
  have service: "sv_ready demo_service = Inr ()"
    "\<forall>req'. request_like list_headers list_get_all ?req [1, 2] req' \<longrightarrow> sv_call demo_service req' = Inr ?res"
    by (simp_all add: demo_service_def request_like_def)
  have "Inr (rq_body ?req) = Inr [1, 2]" "Inr (rs_body ?res) = Inr [2, 1]" by simp_all
  from call_roundtrip [where collect = Inr and collect' = Inr and req = ?req and res = ?res,
      OF list_header_map.header_map_axioms this(1) request service this(2) response]
  obtain replied res' where "client_call list_headers demo_encode_request demo_decode_response Inr (Inr (fresh_half, replied)) ?req = Inr res'"
    "response_like list_headers list_get_all ?res [2, 1] res'"
    by (elim exE conjE) (rule that)
  then show ?thesis by (intro exI [of _ replied] exI [of _ res']) (simp add: response_like_def)
qed

text \<open>
  The client keeps the low 16 bits of the status the peer sends: what is not a status code may be
  taken for one.
\<close>

lemma client_status_wraps:
  assumes "bi_recv_stream st = prefixed b" and "length b < 2 ^ 32" and "decr b = Inr e"
  shows "\<exists>res. fst (client_receive ho decr st) = Inr res \<and> unat (rs_status res) = unat (re_status_code e) mod 65536"
  using read_length_prefixed_append [of st b "[]"] assms
  by (simp add: client_receive_def prost_is_serde(6) prost_decode_def io_lift_def io_return_def
      unsigned_ucast_eq take_bit_eq_mod)

lemma client_accepts_65736:
  "map_sum id rs_status (fst (client_receive list_headers demo_decode_response
     (bistream_new False fresh_half (prefixed (to_be_bytes 65736))))) = Inr 200"
proof -
  have "demo_decode_response (to_be_bytes 65736) = Inr \<lparr>re_status_code = 65736, re_headers = [], re_payload = []\<rparr>"
    by (simp add: demo_decode_response_def)
  from client_status_wraps [where ho = list_headers and decr = demo_decode_response, OF _ _ this, of "bistream_new False fresh_half (prefixed (to_be_bytes 65736))"]
  obtain res where res: "fst (client_receive list_headers demo_decode_response
      (bistream_new False fresh_half (prefixed (to_be_bytes 65736)))) = Inr res" "unat (rs_status res) = 200"
    by (auto simp: bistream_new_def)
  then have "rs_status res = 200" by (simp add: word_unat_eq_iff)
  then show ?thesis by (simp add: res(1))
qed

text \<open>Reading leaves the sending half alone.\<close>

lemma prost_decode_send_half: "bi_send_stream (snd (prost_decode dec st)) = bi_send_stream st"
  by (auto simp: prost_decode_def read_length_prefixed_def io_bind_def io_lift_def bi_read_exact_def
      split: sum.splits prod.splits)

lemma prost_encode_healthy:
  assumes "\<not> sh_finished (bi_send_stream st)" and "sh_limit (bi_send_stream st) = None"
  shows "prost_encode enc x st = (case enc x of Inl e \<Rightarrow> (Inl (TE_ProstEncode e), st) | Inr b \<Rightarrow> (Inr (), sends (prefixed b) st))"
  using write_length_prefixed_healthy [OF assms]
  by (auto simp: prost_encode_def io_bind_def io_lift_def split: sum.split)

text \<open>
  C39: a call that fails on the server is answered with nothing. On a healthy stream, whether the
  request cannot be decoded, the service is not ready or fails, or the response's body cannot be
  collected or encoded, the server writes not a single byte and does not finish the stream; a client
  whose stream ends like this reports that reading ended early, whatever the failure was.
\<close>

theorem failed_call_is_silent:
  assumes "handle_stream_axum ho decq encr collect service st = (Inl e, st')"
    and "\<not> sh_finished (bi_send_stream st)" and "sh_limit (bi_send_stream st) = None"
  shows "bi_send_stream st' = bi_send_stream st \<and>
    fst (client_receive ho' decr (client\<lparr>bi_recv_stream := []\<rparr>)) = Inl (TE_ReadExact ''finished early'')"
proof
  obtain r st1 where read: "prost_decode decq st = (r, st1)" "bi_send_stream st1 = bi_send_stream st"
    using prost_decode_send_half [of decq st] by (metis prod.collapse snd_conv)
  have healthy: "\<not> sh_finished (bi_send_stream st1)" "sh_limit (bi_send_stream st1) = None"
    using assms(2,3) read(2) by simp_all
  have "\<not> sh_finished (bi_send_stream (sends b st1))" for b using healthy(1) by simp
  then have finish: "fst (bi_finish (sends b st1)) = Inr ()" for b by (simp add: bi_finish_def Let_def)
  have "st' = st1"
    using assms(1) finish unfolding handle_stream_axum_def prost_is_serde(4,5) Let_def
    by (auto simp: io_bind_def [of "prost_decode decq"] read(1) io_bind_def io_lift_def prost_encode_healthy [OF healthy]
        split: sum.splits prod.splits dest!: arg_cong [of _ _ fst])
  then show "bi_send_stream st' = bi_send_stream st" using read(2) by simp
  show "fst (client_receive ho' decr (client\<lparr>bi_recv_stream := []\<rparr>)) = Inl (TE_ReadExact ''finished early'')"
    by (simp add: client_receive_def read_response_envelope_def read_length_prefixed_def bi_read_exact_def read_exact_def io_bind_def)
qed

theorem failed_call_is_silent_witness:
  "\<exists>e st'. handle_stream_axum list_headers (\<lambda>_. Inl ''bad'') demo_encode_response Inr demo_service
      (bistream_new False fresh_half [0, 0, 0, 0]) = (Inl e, st') \<and> bi_send_stream st' = fresh_half"
proof -
  have "handle_stream_axum list_headers (\<lambda>_. Inl ''bad'') demo_encode_response Inr demo_service
      (bistream_new False fresh_half [0, 0, 0, 0]) = (Inl (TE_ProstDecode ''bad''), bistream_new False fresh_half [])"
    by (simp add: handle_stream_axum_def read_request_envelope_def read_length_prefixed_def bi_read_exact_def read_exact_def
        io_bind_def io_lift_def bistream_new_def from_be_bytes.simps)
  note failed = this
  from failed_call_is_silent [OF failed] show ?thesis
    unfolding failed by (simp add: bistream_new_def fresh_half_def)
qed

lemma setup_connection_no_error:
  assumes "\<forall>w. \<exists>w'. handler w = Inr w'"
  shows "\<exists>cm' tasks. setup_connection sid md c (Some handler) cm = (cm', [], tasks)"
proof -
  obtain w' where "handler \<lparr>cw_conn = c, cw_context = (cm_default_conn_context cm)\<lparr>cc_id := sid c\<rparr>, cw_metadata = md\<rparr> = Inr w'"
    using assms by blast
  then show ?thesis by (auto simp: setup_connection_def Let_def split: sum.split)
qed

lemma serve_loop_accepts:
  assumes "qn_inbound_handler node = Some handler" and "\<forall>w. \<exists>w'. handler w = Inr w'"
  shows "\<exists>node'. serve_loop sid md (map Inr conns @ later) node = serve_loop sid md later node' \<and>
    qn_inbound_handler node' = Some handler"
  using assms(1)
proof (induction conns arbitrary: node)
  case (Cons c conns)
  obtain cm tasks where "setup_connection sid md c (qn_inbound_handler node) (qn_conn_manager node) = (cm, [], tasks)"
    using setup_connection_no_error [OF assms(2)] Cons.prems by metis
  then show ?case
    using Cons.IH [of "node\<lparr>qn_conn_manager := cm\<rparr>"] Cons.prems by (simp add: handle_incoming_def)
qed auto

text \<open>As long as no connection reports an error, serving is listening.\<close>

lemma serve_loop_listen:
  "fst (snd (listen sid md attempts node)) = [] \<Longrightarrow>
   serve_loop sid md attempts node = (Inr (), [], fst (listen sid md attempts node))"
  by (induction attempts arbitrary: node) (auto simp: Let_def split: prod.splits)

text \<open>
  One failed handshake stops a development server. However many connections were accepted
  before and however well their handlers do, the first connection attempt whose handshake fails ends
  \<^verbatim>\<open>serve\<close> with that error, and the attempts after it are never looked at.
\<close>

theorem one_failure_stops_server:
  fixes handler :: "('c, 'm) connection_handler" and node :: "('c, 'm) QuicNode"
  assumes "private_key key_der = Inr key" and "quic_new qo (serve_config cert key addr) = Inr (endpoint, node)"
    and "\<forall>w. \<exists>w'. handler w = Inr w'"
  shows "serve qo sid md (Inr (cert, key_der)) private_key addr handler (map Inr conns @ Inl e # later) = Ret (Inl e, later)"
proof -
  obtain node' where "serve_loop sid md (map Inr conns @ Inl e # later) (on_inbound handler node) =
      serve_loop sid md (Inl e # later) node'"
    using serve_loop_accepts [OF _ assms(3), of "on_inbound handler node" sid md conns "Inl e # later"] that
    by (auto simp: on_inbound_def simp del: serve_loop.simps)
  then show ?thesis using assms(1,2) by (simp add: serve_def handle_incoming_def)
qed

theorem one_failure_stops_server_witness:
  "serve demo_quic_ops id () (Inr ((), ())) Inr 0 Inr [Inr 1, Inl ''timeout'', Inr 2] = Ret (Inl ''timeout'', [Inr 2])"
proof -
  obtain ep and node :: "(u64, unit) QuicNode" where "quic_new demo_quic_ops (serve_config () () 0) = Inr (ep, node)"
    by (simp add: quic_new_def server_settings_def client_settings_def set_timeout_def demo_quic_ops_def serve_config_def)
  from one_failure_stops_server [where private_key = Inr and key_der = "()" and handler = Inr, OF refl this,
      of id "()" "[1]" "''timeout''" "[Inr 2]"]
  show ?thesis by simp
qed



end
