(* ===== verification/Spec2Isabelle.thy ===== *)
theory Spec2Isabelle
  imports Topics Forwarding Framing Discovery Reconciliation Registry Backpressure Connections
    Keep_Alive Flow_Node Flow_Operations Flow_Data Flow_Handshake Gossip Sessions Mesh Flooding
    Tower_Codec Tower_Http Tower_Adapter Tower_Service
begin

text \<open>
  A verification library for the stric workspace: a QUIC transport (\<^verbatim>\<open>stric-core\<close>), a
  publish/subscribe mesh on it (\<^verbatim>\<open>stric-flow\<close>) and a request/response layer (\<^verbatim>\<open>stric-tower\<close>).

  \<^bold>\<open>How the program works.\<close> A \<^verbatim>\<open>QuicNode\<close> accepts and opens connections, runs a handler on each and
  files the connection in a registry; a pool of workers pings the connections that are to be kept
  alive. A \<^verbatim>\<open>FlowNode\<close> installs a handler that negotiates a control stream with the peer. Control
  messages from all peers go through one queue to the control loop, which maintains the topology
  graph, subscriptions, sessions and rate limiters and passes news on to the other peers. To publish,
  a node computes a forwarding table from its graph, puts it into the envelope and sends the envelope
  to the first hops; every receiver forwards by the table and delivers locally. The Tower layer sends
  one request and one response over a stream of its own; a server decodes the request, calls a
  service, normally a router with typed handlers and possibly middleware around it, and sends its
  response.

  \<^bold>\<open>Conventions.\<close> Structs are records, enums are datatypes, hash maps are association lists with the
  operations of \<open>Stric_Prelude\<close> (locale \<open>hash_map\<close>), fixed-width integers are words. A Rust panic is
  \<open>Panic\<close> of the type \<open>exec\<close>, a \<^verbatim>\<open>Result\<close> a sum with the error on the left. Arithmetic that may
  overflow takes a flag that says whether the build checks for it. A loop that may run for ever is a
  \<open>partial_function\<close> whose value \<open>None\<close> is divergence. Clocks, random numbers and the results of
  input/output are arguments. A task of the program is a function of what it reads; what it sends,
  spawns or wakes up is returned as a list of effects in the order of the code. Libraries outside the
  repository (petgraph, quinn, rustls, prost, serde, the http crate, the governor rate limiter, SHA-256)
  are arguments, and what is relied on is stated in locales (\<open>digraph\<close>, \<open>payload_format\<close>,
  \<open>header_map\<close>, \<open>http_types\<close>) or as hypotheses of the theorems.

  \<^bold>\<open>The mesh: routing.\<close> \<open>Topics\<close> models \<^verbatim>\<open>match_topic\<close> (\<^verbatim>\<open>stric-flow/src/routing.rs\<close>) and shows that its
  index loop decides matching level by level. \<open>Digraph\<close> has the interface of the graph library and an
  instance, \<open>Flow_Proto\<close> the messages of \<^verbatim>\<open>stric-flow/proto/stric_flow.proto\<close>. \<open>Global_Graph\<close> models
  \<^verbatim>\<open>GlobalGraph\<close> with its renumbering after removals and shows that it refines a topology by names.
  \<open>Binary_Heap\<close> models the standard library's heap with its sifting, \<open>Shortest_Paths\<close> is the abstract
  theory of the search, and \<open>Forwarding\<close> models \<^verbatim>\<open>compute_forwarding_table\<close>: the table is a tree,
  routes every reachable subscriber by a cheapest path and is computed in finitely many steps, as
  long as no path cost exceeds \<^verbatim>\<open>u32\<close>; a theorem shows what happens otherwise.

  \<^bold>\<open>The mesh: parts of a node.\<close> \<open>Framing\<close> (\<^verbatim>\<open>frame.rs\<close>): frames read back as written. \<open>Discovery\<close>
  (\<^verbatim>\<open>discovery.rs\<close>): the invariant of the buckets and the closest nodes. \<open>Reconciliation\<close>
  (\<^verbatim>\<open>reconciliation.rs\<close>): back-off and garbage collection. \<open>Registry\<close> (\<^verbatim>\<open>registry.rs\<close>). \<open>Backpressure\<close>
  (\<^verbatim>\<open>backpressure.rs\<close>): the limiter with its methods interleaved, as a step relation.

  \<^bold>\<open>The transport.\<close> \<open>Connections\<close> models \<^verbatim>\<open>connection.rs\<close>, \<^verbatim>\<open>connection_wrapper.rs\<close>, \<^verbatim>\<open>node.rs\<close>,
  \<^verbatim>\<open>node_config.rs\<close> and parts of \<^verbatim>\<open>stream.rs\<close> of \<^verbatim>\<open>stric-core\<close>: the registry keeps every connection
  under its own identifier, and set-up registers exactly what the handler accepts. \<open>Keep_Alive\<close> models
  \<^verbatim>\<open>keep_alive.rs\<close> as a system of a manager, workers and their queues: no stream is duplicated, and
  where streams get lost is said exactly.

  \<^bold>\<open>The mesh: a node.\<close> \<open>Flow_Node\<close> models the state of \<^verbatim>\<open>FlowNode\<close> and the control loop
  (\<^verbatim>\<open>stric-flow/src/node.rs\<close>, one definition per message), \<open>Flow_Operations\<close> the public operations,
  the garbage-collection tick and the reconnection task, \<open>Flow_Data\<close> publishing, forwarding and
  delivery, \<open>Flow_Handshake\<close> the connection handler with the loops it starts: pings, writer, reader and
  the listener for data streams. The control loop
  refines an abstract view of topology and epochs and never panics in a release build; two nodes
  agree in the handshake; only negotiated peers are registered; the control stream delivers what was
  written, up to the message at which the stream breaks.

  \<^bold>\<open>The mesh: several nodes.\<close> \<open>Gossip\<close> shows once, in the locale \<open>epoch_gossip\<close>, that filtering by epochs
  handles every update at most once, and interprets it for topology and subscription updates.
  \<open>Sessions\<close> treats the replication of session states. \<open>Mesh\<close> follows a published message through
  the network: messages in flight arrive in any order, and every reachable subscriber gets the
  message exactly once. \<open>Flooding\<close> follows control messages, of all kinds and in any order: in the
  locale \<open>epoch_flood\<close>, interpreted for subscription and topology updates, every node connected to the
  origin of an announcement has handled it when nothing is in flight any more. With \<open>Mesh\<close> this gives
  the promise of the whole: after a subscription anywhere, what is published anywhere reaches its
  handler. Each of these theories also proves where the code does not do what it means
  to: updates that are lost or erased, states that diverge, announcements that circulate for ever.

  \<^bold>\<open>The request/response layer.\<close> \<open>Tower_Codec\<close> models \<^verbatim>\<open>codec.rs\<close> and \<^verbatim>\<open>error.rs\<close> (and the messages of
  \<^verbatim>\<open>stric_tower_wire.proto\<close>) over streams that may fail; the contract of a codec is the locale
  \<open>service_codec\<close>. \<open>Tower_Http\<close> models requests, responses, extractors (\<^verbatim>\<open>http.rs\<close>), handlers
  (\<^verbatim>\<open>handler.rs\<close>) and the router (\<^verbatim>\<open>routing.rs\<close>), \<open>Tower_Adapter\<close> the adapter for middleware
  (\<^verbatim>\<open>adapter.rs\<close>), \<open>Tower_Service\<close> server and client (\<^verbatim>\<open>server.rs\<close>, \<^verbatim>\<open>client.rs\<close>). The main theorem
  composes them: a call is the service applied to the request, up to the headers that get lost.

  \<^bold>\<open>Bounds and fuel.\<close> No theorem depends on a fuel bound: the search and the walks of \<open>Forwarding\<close> are
  partial functions whose termination is a theorem, and \<open>dijkstra_fuel\<close> serves only to evaluate the
  two runs of the overflow example, where it is shown to agree with the loop. Hypotheses on sizes are
  those of the code: path costs below \<open>2^32 - 1\<close>, frames up to 16 MiB, buffers of
  the Tower layer below 4 GiB, fewer than \<open>2^32\<close> reconnection attempts.

  \<^bold>\<open>Not modelled.\<close> The methods of \<^verbatim>\<open>SendUniStream\<close> and \<^verbatim>\<open>RecvUniStream\<close> and the rest of \<^verbatim>\<open>BiStream\<close>, which
  only delegate to quinn; the certificate verifiers, which accept everything; \<^verbatim>\<open>handler_types.rs\<close>, crate
  roots, build scripts and generated protobuf code; \<^verbatim>\<open>print_debug_info\<close> and logging;
  floating-point rounding of the jitter; the
  capacity of channels, so that a send never waits; examples and tests.
\<close>

end
